(* ===== verification/Net_Prelude.thy ===== *)
theory Net_Prelude
  imports "HOL-Library.Word" "HOL-Library.Multiset"
begin

text \<open>
  Shared material of the MyNetLib development: the names of the C++ types the
  components use, the ways a run of the program can go wrong (\<open>fault\<close>), the sum type
  in which fallible operations return, \<open>std::vector\<close> and \<open>std::copy\<close> on lists, and
  decimal printing (\<open>std::to_string\<close>, the \<open>%d\<close> of \<open>snprintf\<close>).
\<close>

unbundle bit_operations_syntax

section \<open>C++ types\<close>

type_synonym bytes = "char list"
type_synonym size_t = "64 word"
type_synonym cint = "32 word"
type_synonym errno = int
type_synonym ptr = nat

text \<open>
  How a run leaves the defined behaviour: a use of freed memory, an access outside an
  object, a null dereference, \<open>std::length_error\<close>, a failed \<open>assert\<close>, a call of an empty
  \<open>std::function\<close>, and a \<open>LOG_FATAL\<close>, whose \<open>Logger\<close> destructor calls \<open>abort\<close>.
\<close>

datatype fault = UseAfterFree | OutOfBounds | NullDeref | LengthError | AssertFailed | BadFunctionCall | Fatal

type_synonym 'a res = "fault + 'a"

fun res_bind :: "'a res \<Rightarrow> ('a \<Rightarrow> 'b res) \<Rightarrow> 'b res" where
  "res_bind (Inl f) k = Inl f"
| "res_bind (Inr x) k = k x"

lemma res_bind_eq_Inr:
  "res_bind m k = Inr y \<longleftrightarrow> (\<exists>x. m = Inr x \<and> k x = Inr y)"
  by (cases m) auto

lemma res_bind_eq_Inl:
  "res_bind m k = Inl f \<longleftrightarrow> m = Inl f \<or> (\<exists>x. m = Inr x \<and> k x = Inl f)"
  by (cases m) auto

lemma res_bind_Inr_right [simp]: "res_bind m Inr = m"
  by (cases m) auto

section \<open>Words and natural numbers\<close>

named_theorems word_nat \<open>facts that turn word arithmetic into arithmetic on nat\<close>

lemma unat_add_no_overflow [word_nat]:
  fixes x y :: size_t
  assumes "unat x + unat y < 2 ^ 64"
  shows "unat (x + y) = unat x + unat y"
  using assms by (simp add: unat_word_ariths)

lemma unat_sub_no_borrow [word_nat]:
  fixes x y :: size_t
  assumes "unat y \<le> unat x"
  shows "unat (x - y) = unat x - unat y"
  using assms by (simp add: unat_sub word_le_nat_alt)

lemma unat_size_of_nat [word_nat]:
  "n < 2 ^ 64 \<Longrightarrow> unat (word_of_nat n :: size_t) = n"
  by (simp add: unat_of_nat)

text \<open>A positive signed 64-bit value is its own unsigned value, below the sign bit.\<close>

lemma sint_pos_unat:
  fixes x :: size_t
  assumes "0 \<le> sint x"
  shows "sint x = int (unat x)" "unat x < 2 ^ 63"
proof -
  have s: "sint x = signed_take_bit 63 (uint x)" by (simp add: sint_uint)
  with assms have nb: "\<not> bit (uint x) 63" by (metis not_less signed_take_bit_negative_iff)
  have "uint x = take_bit (Suc 63) (uint x)"
    using uint_lt2p [of x] by (simp add: take_bit_int_eq_self)
  also have "\<dots> = take_bit 63 (uint x)" using nb by (simp only: take_bit_Suc_from_most) simp
  finally have u: "uint x = take_bit 63 (uint x)" .
  have "sint x = take_bit 63 (uint x)" using s signed_take_bit_eq_if_positive [OF nb] by simp
  with u show "sint x = int (unat x)" by (simp only: uint_nat)
  have "take_bit 63 (uint x) < 2 ^ 63" by (rule take_bit_int_less_exp)
  with u have "uint x < 2 ^ 63" by (rule ord_eq_less_trans)
  then show "unat x < 2 ^ 63" by (simp only: unat_eq_nat_uint nat_less_iff uint_ge_0) simp
qed

section \<open>Copying and resizing\<close>

text \<open>
  \<open>blit i src dst\<close> is the list \<open>dst\<close> with \<open>src\<close> written from position \<open>i\<close> on;
  \<open>copy_within s d n xs\<close> is \<open>std::copy\<close> between two ranges of one array, an element
  at a time from the front, as the standard prescribes.
\<close>

definition blit :: "nat \<Rightarrow> 'a list \<Rightarrow> 'a list \<Rightarrow> 'a list" where
  "blit i src dst = take i dst @ src @ drop (i + length src) dst"

fun copy_within :: "nat \<Rightarrow> nat \<Rightarrow> nat \<Rightarrow> 'a list \<Rightarrow> 'a list" where
  "copy_within s d 0 xs = xs"
| "copy_within s d (Suc n) xs = copy_within (Suc s) (Suc d) n (xs[d := xs ! s])"

lemma length_blit [simp]: "i + length src \<le> length dst \<Longrightarrow> length (blit i src dst) = length dst"
  by (simp add: blit_def)

lemma take_blit: "i + length src \<le> length dst \<Longrightarrow> j \<le> i \<Longrightarrow> take j (blit i src dst) = take j dst"
  by (simp add: blit_def min_def)

text \<open>The part of the blitted list between \<open>j\<close> and the end of the copied range.\<close>

lemma slice_blit:
  assumes "i + length src \<le> length dst" "j \<le> i"
  shows "take (i + length src - j) (drop j (blit i src dst)) = drop j (take i dst) @ src"
proof -
  have "drop j (blit i src dst) = (drop j (take i dst) @ src) @ drop (i + length src) dst"
    using assms by (simp add: blit_def)
  moreover have "length (drop j (take i dst) @ src) = i + length src - j"
    using assms by simp
  ultimately show ?thesis by (metis append_eq_conv_conj)
qed

lemma slice_length_blit:
  assumes "i + length src \<le> length dst"
  shows "take (length src) (drop i (blit i src dst)) = src"
  using slice_blit [of i src dst i] assms by simp

text \<open>Moving a range to the left inside an array is safe although the ranges may overlap.\<close>

lemma copy_within_left:
  assumes "d \<le> s" "s + n \<le> length xs"
  shows "copy_within s d n xs = blit d (take n (drop s xs)) xs"
  using assms
proof (induction n arbitrary: s d xs)
  case 0
  then show ?case by (simp add: blit_def)
next
  case (Suc n)
  let ?ys = "xs[d := xs ! s]"
  have "copy_within s d (Suc n) xs = blit (Suc d) (take n (drop (Suc s) ?ys)) ?ys"
    using Suc by simp
  also have "drop (Suc s) ?ys = drop (Suc s) xs"
    using Suc.prems by simp
  also have "blit (Suc d) (take n (drop (Suc s) xs)) ?ys
      = take d xs @ xs ! s # take n (drop (Suc s) xs) @ drop (Suc d + n) xs"
  proof -
    have "length (take n (drop (Suc s) xs)) = n" using Suc.prems by simp
    then show ?thesis using Suc.prems
      by (simp only: blit_def) (simp add: take_Suc_conv_app_nth)
  qed
  also have "\<dots> = take d xs @ take (Suc n) (drop s xs) @ drop (Suc d + n) xs"
    using Suc.prems by (simp add: Cons_nth_drop_Suc [symmetric])
  finally have "copy_within s d (Suc n) xs
      = take d xs @ take (Suc n) (drop s xs) @ drop (d + Suc n) xs" by simp
  moreover have "length (take (Suc n) (drop s xs)) = Suc n"
    using Suc.prems by simp
  ultimately show ?case by (simp only: blit_def)
qed

text \<open>
  \<open>std::vector<char>\<close>: its largest size, a resize (new bytes are zero, a size beyond
  the maximum raises \<open>std::length_error\<close>) and a checked copy into its storage.
\<close>

definition vec_max_size :: nat where
  "vec_max_size = 2 ^ 63 - 1"

definition vec_resize :: "size_t \<Rightarrow> bytes \<Rightarrow> bytes res" where
  "vec_resize n xs =
     (if vec_max_size < unat n then Inl LengthError
      else Inr (take (unat n) xs @ replicate (unat n - length xs) CHR 0x00))"

definition vec_write :: "size_t \<Rightarrow> bytes \<Rightarrow> bytes \<Rightarrow> bytes res" where
  "vec_write i src dst =
     (if unat i + length src \<le> length dst then Inr (blit (unat i) src dst) else Inl OutOfBounds)"

section \<open>Decimal printing\<close>

definition digit_char :: "nat \<Rightarrow> char" where
  "digit_char d = char_of (48 + d)"

fun nat_digits :: "nat \<Rightarrow> string" where
  "nat_digits n = (if n < 10 then [digit_char n] else nat_digits (n div 10) @ [digit_char (n mod 10)])"

declare nat_digits.simps [simp del]

definition int_to_string :: "int \<Rightarrow> string" where
  "int_to_string i = (if i < 0 then CHR ''-'' # nat_digits (nat (- i)) else nat_digits (nat i))"

definition digits_val :: "string \<Rightarrow> nat" where
  "digits_val s = foldl (\<lambda>a c. 10 * a + (of_char c - 48)) 0 s"

lemma of_digit_char: "d < 10 \<Longrightarrow> of_char (digit_char d) = 48 + d"
  by (simp add: digit_char_def)

lemma digits_val_nat_digits [simp]: "digits_val (nat_digits n) = n"
proof (induction n rule: nat_digits.induct)
  case (1 n)
  then show ?case
    by (subst nat_digits.simps) (simp add: digits_val_def of_digit_char)
qed

lemma nat_digits_inj [simp]: "nat_digits m = nat_digits n \<longleftrightarrow> m = n"
  by (metis digits_val_nat_digits)

lemma nat_digits_chars: "c \<in> set (nat_digits n) \<Longrightarrow> 48 \<le> (of_char c :: nat) \<and> (of_char c :: nat) \<le> 57"
proof (induction n rule: nat_digits.induct)
  case (1 n)
  show ?case
  proof (cases "n < 10")
    case True
    then have "c = digit_char n" using 1(2) by (subst (asm) nat_digits.simps) simp
    then show ?thesis using True by (simp add: of_digit_char)
  next
    case False
    then have "c \<in> set (nat_digits (n div 10)) \<or> c = digit_char (n mod 10)"
      using 1(2) by (subst (asm) nat_digits.simps) auto
    then show ?thesis using 1(1) False by (auto simp: of_digit_char)
  qed
qed

lemma nat_digits_no_sign: "CHR ''-'' \<notin> set (nat_digits n)" "CHR ''.'' \<notin> set (nat_digits n)"
    "CHR '':'' \<notin> set (nat_digits n)" "CHR ''#'' \<notin> set (nat_digits n)"
  using nat_digits_chars by fastforce+

lemma nat_digits_nonempty [simp]: "nat_digits n \<noteq> []"
  by (subst nat_digits.simps) simp

lemma length_nat_digits: "n < 10 ^ k \<Longrightarrow> 0 < k \<Longrightarrow> length (nat_digits n) \<le> k"
proof (induction n arbitrary: k rule: nat_digits.induct)
  case (1 n)
  show ?case
  proof (cases "n < 10")
    case True
    then show ?thesis using 1(3) by (subst nat_digits.simps) simp
  next
    case False
    obtain j where j: "k = Suc j" using 1(3) by (cases k) auto
    have "n div 10 < 10 ^ j" using 1(2) j by (simp add: less_mult_imp_div_less mult.commute)
    moreover have "0 < j" using False 1(2) j by (cases j) auto
    ultimately show ?thesis using 1(1) False j by (subst nat_digits.simps) simp
  qed
qed

lemma int_to_string_inj [simp]: "int_to_string i = int_to_string j \<longleftrightarrow> i = j"
proof -
  have "nat_digits m \<noteq> CHR ''-'' # s" for m s using nat_digits_no_sign(1) [of m] by (metis list.set_intros(1))
  then show ?thesis by (auto simp: int_to_string_def split: if_splits) (metis)+
qed

lemma split_at_sep:
  "c \<notin> set xs \<Longrightarrow> c \<notin> set xs' \<Longrightarrow> xs @ c # ys = xs' @ c # ys' \<longleftrightarrow> xs = xs' \<and> ys = ys'"
  by (simp add: append_eq_append_conv2 append_eq_Cons_conv Cons_eq_append_conv) (auto simp: append_eq_Cons_conv)

end
