(* ===== verification/Prio_Queue.thy ===== *)
theory Prio_Queue
  imports Net_Prelude
begin

text \<open>
  \<open>std::priority_queue\<close> over \<open>std::vector\<close>, the container behind the timer queue
  (\<^verbatim>\<open>include/timer_manager.h\<close>): a binary heap in an array, ordered by a comparator
  \<open>lt\<close> (\<open>lt x y\<close>: \<open>x\<close> has lower priority than \<open>y\<close>). Which of several elements of
  equal priority is on top is left open by the C++ standard; the laws stated here and
  everything proved from them hold for any choice.
\<close>

section \<open>Heap operations on an array\<close>

definition parent :: "nat \<Rightarrow> nat" where
  "parent i = (i - 1) div 2"

definition swap :: "nat \<Rightarrow> nat \<Rightarrow> 'a list \<Rightarrow> 'a list" where
  "swap i j xs = xs[i := xs ! j, j := xs ! i]"

lemma parent_less: "0 < i \<Longrightarrow> parent i < i"
  by (simp add: parent_def)

lemma parent_child: "parent (2 * i + 1) = i" "parent (2 * i + 2) = i"
  by (simp_all add: parent_def)

lemma parent_eq_iff: "0 < j \<Longrightarrow> parent j = i \<longleftrightarrow> j = 2 * i + 1 \<or> j = 2 * i + 2"
  by (auto simp: parent_def)

lemma length_swap [simp]: "length (swap i j xs) = length xs"
  by (simp add: swap_def)

lemma nth_swap:
  "i < length xs \<Longrightarrow> j < length xs \<Longrightarrow> k < length xs \<Longrightarrow>
   swap i j xs ! k = (if k = j then xs ! i else if k = i then xs ! j else xs ! k)"
  by (simp add: swap_def nth_list_update)

lemma mset_swap_list [simp]:
  "i < length xs \<Longrightarrow> j < length xs \<Longrightarrow> mset (swap i j xs) = mset xs"
  unfolding swap_def by (rule mset_swap)

function sift_up :: "('a \<Rightarrow> 'a \<Rightarrow> bool) \<Rightarrow> nat \<Rightarrow> 'a list \<Rightarrow> 'a list" where
  "sift_up lt i xs =
     (if 0 < i \<and> lt (xs ! parent i) (xs ! i) then sift_up lt (parent i) (swap (parent i) i xs) else xs)"
  by pat_completeness auto
termination
  by (relation "measure (\<lambda>(lt, i, xs). i)") (auto simp: parent_less)

definition best_child :: "('a \<Rightarrow> 'a \<Rightarrow> bool) \<Rightarrow> nat \<Rightarrow> 'a list \<Rightarrow> nat" where
  "best_child lt i xs =
     (if 2 * i + 2 < length xs \<and> lt (xs ! (2 * i + 1)) (xs ! (2 * i + 2)) then 2 * i + 2 else 2 * i + 1)"

function sift_down :: "('a \<Rightarrow> 'a \<Rightarrow> bool) \<Rightarrow> nat \<Rightarrow> 'a list \<Rightarrow> 'a list" where
  "sift_down lt i xs =
     (if 2 * i + 1 < length xs \<and> lt (xs ! i) (xs ! best_child lt i xs)
      then sift_down lt (best_child lt i xs) (swap i (best_child lt i xs) xs) else xs)"
  by pat_completeness auto
termination
  by (relation "measure (\<lambda>(lt, i, xs). length xs - i)") (auto simp: best_child_def)

declare sift_up.simps [simp del] sift_down.simps [simp del]

definition pq_push :: "('a \<Rightarrow> 'a \<Rightarrow> bool) \<Rightarrow> 'a \<Rightarrow> 'a list \<Rightarrow> 'a list" where
  "pq_push lt x xs = sift_up lt (length xs) (xs @ [x])"

definition pq_pop :: "('a \<Rightarrow> 'a \<Rightarrow> bool) \<Rightarrow> 'a list \<Rightarrow> 'a list" where
  "pq_pop lt xs = sift_down lt 0 (butlast (xs[0 := last xs]))"

definition is_heap :: "('a \<Rightarrow> 'a \<Rightarrow> bool) \<Rightarrow> 'a list \<Rightarrow> bool" where
  "is_heap lt xs \<longleftrightarrow> (\<forall>i < length xs. 0 < i \<longrightarrow> \<not> lt (xs ! parent i) (xs ! i))"

text \<open>The order below the root only: what \<open>pop\<close> needs, even when the root's key has changed.\<close>

definition heap_below_root :: "('a \<Rightarrow> 'a \<Rightarrow> bool) \<Rightarrow> 'a list \<Rightarrow> bool" where
  "heap_below_root lt xs \<longleftrightarrow> (\<forall>i < length xs. 0 < parent i \<longrightarrow> \<not> lt (xs ! parent i) (xs ! i))"

lemma is_heap_below_root: "is_heap lt xs \<Longrightarrow> heap_below_root lt xs"
  unfolding is_heap_def heap_below_root_def by (metis gr0I not_less0 parent_def diff_0_eq_0 div_0)

lemma is_heap_Nil [simp]: "is_heap lt []"
  by (simp add: is_heap_def)

section \<open>Contents\<close>

lemma mset_sift_up [simp]: "i < length xs \<Longrightarrow> mset (sift_up lt i xs) = mset xs"
proof (induction lt i xs rule: sift_up.induct)
  case (1 lt i xs)
  then show ?case
    by (subst sift_up.simps) (auto dest: less_trans [OF parent_less])
qed

lemma best_child_bounds:
  "2 * i + 1 < length xs \<Longrightarrow> best_child lt i xs < length xs \<and> i < best_child lt i xs"
  by (auto simp: best_child_def)

lemma mset_sift_down [simp]: "mset (sift_down lt i xs) = mset xs"
proof (induction lt i xs rule: sift_down.induct)
  case (1 lt i xs)
  show ?case
  proof (cases "2 * i + 1 < length xs \<and> lt (xs ! i) (xs ! best_child lt i xs)")
    case True
    then have "best_child lt i xs < length xs" "i < length xs"
      using best_child_bounds [of i xs lt] by auto
    with True "1.IH" show ?thesis by (subst sift_down.simps) simp
  next
    case False
    then show ?thesis by (subst sift_down.simps) (simp only: if_False)
  qed
qed

lemma mset_pq_push [simp]: "mset (pq_push lt x xs) = add_mset x (mset xs)"
  by (simp add: pq_push_def)

lemma mset_pq_pop [simp]: "xs \<noteq> [] \<Longrightarrow> mset (pq_pop lt xs) = mset xs - {#hd xs#}"
proof -
  assume "xs \<noteq> []"
  then obtain y ys where xs: "xs = y # ys" by (cases xs) auto
  show ?thesis
  proof (cases ys rule: rev_cases)
    case Nil
    then show ?thesis by (simp add: pq_pop_def xs)
  next
    case (snoc zs z)
    then show ?thesis by (simp add: pq_pop_def xs butlast_append)
  qed
qed

lemma set_pq_push [simp]: "set (pq_push lt x xs) = insert x (set xs)"
  by (metis mset_pq_push set_mset_mset set_mset_add_mset_insert)

text \<open>An element that is not better than the root does not replace it.\<close>

lemma sift_up_root:
  assumes "i < length xs" "0 < i" "\<not> lt (xs ! 0) (xs ! i)"
  shows "sift_up lt i xs ! 0 = xs ! 0"
  using assms
proof (induction lt i xs rule: sift_up.induct)
  case (1 lt i xs)
  show ?case
  proof (cases "lt (xs ! parent i) (xs ! i)")
    case True
    then have p: "0 < parent i" "parent i < i" using "1.prems" parent_less [of i] by (auto intro: gr0I)
    let ?ys = "swap (parent i) i xs"
    have "parent i < length xs" "xs \<noteq> []" using p "1.prems"(1) by auto
    then have "?ys ! 0 = xs ! 0" "?ys ! parent i = xs ! i" using p "1.prems"(1)
      nth_swap [of "parent i" xs i 0] nth_swap [of "parent i" xs i "parent i"] by auto
    then show ?thesis using "1.IH" True p "1.prems" by (subst sift_up.simps) simp
  next
    case False
    then show ?thesis by (subst sift_up.simps) simp
  qed
qed

lemma pq_push_root:
  assumes "\<not> lt y x"
  shows "\<exists>zs. pq_push lt x (y # ys) = y # zs"
proof -
  have n: "pq_push lt x (y # ys) ! 0 = y" unfolding pq_push_def using assms
    by (subst sift_up_root) (simp_all add: nth_append)
  have "length (pq_push lt x (y # ys)) = Suc (Suc (length ys))" by (metis mset_pq_push size_add_mset size_mset length_Cons)
  then show ?thesis using n by (cases "pq_push lt x (y # ys)") auto
qed

lemma set_pq_pop_distinct:
  "xs \<noteq> [] \<Longrightarrow> distinct xs \<Longrightarrow> set (pq_pop lt xs) = set xs - {hd xs} \<and> distinct (pq_pop lt xs)"
proof -
  assume a: "xs \<noteq> []" "distinct xs"
  then have ms: "mset (pq_pop lt xs) = mset (tl xs)" by (cases xs) auto
  then have "set (pq_pop lt xs) = set (tl xs)" by (metis set_mset_mset)
  moreover have "distinct (pq_pop lt xs) = distinct (tl xs)" by (rule mset_eq_imp_distinct_iff [OF ms])
  ultimately show ?thesis using a by (cases xs) auto
qed

lemma distinct_pq_push [simp]: "distinct (pq_push lt x xs) \<longleftrightarrow> x \<notin> set xs \<and> distinct xs"
  using mset_eq_imp_distinct_iff [of "pq_push lt x xs" "x # xs"] by simp

lemma length_pq_push [simp]: "length (pq_push lt x xs) = Suc (length xs)"
  by (metis mset_pq_push size_mset size_add_mset)

lemma length_pq_pop [simp]: "xs \<noteq> [] \<Longrightarrow> length (pq_pop lt xs) = length xs - 1"
  by (metis mset_pq_pop size_mset size_Diff_singleton hd_in_set set_mset_mset)

section \<open>Order\<close>

text \<open>
  A comparator as \<open>std::priority_queue\<close> requires it: a strict weak order.
\<close>

locale heap_order =
  fixes lt :: "'a \<Rightarrow> 'a \<Rightarrow> bool"
  assumes lt_asym: "lt x y \<Longrightarrow> \<not> lt y x"
    and lt_neg_trans: "\<not> lt x y \<Longrightarrow> \<not> lt y z \<Longrightarrow> \<not> lt x z"
begin

lemma root_is_top:
  assumes "is_heap lt xs" "i < length xs"
  shows "\<not> lt (xs ! 0) (xs ! i)"
  using assms(2)
proof (induction i rule: less_induct)
  case (less i)
  show ?case
  proof (cases "i = 0")
    case True
    then show ?thesis using lt_asym by auto
  next
    case False
    with less have "\<not> lt (xs ! 0) (xs ! parent i)" by (meson gr0I less_trans parent_less)
    moreover from False less.prems assms(1) have "\<not> lt (xs ! parent i) (xs ! i)"
      by (simp add: is_heap_def)
    ultimately show ?thesis by (rule lt_neg_trans)
  qed
qed

lemma hd_is_top: "is_heap lt xs \<Longrightarrow> x \<in> set xs \<Longrightarrow> \<not> lt (hd xs) x"
  using root_is_top by (metis hd_conv_nth in_set_conv_nth length_greater_0_conv length_pos_if_in_set)

text \<open>
  \<open>up_hole\<close>: the heap order may fail at \<open>i\<close> only, and the children of \<open>i\<close> respect the
  parent of \<open>i\<close>; \<open>down_hole\<close>: it may fail below \<open>i\<close> only.
\<close>

lemma sift_up_heap:
  assumes "i < length xs"
    and "\<And>j. j < length xs \<Longrightarrow> 0 < j \<Longrightarrow> j \<noteq> i \<Longrightarrow> \<not> lt (xs ! parent j) (xs ! j)"
    and "\<And>j. j < length xs \<Longrightarrow> 0 < j \<Longrightarrow> parent j = i \<Longrightarrow> 0 < i \<Longrightarrow> \<not> lt (xs ! parent i) (xs ! j)"
  shows "is_heap lt (sift_up lt i xs)"
  using assms
proof (induction i arbitrary: xs rule: less_induct)
  case (less i)
  note hole = less.prems(2) and grand = less.prems(3)
  show ?case
  proof (cases "0 < i \<and> lt (xs ! parent i) (xs ! i)")
    case False
    then have "sift_up lt i xs = xs" by (subst sift_up.simps) (simp only: if_False)
    then show ?thesis using hole False by (auto simp: is_heap_def)
  next
    case True
    let ?p = "parent i"
    let ?ys = "swap ?p i xs"
    have p: "?p < i" "?p < length xs" using True less.prems(1) by (auto dest: parent_less)
    have nth: "k < length xs \<Longrightarrow> ?ys ! k = (if k = i then xs ! ?p else if k = ?p then xs ! i else xs ! k)" for k
      using p less.prems(1) by (simp add: nth_swap)
    have "is_heap lt (sift_up lt ?p ?ys)"
    proof (rule less.IH)
      fix j assume j: "j < length ?ys" "0 < j" "j \<noteq> ?p"
      then have pj: "parent j < length xs" "parent j \<noteq> j" by (auto dest: parent_less)
      show "\<not> lt (?ys ! parent j) (?ys ! j)"
      proof (cases "j = i")
        case True
        then show ?thesis using nth p j lt_asym \<open>0 < i \<and> lt (xs ! ?p) (xs ! i)\<close> by simp
      next
        case False
        consider "parent j = i" | "parent j = ?p" | "parent j \<noteq> i" "parent j \<noteq> ?p" by blast
        then show ?thesis
        proof cases
          case 1
          then show ?thesis using nth pj j False grand [of j] True by simp
        next
          case 2
          then have "\<not> lt (xs ! ?p) (xs ! j)" using hole [of j] j False by simp
          then have "\<not> lt (xs ! i) (xs ! j)" using lt_neg_trans lt_asym True by blast
          then show ?thesis using 2 nth pj j False p by simp
        next
          case 3
          then show ?thesis using nth pj j False hole [of j] by simp
        qed
      qed
    next
      fix j assume j: "j < length ?ys" "0 < j" "parent j = ?p" "0 < ?p"
      have pp: "parent ?p < length xs" "parent ?p \<noteq> ?p" "parent ?p \<noteq> i"
        using j p parent_less [of ?p] by auto
      have base: "\<not> lt (xs ! parent ?p) (xs ! ?p)" using hole [of ?p] j p by simp
      show "\<not> lt (?ys ! parent ?p) (?ys ! j)"
      proof (cases "j = i")
        case True
        then show ?thesis using nth pp j base by simp
      next
        case False
        then have "j \<noteq> ?p" "\<not> lt (xs ! ?p) (xs ! j)" using hole [of j] j parent_less [of j] by auto
        then show ?thesis using nth pp j False lt_neg_trans [OF base] by simp
      qed
    qed (use p in auto)
    then show ?thesis using True by (subst sift_up.simps) simp
  qed
qed

lemma push_heap: "is_heap lt xs \<Longrightarrow> is_heap lt (pq_push lt x xs)"
  unfolding pq_push_def
proof (rule sift_up_heap)
  fix j assume "is_heap lt xs" "j < length (xs @ [x])" "0 < j" "j \<noteq> length xs"
  then show "\<not> lt ((xs @ [x]) ! parent j) ((xs @ [x]) ! j)"
    using parent_less [of j] by (simp add: is_heap_def nth_append)
next
  fix j assume "j < length (xs @ [x])" "0 < j" "parent j = length xs"
  then show "\<not> lt ((xs @ [x]) ! parent (length xs)) ((xs @ [x]) ! j)"
    using parent_less [of j] by simp
qed simp

lemma best_child_top:
  assumes "j < length xs" "0 < j" "parent j = i"
  shows "\<not> lt (xs ! best_child lt i xs) (xs ! j)"
  using assms lt_asym by (auto simp: parent_eq_iff best_child_def)

lemma sift_down_heap:
  assumes "\<And>j. j < length xs \<Longrightarrow> 0 < j \<Longrightarrow> parent j \<noteq> i \<Longrightarrow> \<not> lt (xs ! parent j) (xs ! j)"
    and "\<And>j. j < length xs \<Longrightarrow> 0 < j \<Longrightarrow> parent j = i \<Longrightarrow> 0 < i \<Longrightarrow> \<not> lt (xs ! parent i) (xs ! j)"
  shows "is_heap lt (sift_down lt i xs)"
  using assms
proof (induction "length xs - i" arbitrary: xs i rule: less_induct)
  case less
  note hole = less.prems(1) and grand = less.prems(2)
  let ?c = "best_child lt i xs"
  show ?case
  proof (cases "2 * i + 1 < length xs \<and> lt (xs ! i) (xs ! ?c)")
    case False
    then have id: "sift_down lt i xs = xs" by (subst sift_down.simps) (simp only: if_False)
    have "\<not> lt (xs ! i) (xs ! j)" if "j < length xs" "0 < j" "parent j = i" for j
      using that False best_child_top [OF that] lt_neg_trans by (auto simp: parent_eq_iff)
    then show ?thesis using hole id by (auto simp: is_heap_def)
  next
    case True
    have c: "?c < length xs" "i < ?c" "parent ?c = i"
      using True best_child_bounds [of i xs lt] by (auto simp: best_child_def parent_def)
    let ?ys = "swap i ?c xs"
    have nth: "k < length xs \<Longrightarrow> ?ys ! k = (if k = ?c then xs ! i else if k = i then xs ! ?c else xs ! k)" for k
      using c by (simp add: nth_swap)
    have "is_heap lt (sift_down lt ?c ?ys)"
    proof (rule less.hyps)
      fix j assume j: "j < length ?ys" "0 < j" "parent j \<noteq> ?c"
      then have pj: "parent j < j" "parent j < length xs" by (auto dest: parent_less)
      consider "parent j = i" "j = ?c" | "parent j = i" "j \<noteq> ?c" | "j = i" | "parent j \<noteq> i" "j \<noteq> i" by blast
      then show "\<not> lt (?ys ! parent j) (?ys ! j)"
      proof cases
        case 1
        then show ?thesis using nth j pj c True lt_asym by simp
      next
        case 2
        then show ?thesis using nth j pj c best_child_top [of j xs i] by simp
      next
        case 3
        then show ?thesis using nth j pj c grand [of ?c] by simp
      next
        case 4
        then show ?thesis using nth j pj c hole [of j] by auto
      qed
    next
      fix j assume j: "j < length ?ys" "0 < j" "parent j = ?c"
      then have "j \<noteq> i" "j \<noteq> ?c" using parent_less [of j] c by auto
      moreover have "\<not> lt (xs ! ?c) (xs ! j)" using hole [of j] j c by simp
      ultimately show "\<not> lt (?ys ! parent ?c) (?ys ! j)" using nth j c by simp
    qed (use c in auto)
    then show ?thesis using True by (subst sift_down.simps) simp
  qed
qed

lemma pop_heap:
  assumes "heap_below_root lt xs"
  shows "is_heap lt (pq_pop lt xs)"
  unfolding pq_pop_def
proof (rule sift_down_heap)
  fix j assume j: "j < length (butlast (xs[0 := last xs]))" "0 < j" "parent j \<noteq> 0"
  then have "parent j < j" "j < length xs - 1" by (auto simp: parent_less)
  moreover have "\<not> lt (xs ! parent j) (xs ! j)"
    using assms j by (simp add: heap_below_root_def)
  ultimately show "\<not> lt (butlast (xs[0 := last xs]) ! parent j) (butlast (xs[0 := last xs]) ! j)"
    using j by (simp add: nth_butlast)
qed simp

end

section \<open>The priority queue contract\<close>

text \<open>
  What a client of \<open>std::priority_queue\<close> may rely on: \<open>push\<close> and \<open>pop\<close> change the
  contents by exactly one element and \<open>top\<close> is an element no other one beats.
\<close>

locale prio_queue = heap_order lt for lt :: "'a \<Rightarrow> 'a \<Rightarrow> bool" +
  fixes invar :: "'q \<Rightarrow> bool"
    and elems :: "'q \<Rightarrow> 'a multiset"
    and push :: "'a \<Rightarrow> 'q \<Rightarrow> 'q"
    and top :: "'q \<Rightarrow> 'a"
    and pop :: "'q \<Rightarrow> 'q"
  assumes push_invar: "invar q \<Longrightarrow> invar (push x q)"
    and push_elems: "invar q \<Longrightarrow> elems (push x q) = add_mset x (elems q)"
    and pop_invar: "invar q \<Longrightarrow> elems q \<noteq> {#} \<Longrightarrow> invar (pop q)"
    and pop_elems: "invar q \<Longrightarrow> elems q \<noteq> {#} \<Longrightarrow> elems (pop q) = elems q - {#top q#}"
    and top_elem: "invar q \<Longrightarrow> elems q \<noteq> {#} \<Longrightarrow> top q \<in># elems q"
    and top_best: "invar q \<Longrightarrow> x \<in># elems q \<Longrightarrow> \<not> lt (top q) x"
begin

text \<open>Popping in a row yields the elements in order of priority.\<close>

lemma top_after_pop: "invar q \<Longrightarrow> elems (pop q) \<noteq> {#} \<Longrightarrow> elems q \<noteq> {#} \<Longrightarrow> \<not> lt (top q) (top (pop q))"
  by (metis pop_elems pop_invar top_best top_elem in_diffD)

end

sublocale heap_order \<subseteq> arrayq: prio_queue lt "is_heap lt" mset "pq_push lt" hd "pq_pop lt"
  by unfold_locales (auto simp: push_heap pop_heap is_heap_below_root hd_is_top)

end
