(* ===== verification/Timer_Manager.thy ===== *)
theory Timer_Manager
  imports Prio_Queue "HOL-Library.Signed_Division"
begin

text \<open>
  \<open>Timer\<close> and \<open>TimerManager\<close> (\<^verbatim>\<open>timer.h\<close>, \<^verbatim>\<open>timer.cc\<close>, \<^verbatim>\<open>timer_manager.h\<close>,
  \<^verbatim>\<open>timer_manager.cc\<close>). The queue holds pointers, so the timers live in a store \<open>mem\<close>
  that \<open>new\<close> and \<open>delete\<close> change, the comparator reads keys through it, and touching a
  deleted timer is the fault \<open>UseAfterFree\<close>. The clock is an argument of every operation
  that reads it. Timer callbacks act on the whole state (\<open>run\<close>): a callback may call
  back into the timer manager, as the code allows.
\<close>

section \<open>Timer\<close>

type_synonym u64 = "64 word"

record 'cb timer =
  timer_id :: u64
  expired_time :: u64
  repeated_times :: cint
  interval :: u64
  callback :: 'cb

text \<open>\<open>Timer::GenerateId\<close> run by one thread: the counter is incremented and read.\<close>

definition GenerateId :: "u64 \<Rightarrow> u64 \<times> u64" where
  "GenerateId initial_id = (initial_id + 1, initial_id + 1)"

definition Timer_ctor :: "u64 \<Rightarrow> cint \<Rightarrow> u64 \<Rightarrow> 'cb \<Rightarrow> u64 \<Rightarrow> 'cb timer" where
  "Timer_ctor expired_time_ms repeat intv cb tid =
     \<lparr>timer_id = tid, expired_time = expired_time_ms, repeated_times = repeat,
      interval = intv, callback = cb\<rparr>"

definition SetExpiredTime :: "u64 \<Rightarrow> 'cb timer \<Rightarrow> 'cb timer" where
  "SetExpiredTime e t = t\<lparr>expired_time := e\<rparr>"

definition DecRepeatTimes :: "'cb timer \<Rightarrow> 'cb timer" where
  "DecRepeatTimes t = t\<lparr>repeated_times := repeated_times t - 1\<rparr>"

section \<open>TimerManager\<close>

text \<open>
  \<open>timers_que\<close> is the heap array of the priority queue, \<open>mem\<close> the timers on the free
  store, \<open>next_ptr\<close> the next address \<open>new\<close> returns, \<open>initial_id\<close> the static id counter
  and \<open>world\<close> everything else the callbacks can see.
\<close>

record ('cb, 'w) timer_manager =
  timers_que :: "ptr list"
  mem :: "ptr \<rightharpoonup> 'cb timer"
  next_ptr :: ptr
  initial_id :: u64
  world :: 'w

text \<open>\<open>cmp\<close>: later expiry first, more repeats first among equals (a max-heap upside down).\<close>

definition cmp_key :: "u64 \<times> int \<Rightarrow> u64 \<times> int \<Rightarrow> bool" where
  "cmp_key k1 k2 = (if fst k1 = fst k2 then snd k2 < snd k1 else fst k2 < fst k1)"

definition timer_key :: "(ptr \<rightharpoonup> 'cb timer) \<Rightarrow> ptr \<Rightarrow> u64 \<times> int" where
  "timer_key m p = (case m p of None \<Rightarrow> (0, 0) | Some t \<Rightarrow> (expired_time t, sint (repeated_times t)))"

definition cmp :: "(ptr \<rightharpoonup> 'cb timer) \<Rightarrow> ptr \<Rightarrow> ptr \<Rightarrow> bool" where
  "cmp m t1 t2 = cmp_key (timer_key m t1) (timer_key m t2)"

text \<open>\<open>clock_gettime\<close> is an argument: seconds and nanoseconds.\<close>

definition GetCurrentMillisecs :: "int \<times> int \<Rightarrow> u64" where
  "GetCurrentMillisecs ts = word_of_int (fst ts * 1000 + snd ts sdiv (1000 * 1000))"

definition AddTimer ::
  "u64 \<Rightarrow> cint \<Rightarrow> u64 \<Rightarrow> 'cb \<Rightarrow> ('cb, 'w) timer_manager \<Rightarrow> ptr option \<times> ('cb, 'w) timer_manager" where
  "AddTimer now repeat intv cb s =
     (if sint intv \<le> 0 then (None, s)
      else let p = next_ptr s;
               (tid, nid) = GenerateId (initial_id s);
               m = (mem s)(p \<mapsto> Timer_ctor (now + intv) repeat intv cb tid)
           in (Some p, s\<lparr>timers_que := pq_push (cmp m) p (timers_que s), mem := m,
                          next_ptr := p + 1, initial_id := nid\<rparr>))"

text \<open>
  \<open>RemoveTimer\<close> pops every timer into a new queue and deletes the one looked for on the
  way. \<open>delete\<close> of a timer that is gone is a double free.
\<close>

function remove_loop ::
  "ptr \<Rightarrow> (ptr \<rightharpoonup> 'cb timer) \<Rightarrow> ptr list \<Rightarrow> ptr list \<Rightarrow> ((ptr \<rightharpoonup> 'cb timer) \<times> ptr list) res" where
  "remove_loop timer m que newqueue =
     (if que = [] then Inr (m, newqueue)
      else let t = hd que; que' = pq_pop (cmp m) que in
        if t = timer
        then (if m timer = None then Inl UseAfterFree
              else remove_loop timer (m(timer := None)) que' newqueue)
        else remove_loop timer m que' (pq_push (cmp m) t newqueue))"
  by pat_completeness auto
termination
  by (relation "measure (\<lambda>(timer, m, que, newqueue). length que)") auto

declare remove_loop.simps [simp del]

definition RemoveTimer :: "ptr \<Rightarrow> ('cb, 'w) timer_manager \<Rightarrow> ('cb, 'w) timer_manager res" where
  "RemoveTimer timer s =
     res_bind (remove_loop timer (mem s) (timers_que s) [])
       (\<lambda>(m, q). Inr (s\<lparr>timers_que := q, mem := m\<rparr>))"

text \<open>
  One turn of the loop of \<open>CheckAndHandle\<close>: \<open>Stop\<close> ends the loop (normally or by a
  fault), \<open>Again\<close> goes on. The timer is re-keyed while it is still in the queue, popped
  and pushed again, in the order of the source. \<open>pop\<close> on an empty queue is undefined.
\<close>

datatype 's turn = Stop "'s res" | Again 's

definition check_turn ::
  "('cb \<Rightarrow> ('cb, 'w) timer_manager \<Rightarrow> ('cb, 'w) timer_manager) \<Rightarrow> u64 \<Rightarrow>
   ('cb, 'w) timer_manager \<Rightarrow> ('cb, 'w) timer_manager turn" where
  "check_turn run now s =
     (case timers_que s of
        [] \<Rightarrow> Stop (Inr s)
      | timer # rest \<Rightarrow>
        (case mem s timer of
           None \<Rightarrow> Stop (Inl UseAfterFree)
         | Some t \<Rightarrow>
           if expired_time t \<le> now then
             (let s1 = run (callback t) s in
              case mem s1 timer of
                None \<Rightarrow> Stop (Inl UseAfterFree)
              | Some t1 \<Rightarrow>
                if timers_que s1 = [] then Stop (Inl OutOfBounds)
                else if repeated_times t1 = 0
                then Again (s1\<lparr>timers_que := pq_pop (cmp (mem s1)) (timers_que s1),
                               mem := (mem s1)(timer := None)\<rparr>)
                else let t2 = DecRepeatTimes (SetExpiredTime (now + interval t1) t1);
                         m = (mem s1)(timer \<mapsto> t2);
                         que = pq_pop (cmp m) (timers_que s1)
                     in Again (s1\<lparr>timers_que := pq_push (cmp m) timer que, mem := m\<rparr>))
           else Stop (Inr s)))"

partial_function (option) check_loop ::
  "('cb \<Rightarrow> ('cb, 'w) timer_manager \<Rightarrow> ('cb, 'w) timer_manager) \<Rightarrow> u64 \<Rightarrow>
   ('cb, 'w) timer_manager \<Rightarrow> ('cb, 'w) timer_manager res option" where
  "check_loop run now s =
     (case check_turn run now s of Stop r \<Rightarrow> Some r | Again s' \<Rightarrow> check_loop run now s')"

definition CheckAndHandle ::
  "('cb \<Rightarrow> ('cb, 'w) timer_manager \<Rightarrow> ('cb, 'w) timer_manager) \<Rightarrow> int \<times> int \<Rightarrow>
   ('cb, 'w) timer_manager \<Rightarrow> ('cb, 'w) timer_manager res option" where
  "CheckAndHandle run ts s = check_loop run (GetCurrentMillisecs ts) s"

text \<open>
  \<open>unsigned long long timeout = -1\<close>, and the comparison \<open>timeout < 0\<close> of an unsigned
  value, as the source has them.
\<close>

definition GetRecentTimeout :: "u64 \<Rightarrow> ('cb, 'w) timer_manager \<Rightarrow> u64 res" where
  "GetRecentTimeout now s =
     (case timers_que s of
        [] \<Rightarrow> Inr (- 1)
      | p # _ \<Rightarrow>
        (case mem s p of
           None \<Rightarrow> Inl UseAfterFree
         | Some t \<Rightarrow> let timeout = expired_time t - now in
                     Inr (if timeout < 0 then 0 else timeout)))"

section \<open>Invariant\<close>

text \<open>
  The queue is a heap of distinct live timers, no timer exists outside it (no leak), and
  every interval is positive.
\<close>

definition tm_inv :: "('cb, 'w) timer_manager \<Rightarrow> bool" where
  "tm_inv s \<longleftrightarrow> is_heap (cmp (mem s)) (timers_que s) \<and> distinct (timers_que s) \<and>
     set (timers_que s) = dom (mem s) \<and> (\<forall>p \<in> dom (mem s). p < next_ptr s) \<and>
     (\<forall>t \<in> ran (mem s). 0 < sint (interval t))"

interpretation timerq: heap_order "cmp m" for m :: "ptr \<rightharpoonup> 'cb timer"
proof unfold_locales
  fix x y assume "cmp m x y"
  then show "\<not> cmp m y x" by (auto simp: cmp_def cmp_key_def split: if_splits)
next
  fix x y z assume "\<not> cmp m x y" "\<not> cmp m y z"
  then show "\<not> cmp m x z" by (auto simp: cmp_def cmp_key_def split: if_splits)
qed

definition empty_manager :: "'w \<Rightarrow> ('cb, 'w) timer_manager" where
  "empty_manager w = \<lparr>timers_que = [], mem = Map.empty, next_ptr = 0, initial_id = 0, world = w\<rparr>"

lemma empty_manager_inv: "tm_inv (empty_manager w)"
  by (simp add: empty_manager_def tm_inv_def)

text \<open>The keys of other timers do not matter: the heap order only looks at its own elements.\<close>

lemma cmp_cong: "m x = m' x \<Longrightarrow> m y = m' y \<Longrightarrow> cmp m x y = cmp m' x y"
  by (simp add: cmp_def timer_key_def)

lemma is_heap_congI:
  "is_heap (cmp m) xs \<Longrightarrow> \<forall>x \<in> set xs. m' x = m x \<Longrightarrow> is_heap (cmp m') xs"
  unfolding is_heap_def by (metis cmp_cong nth_mem parent_less less_trans)

lemma heap_below_root_cong:
  assumes "is_heap (cmp m) xs" "distinct xs" "\<And>x. x \<in> set (tl xs) \<Longrightarrow> m x = m' x"
  shows "heap_below_root (cmp m') xs"
  unfolding heap_below_root_def
proof (intro allI impI)
  fix i assume i: "i < length xs" "0 < parent i"
  then have "0 < i" by (auto simp: parent_def)
  then have pi: "parent i < length xs" using i parent_less [of i] by simp
  have "xs ! k \<in> set (tl xs)" if "0 < k" "k < length xs" for k
    using that by (cases xs) (auto simp: nth_Cons')
  then have "m (xs ! i) = m' (xs ! i)" "m (xs ! parent i) = m' (xs ! parent i)"
    using i pi \<open>0 < i\<close> assms(3) by auto
  then show "\<not> cmp m' (xs ! parent i) (xs ! i)"
    using assms(1) i \<open>0 < i\<close> cmp_cong by (metis is_heap_def)
qed

text \<open>
  \<open>pop\<close> after the top timer was re-keyed or deleted: harmless, because \<open>pop\<close> never
  looks at the key of the element it removes.
\<close>

lemma pop_rekeyed:
  assumes "is_heap (cmp m) q" "distinct q" "\<And>x. x \<noteq> hd q \<Longrightarrow> m' x = m x"
  shows "is_heap (cmp m') (pq_pop (cmp m') q)"
proof (rule timerq.pop_heap, rule heap_below_root_cong [OF assms(1,2)])
  fix x assume "x \<in> set (tl q)"
  then have "x \<noteq> hd q" using assms(2) by (cases q) auto
  then show "m x = m' x" using assms(3) by simp
qed

lemma tm_invD:
  assumes "tm_inv s"
  shows "is_heap (cmp (mem s)) (timers_que s)" "distinct (timers_que s)"
    "set (timers_que s) = dom (mem s)" "\<And>p. p \<in> dom (mem s) \<Longrightarrow> p < next_ptr s"
    "\<And>p t. mem s p = Some t \<Longrightarrow> 0 < sint (interval t)"
  using assms by (auto simp: tm_inv_def intro: ranI)

lemma tm_invI:
  "is_heap (cmp (mem s)) (timers_que s) \<Longrightarrow> distinct (timers_que s) \<Longrightarrow>
   set (timers_que s) = dom (mem s) \<Longrightarrow> (\<And>p. p \<in> dom (mem s) \<Longrightarrow> p < next_ptr s) \<Longrightarrow>
   (\<And>p t. mem s p = Some t \<Longrightarrow> 0 < sint (interval t)) \<Longrightarrow> tm_inv s"
  by (auto simp: tm_inv_def ran_def)

lemma AddTimer_inv: "tm_inv s \<Longrightarrow> tm_inv (snd (AddTimer now repeat intv cb s))"
proof (cases "sint intv \<le> 0")
  case True
  then show "tm_inv s \<Longrightarrow> ?thesis" by (simp add: AddTimer_def)
next
  case False
  assume inv: "tm_inv s"
  note d = tm_invD [OF inv]
  let ?t = "Timer_ctor (now + intv) repeat intv cb (initial_id s + 1)"
  let ?m = "(mem s)(next_ptr s \<mapsto> ?t)"
  have fresh: "next_ptr s \<notin> dom (mem s)" using d(4) by blast
  then have "is_heap (cmp ?m) (timers_que s)"
    using d(3) by (intro is_heap_congI [OF d(1)]) auto
  moreover have "0 < sint (interval t)" if "t \<in> ran ?m" for t
    using that False inv fresh by (auto simp: tm_inv_def Timer_ctor_def ran_def split: if_splits)
  moreover have "p < next_ptr s + 1" if "p \<in> dom ?m" for p
  proof -
    from that have "p = next_ptr s \<or> p \<in> dom (mem s)" by auto
    then show ?thesis using d(4) [of p] by linarith
  qed
  ultimately show ?thesis using False d fresh
    by (simp add: tm_inv_def AddTimer_def GenerateId_def Let_def timerq.push_heap)
qed

section \<open>RemoveTimer\<close>

lemma remove_loop_spec:
  assumes "distinct que" "distinct new" "set que \<inter> set new = {}" "set que \<union> set new \<subseteq> dom m"
    "is_heap (cmp m) que" "is_heap (cmp m) new" "timer \<notin> set new"
  shows "\<exists>q. remove_loop timer m que new = Inr (if timer \<in> set que then m(timer := None) else m, q) \<and>
     distinct q \<and> set q = set que \<union> set new - {timer} \<and>
     is_heap (cmp (if timer \<in> set que then m(timer := None) else m)) q"
  using assms
proof (induction "length que" arbitrary: que new m)
  case 0
  then show ?case by (subst remove_loop.simps) auto
next
  case (Suc n)
  then have ne: "que \<noteq> []" by auto
  let ?t = "hd que" and ?q = "pq_pop (cmp m) que"
  have q: "set ?q = set que - {?t}" "distinct ?q" "n = length ?q"
    using set_pq_pop_distinct [OF ne Suc.prems(1)] ne Suc.hyps(2) by auto
  have hq: "is_heap (cmp m) ?q"
    using Suc.prems(5) by (rule timerq.pop_heap [OF is_heap_below_root])
  show ?case
  proof (cases "?t = timer")
    case True
    let ?m = "m(timer := None)"
    have "is_heap (cmp ?m) ?q" using q True by (intro is_heap_congI [OF hq]) auto
    moreover have "is_heap (cmp ?m) new"
      using Suc.prems(7) by (intro is_heap_congI [OF Suc.prems(6)]) auto
    moreover have "set ?q \<inter> set new = {}" "set ?q \<union> set new \<subseteq> dom ?m" "timer \<notin> set ?q"
      using Suc.prems(3,4,7) q(1) True by auto
    ultimately obtain r where r: "remove_loop timer ?m ?q new = Inr (?m, r)" "distinct r"
        "set r = set ?q \<union> set new - {timer}" "is_heap (cmp ?m) r"
      using Suc.hyps(1) [OF q(3) q(2) Suc.prems(2), of ?m] Suc.prems(7) by auto
    moreover have "timer \<in> set que" using True ne by auto
    moreover from this have "m timer \<noteq> None" using Suc.prems(4) by blast
    moreover have "set ?q \<union> set new - {timer} = set que \<union> set new - {timer}" using q True by auto
    ultimately show ?thesis using ne True by (subst remove_loop.simps) auto
  next
    case False
    let ?new = "pq_push (cmp m) ?t new"
    have t: "?t \<in> set que" using ne by simp
    obtain r where r: "remove_loop timer m ?q ?new =
          Inr (if timer \<in> set ?q then m(timer := None) else m, r)" "distinct r"
        "set r = set ?q \<union> set ?new - {timer}"
        "is_heap (cmp (if timer \<in> set ?q then m(timer := None) else m)) r"
      using Suc.hyps(1) [OF q(3), of ?new m] Suc.prems q t False hq timerq.push_heap
      by (fastforce simp: disjoint_iff)
    moreover have "timer \<in> set ?q \<longleftrightarrow> timer \<in> set que" using q False by auto
    moreover have "set ?q \<union> set ?new - {timer} = set que \<union> set new - {timer}" using q t by auto
    ultimately show ?thesis using ne False by (subst remove_loop.simps) (simp add: Let_def)
  qed
qed

lemma RemoveTimer_spec:
  assumes "tm_inv s"
  shows "\<exists>q. RemoveTimer p s = Inr (s\<lparr>timers_que := q, mem := (mem s)(p := None)\<rparr>) \<and>
    set q = set (timers_que s) - {p} \<and> tm_inv (s\<lparr>timers_que := q, mem := (mem s)(p := None)\<rparr>)"
proof -
  note d = tm_invD [OF assms]
  have m: "(if p \<in> set (timers_que s) then (mem s)(p := None) else mem s) = (mem s)(p := None)"
    using d(3) by auto
  obtain q where "remove_loop p (mem s) (timers_que s) [] = Inr ((mem s)(p := None), q)"
      "distinct q" "set q = set (timers_que s) - {p}" "is_heap (cmp ((mem s)(p := None))) q"
    using remove_loop_spec [of "timers_que s" "[]" "mem s" p] d m by auto
  moreover from this have "tm_inv (s\<lparr>timers_que := q, mem := (mem s)(p := None)\<rparr>)"
    using assms d(3) by (auto simp: tm_inv_def ran_def)
  ultimately show ?thesis by (auto simp: RemoveTimer_def)
qed

section \<open>CheckAndHandle\<close>

text \<open>
  What the callbacks may do for the loop to work (\<open>adding\<close>): each changes the rest of the world by \<open>exec\<close>,
  and may add timers that expire after \<open>now\<close>; it leaves the timers there are as they are, at the top of
  the queue the one that fired. A callback that removes a timer is not of this kind: see
  \<open>self_removing_callback_faults\<close>. \<open>world_run\<close> are the callbacks that do not call the timer manager.
  \<open>due\<close> are the timers that have expired at \<open>now\<close>; \<open>rearm\<close> is what becomes of one
  when it has fired.
\<close>

definition adding ::
  "u64 \<Rightarrow> ('cb \<Rightarrow> 'w \<Rightarrow> 'w) \<Rightarrow> ('cb \<Rightarrow> ('cb, 'w) timer_manager \<Rightarrow> ('cb, 'w) timer_manager) \<Rightarrow> bool" where
  "adding now exec run \<longleftrightarrow> (\<forall>cb s. tm_inv s \<longrightarrow>
     tm_inv (run cb s) \<and> world (run cb s) = exec cb (world s) \<and>
     (\<forall>p \<in> dom (mem s). mem (run cb s) p = mem s p) \<and>
     (\<forall>p t. p \<notin> dom (mem s) \<longrightarrow> mem (run cb s) p = Some t \<longrightarrow> now < expired_time t \<and> next_ptr s \<le> p) \<and>
     next_ptr s \<le> next_ptr (run cb s) \<and>
     (\<forall>p ps t. timers_que s = p # ps \<longrightarrow> mem s p = Some t \<longrightarrow> expired_time t \<le> now \<longrightarrow>
        (\<exists>ps'. timers_que (run cb s) = p # ps')))"

definition world_run ::
  "('cb \<Rightarrow> 'w \<Rightarrow> 'w) \<Rightarrow> 'cb \<Rightarrow> ('cb, 'w) timer_manager \<Rightarrow> ('cb, 'w) timer_manager" where
  "world_run exec cb s = s\<lparr>world := exec cb (world s)\<rparr>"

definition due :: "u64 \<Rightarrow> ('cb, 'w) timer_manager \<Rightarrow> ptr set" where
  "due now s = {p. \<exists>t. mem s p = Some t \<and> expired_time t \<le> now}"

definition rearm :: "u64 \<Rightarrow> 'cb timer \<Rightarrow> 'cb timer option" where
  "rearm now t = (if repeated_times t = 0 then None
                  else Some (DecRepeatTimes (SetExpiredTime (now + interval t) t)))"

definition after_check :: "u64 \<Rightarrow> (ptr \<rightharpoonup> 'cb timer) \<Rightarrow> ptr \<rightharpoonup> 'cb timer" where
  "after_check now m p =
     (case m p of None \<Rightarrow> None
      | Some t \<Rightarrow> if expired_time t \<le> now then rearm now t else Some t)"

lemma top_earliest:
  assumes "tm_inv s" "mem s p = Some t"
  shows "\<exists>q qs u. timers_que s = q # qs \<and> mem s q = Some u \<and> expired_time u \<le> expired_time t \<and>
    \<not> cmp (mem s) q p"
proof -
  note d = tm_invD [OF assms(1)]
  have p: "p \<in> set (timers_que s)" using d(3) assms(2) by auto
  then obtain q qs where q: "timers_que s = q # qs" by (cases "timers_que s") auto
  then obtain u where u: "mem s q = Some u" using d(3) by (metis domD list.set_intros(1))
  have "\<not> cmp (mem s) q p" using timerq.hd_is_top [OF d(1) p] q by simp
  moreover from this have "expired_time u \<le> expired_time t"
    using u assms(2) by (auto simp: cmp_def cmp_key_def timer_key_def split: if_splits)
  ultimately show ?thesis using q u by auto
qed

lemma rearm_later:
  assumes "unat now < 2 ^ 63" "0 < sint (interval t)" "rearm now t = Some u"
  shows "now < expired_time u"
proof -
  have u: "expired_time u = now + interval t"
    using assms(3) by (auto simp: rearm_def DecRepeatTimes_def SetExpiredTime_def split: if_splits)
  have "unat (interval t) < 2 ^ 63" "0 < unat (interval t)"
    using sint_pos_unat [of "interval t"] assms(2) by linarith+
  then show ?thesis using u assms(1) by (simp add: word_less_nat_alt unat_add_no_overflow)
qed

lemma check_turn_idle:
  assumes "tm_inv s" "due now s = {}"
  shows "check_turn run now s = Stop (Inr s)"
proof (cases "timers_que s")
  case Nil
  then show ?thesis by (simp add: check_turn_def)
next
  case (Cons p ps)
  then obtain t where "mem s p = Some t" using tm_invD(3) [OF assms(1)] by (metis domD list.set_intros(1))
  moreover from this have "\<not> expired_time t \<le> now" using assms(2) by (auto simp: due_def)
  ultimately show ?thesis using Cons by (simp add: check_turn_def)
qed

lemma addingD:
  assumes "adding now exec run" "tm_inv s"
  shows "tm_inv (run cb s)" "world (run cb s) = exec cb (world s)"
    "\<And>p t. mem s p = Some t \<Longrightarrow> mem (run cb s) p = Some t"
    "\<And>p t. mem s p = None \<Longrightarrow> mem (run cb s) p = Some t \<Longrightarrow> now < expired_time t \<and> next_ptr s \<le> p"
    "next_ptr s \<le> next_ptr (run cb s)"
    "\<And>p ps t. timers_que s = p # ps \<Longrightarrow> mem s p = Some t \<Longrightarrow> expired_time t \<le> now \<Longrightarrow> \<exists>ps'. timers_que (run cb s) = p # ps'"
  using assms unfolding adding_def by (blast, blast, metis domI, metis domIff, blast, blast)

lemma adding_world_run: "adding now exec (world_run exec)"
  by (auto simp: adding_def world_run_def tm_inv_def)

text \<open>A callback that has done what it may can add one more timer, at a clock that has not gone back.\<close>

lemma adding_AddTimer:
  assumes "adding now exec run" "\<And>cb. now \<le> clk cb" "\<And>cb. unat (clk cb) < 2 ^ 63"
  shows "adding now exec (\<lambda>cb s. snd (AddTimer (clk cb) (rep cb) (iv cb) (new cb) (run cb s)))"
  unfolding adding_def
proof (intro allI impI)
  fix cb and s :: "('a, 'b) timer_manager" assume inv: "tm_inv s"
  note d = addingD [OF assms(1) inv, where cb = cb]
  let ?u = "run cb s"
  let ?v = "snd (AddTimer (clk cb) (rep cb) (iv cb) (new cb) ?u)"
  let ?n = "Timer_ctor (clk cb + iv cb) (rep cb) (iv cb) (new cb) (initial_id ?u + 1)"
  have fresh: "mem ?u (next_ptr ?u) = None" using tm_invD(4) [OF d(1), of "next_ptr ?u"] by blast
  show "tm_inv ?v \<and> world ?v = exec cb (world s) \<and> (\<forall>p \<in> dom (mem s). mem ?v p = mem s p) \<and>
    (\<forall>p t. p \<notin> dom (mem s) \<longrightarrow> mem ?v p = Some t \<longrightarrow> now < expired_time t \<and> next_ptr s \<le> p) \<and> next_ptr s \<le> next_ptr ?v \<and>
    (\<forall>p ps t. timers_que s = p # ps \<longrightarrow> mem s p = Some t \<longrightarrow> expired_time t \<le> now \<longrightarrow> (\<exists>ps'. timers_que ?v = p # ps'))"
  proof (cases "sint (iv cb) \<le> 0")
    case True
    then have "?v = ?u" by (simp add: AddTimer_def)
    then show ?thesis using d by (auto simp: domIff)
  next
    case False
    have later: "now < expired_time ?n"
    proof -
      have "unat (iv cb) < 2 ^ 63" "0 < unat (iv cb)" using sint_pos_unat [of "iv cb"] False by linarith+
      then show ?thesis using assms(2,3) [of cb] by (simp add: Timer_ctor_def word_less_nat_alt word_le_nat_alt unat_add_no_overflow)
    qed
    have v: "world ?v = world ?u" "mem ?v = (mem ?u)(next_ptr ?u \<mapsto> ?n)" "next_ptr ?v = next_ptr ?u + 1"
      "timers_que ?v = pq_push (cmp (mem ?v)) (next_ptr ?u) (timers_que ?u)"
      using False by (simp_all add: AddTimer_def GenerateId_def Let_def)
    have top: "\<exists>ps'. timers_que ?v = p # ps'" if p: "timers_que s = p # ps" "mem s p = Some t" "expired_time t \<le> now" for p ps t
    proof -
      obtain qs where "timers_que ?u = p # qs" using d(6) [OF p] by blast
      moreover have "\<not> cmp (mem ?v) p (next_ptr ?u)" using d(3) [OF p(2)] fresh later p(3) v(2)
        by (auto simp: cmp_def cmp_key_def timer_key_def)
      ultimately show ?thesis unfolding v(4) using pq_push_root by metis
    qed
    have old: "mem ?v p = mem s p" if "p \<in> dom (mem s)" for p using that d(3) fresh v(2) by auto
    have new: "now < expired_time t \<and> next_ptr s \<le> p" if "p \<notin> dom (mem s)" "mem ?v p = Some t" for p t
      using that v(2) later d(4,5) by (auto simp: domIff split: if_splits)
    show ?thesis using AddTimer_inv [OF d(1)] v(1,3) d(2,5) top old new by auto
  qed
qed

text \<open>What the rest of a turn makes of the state the callback left.\<close>

lemma turn_after_callback:
  assumes inv: "tm_inv u" and q: "timers_que u = p # ps" and t: "mem u p = Some t"
    and turn: "\<And>s1. (repeated_times t = 0 \<Longrightarrow> s1 = u\<lparr>timers_que := pq_pop (cmp (mem u)) (timers_que u), mem := (mem u)(p := None)\<rparr>) \<Longrightarrow>
      (repeated_times t \<noteq> 0 \<Longrightarrow> let t2 = DecRepeatTimes (SetExpiredTime (now + interval t) t); m = (mem u)(p \<mapsto> t2) in
         s1 = u\<lparr>timers_que := pq_push (cmp m) p (pq_pop (cmp m) (timers_que u)), mem := m\<rparr>) \<Longrightarrow> r = Again s1"
  shows "\<exists>s1. r = Again s1 \<and> tm_inv s1 \<and> mem s1 = (mem u)(p := rearm now t) \<and> world s1 = world u \<and>
    next_ptr s1 = next_ptr u \<and> initial_id s1 = initial_id u"
proof -
  note d = tm_invD [OF inv]
  let ?m = "(mem u)(p := rearm now t)"
  let ?q = "pq_pop (cmp ?m) (timers_que u)"
  have ps: "p \<notin> set ps" "insert p (set ps) = dom (mem u)" using d(2,3) q by auto
  have ivl: "0 < sint (interval v)" if "?m r = Some v" for r v
    using that d(5) t by (auto simp: rearm_def DecRepeatTimes_def SetExpiredTime_def split: if_splits)
  have bnd: "r < next_ptr u" if "r \<in> dom ?m" for r
  proof -
    have "r \<in> dom (mem u)" using that t by (auto split: if_splits)
    then show ?thesis by (rule d(4))
  qed
  show ?thesis
  proof (cases "repeated_times t = 0")
    case True
    let ?q0 = "pq_pop (cmp (mem u)) (timers_que u)"
    let ?s1 = "u\<lparr>timers_que := ?q0, mem := ?m\<rparr>"
    have q0: "set ?q0 = set ps" "distinct ?q0"
      using set_pq_pop_distinct [OF _ d(2), of "cmp (mem u)"] q d(2) by auto
    have "is_heap (cmp ?m) ?q0"
      using q0 ps by (intro is_heap_congI [OF timerq.pop_heap [OF is_heap_below_root [OF d(1)]]]) auto
    moreover have "dom ?m = set ps" using True ps by (auto simp: rearm_def)
    ultimately have "tm_inv ?s1" using q0 ivl bnd by (intro tm_invI) simp_all
    moreover have "r = Again ?s1" using True by (intro turn) (simp_all add: rearm_def)
    ultimately show ?thesis by auto
  next
    case False
    let ?q1 = "pq_push (cmp ?m) p ?q"
    let ?s1 = "u\<lparr>timers_que := ?q1, mem := ?m\<rparr>"
    have "is_heap (cmp ?m) ?q" using d(1,2) q by (intro pop_rekeyed) auto
    then have heap: "is_heap (cmp ?m) ?q1" by (rule timerq.push_heap)
    have q1: "set ?q = set ps" "distinct ?q"
      using set_pq_pop_distinct [OF _ d(2), of "cmp ?m"] q d(2) by auto
    have "dom ?m = insert p (set ps)" using False ps by (auto simp: rearm_def)
    then have "tm_inv ?s1" using heap q1 ps ivl bnd by (intro tm_invI) simp_all
    moreover have "r = Again ?s1" using False by (intro turn) (simp_all add: rearm_def Let_def)
    ultimately show ?thesis by auto
  qed
qed

lemma check_turn_fires:
  assumes "tm_inv s" "due now s \<noteq> {}" "adding now exec run"
  shows "\<exists>p t s1. p \<in> due now s \<and> mem s p = Some t \<and> (\<forall>q \<in> due now s. \<not> cmp (mem s) p q) \<and>
    check_turn run now s = Again s1 \<and> tm_inv s1 \<and>
    mem s1 = (mem (run (callback t) s))(p := rearm now t) \<and> world s1 = exec (callback t) (world s) \<and>
    next_ptr s1 = next_ptr (run (callback t) s) \<and> initial_id s1 = initial_id (run (callback t) s)"
proof -
  from assms(2) obtain p0 t0 where "mem s p0 = Some t0" "expired_time t0 \<le> now" by (auto simp: due_def)
  with top_earliest [OF assms(1)] obtain p ps t where q: "timers_que s = p # ps"
    and t: "mem s p = Some t" and le: "expired_time t \<le> now" by (meson order_trans)
  have min: "\<forall>r \<in> due now s. \<not> cmp (mem s) p r"
    using top_earliest [OF assms(1)] q by (fastforce simp: due_def)
  have p: "p \<in> due now s" using t le by (auto simp: due_def)
  let ?u = "run (callback t) s"
  note d = addingD [OF assms(3,1), where cb = "callback t"]
  obtain qs where u: "timers_que ?u = p # qs" using d(6) [OF q t le] by blast
  have "\<exists>s1. check_turn run now s = Again s1 \<and> tm_inv s1 \<and> mem s1 = (mem ?u)(p := rearm now t) \<and> world s1 = world ?u \<and>
    next_ptr s1 = next_ptr ?u \<and> initial_id s1 = initial_id ?u"
    by (rule turn_after_callback [OF d(1) u d(3) [OF t]]) (use q t le u d(3) [OF t] in \<open>simp add: check_turn_def Let_def\<close>)
  then show ?thesis using p t min d(2) by metis
qed

text \<open>After a turn the timer that fired is not due any more, and no timer has become due.\<close>

lemma due_after_turn:
  assumes "tm_inv s" "mem s p = Some t" "unat now < 2 ^ 63" "adding now exec run"
    "mem s1 = (mem (run cb s))(p := rearm now t)"
  shows "due now s1 = due now s - {p}"
proof -
  note d = addingD [OF assms(4,1), where cb = cb]
  have "q \<in> due now s1 \<longleftrightarrow> q \<in> due now s \<and> q \<noteq> p" for q
  proof (cases "q = p")
    case True
    then show ?thesis using rearm_later [OF assms(3) tm_invD(5) [OF assms(1,2)]] assms(5) by (auto simp: due_def not_le [symmetric])
  next
    case False
    then show ?thesis using assms(5) d(3,4) [of q] by (cases "mem s q") (auto simp: due_def not_le [symmetric])
  qed
  then show ?thesis by blast
qed

lemma after_check_fresh:
  "now < expired_time t \<Longrightarrow> m q = Some t \<Longrightarrow> after_check now m q = Some t"
  by (simp add: after_check_def not_le [symmetric])

text \<open>
  The whole loop: it ends, and it fires every due timer once, earliest first. \<open>J\<close> is any property of the
  allocator that the callbacks keep.
\<close>

lemma check_loop_adding:
  assumes "tm_inv s" "unat now < 2 ^ 63" and run: "adding now exec run"
    "\<And>cb s. J (next_ptr s) (initial_id s) \<Longrightarrow> J (next_ptr (run cb s)) (initial_id (run cb s))" and "J (next_ptr s) (initial_id s)"
  shows "\<exists>s' ps. check_loop run now s = Some (Inr s') \<and> tm_inv s' \<and>
    distinct ps \<and> set ps = due now s \<and> sorted_wrt (\<lambda>p q. \<not> cmp (mem s) p q) ps \<and>
    world s' = fold (\<lambda>p. exec (callback (the (mem s p)))) ps (world s) \<and>
    (\<forall>q \<in> dom (mem s). mem s' q = after_check now (mem s) q) \<and>
    (\<forall>q t. q \<notin> dom (mem s) \<longrightarrow> mem s' q = Some t \<longrightarrow> now < expired_time t \<and> next_ptr s \<le> q) \<and>
    next_ptr s \<le> next_ptr s' \<and> J (next_ptr s') (initial_id s')"
  using assms(1,2,5)
proof (induction "card (due now s)" arbitrary: s)
  case 0
  have "finite (due now s)"
  proof (rule finite_subset)
    show "due now s \<subseteq> set (timers_que s)" using tm_invD(3) [OF "0.prems"(1)] by (auto simp: due_def)
  qed simp
  with 0 have none: "due now s = {}" by simp
  then have "after_check now (mem s) = mem s"
    by (force simp: after_check_def due_def fun_eq_iff split: option.split)
  then show ?case using 0 none
    by (intro exI [of _ s] exI [of _ "[]"]) (auto simp: check_loop.simps check_turn_idle)
next
  case (Suc n)
  then have "due now s \<noteq> {}" by force
  from check_turn_fires [OF Suc.prems(1) this run(1)]
  obtain p t s1 where p: "p \<in> due now s" "mem s p = Some t" "\<forall>q \<in> due now s. \<not> cmp (mem s) p q"
    and turn: "check_turn run now s = Again s1" "tm_inv s1"
    and s1: "mem s1 = (mem (run (callback t) s))(p := rearm now t)" "world s1 = exec (callback t) (world s)"
      "next_ptr s1 = next_ptr (run (callback t) s)" "initial_id s1 = initial_id (run (callback t) s)" by blast
  note d = addingD [OF run(1) Suc.prems(1), where cb = "callback t"]
  have due1: "due now s1 = due now s - {p}" by (rule due_after_turn [OF Suc.prems(1) p(2) Suc.prems(2) run(1) s1(1)])
  then have "n = card (due now s1)" using Suc.hyps(2) p(1) by simp
  moreover have "J (next_ptr s1) (initial_id s1)" unfolding s1(3,4) by (rule run(2) [OF Suc.prems(3)])
  ultimately obtain s' ps where
    r: "check_loop run now s1 = Some (Inr s')" "tm_inv s'" "distinct ps"
      "set ps = due now s1" "sorted_wrt (\<lambda>p q. \<not> cmp (mem s1) p q) ps"
      "world s' = fold (\<lambda>p. exec (callback (the (mem s1 p)))) ps (world s1)"
    and old: "\<forall>q \<in> dom (mem s1). mem s' q = after_check now (mem s1) q"
    and new: "\<forall>q t. q \<notin> dom (mem s1) \<longrightarrow> mem s' q = Some t \<longrightarrow> now < expired_time t \<and> next_ptr s1 \<le> q"
    and J: "next_ptr s1 \<le> next_ptr s'" "J (next_ptr s') (initial_id s')"
    using Suc.hyps(1) [OF _ turn(2) Suc.prems(2)] by blast
  have np: "next_ptr s \<le> next_ptr s1" using d(5) s1(3) by simp
  have keep: "mem s1 q = mem s q" if "q \<in> dom (mem s)" "q \<noteq> p" for q using that s1(1) d(3) by auto
  have same: "mem s1 q = mem s q" if "q \<in> set ps" for q using that r(4) due1 by (intro keep) (auto simp: due_def)
  have "sorted_wrt (\<lambda>p q. \<not> cmp (mem s) p q) (p # ps)"
    using p(3) r(4,5) due1 same cmp_cong [of "mem s1" _ "mem s"] by (auto elim!: sorted_wrt_mono_rel [rotated])
  moreover have "world s' = fold (\<lambda>p. exec (callback (the (mem s p)))) (p # ps) (world s)"
    using r(6) s1(2) p(2) same by (simp cong: fold_cong)
  moreover have "distinct (p # ps)" "set (p # ps) = due now s" using r(3,4) due1 p(1) by auto
  moreover have "check_loop run now s = Some (Inr s')"
    using turn(1) r(1) by (subst check_loop.simps) simp
  moreover have "mem s' q = after_check now (mem s) q" if q: "q \<in> dom (mem s)" for q
  proof (cases "q = p")
    case True
    have a: "after_check now (mem s) p = rearm now t" using p(1,2) by (auto simp: after_check_def due_def)
    have lt: "p < next_ptr s1" using tm_invD(4) [OF Suc.prems(1) domI [where m = "mem s", OF p(2)]] np by linarith
    show ?thesis
    proof (cases "rearm now t")
      case None
      then have "p \<notin> dom (mem s1)" by (simp add: s1(1) domIff)
      then have "mem s' p = None" using new lt by (cases "mem s' p") (auto simp: not_le [symmetric])
      then show ?thesis using True a None by simp
    next
      case (Some v)
      have m: "mem s1 p = Some v" using Some by (simp add: s1(1))
      have "now < expired_time v" using rearm_later [OF Suc.prems(2) tm_invD(5) [OF Suc.prems(1) p(2)] Some] .
      from after_check_fresh [where m = "mem s1", OF this m] show ?thesis using bspec [OF old domI [where m = "mem s1", OF m]] True a Some by simp
    qed
  next
    case False
    then have m: "mem s1 q = mem s q" using keep q by simp
    then have "mem s' q = after_check now (mem s1) q" using old q by auto
    then show ?thesis using m by (simp add: after_check_def)
  qed
  moreover have "now < expired_time v \<and> next_ptr s \<le> q" if q: "q \<notin> dom (mem s)" "mem s' q = Some v" for q v
  proof (cases "mem s1 q")
    case None
    then show ?thesis using new q(2) np by (metis domIff order_trans)
  next
    case (Some w)
    have "mem (run (callback t) s) q = Some w" using Some q(1) p(2) s1(1) by (auto split: if_splits)
    then have w: "now < expired_time w" "next_ptr s \<le> q" using d(4) q(1) by (auto simp: domIff)
    have "mem s' q = Some w" using bspec [OF old domI [where m = "mem s1", OF Some]] after_check_fresh [where m = "mem s1", OF w(1) Some] by simp
    then show ?thesis using q(2) w by simp
  qed
  ultimately show ?case using r(2) np J by (intro exI [of _ s'] exI [of _ "p # ps"]) auto
qed

text \<open>Callbacks that do not call the timer manager add no timers.\<close>

lemma check_loop_spec:
  assumes "tm_inv s" "unat now < 2 ^ 63"
  shows "\<exists>s' ps. check_loop (world_run exec) now s = Some (Inr s') \<and> tm_inv s' \<and>
    distinct ps \<and> set ps = due now s \<and> sorted_wrt (\<lambda>p q. \<not> cmp (mem s) p q) ps \<and>
    world s' = fold (\<lambda>p. exec (callback (the (mem s p)))) ps (world s) \<and>
    mem s' = after_check now (mem s) \<and> next_ptr s' = next_ptr s \<and> initial_id s' = initial_id s"
proof -
  obtain s' ps where r: "check_loop (world_run exec) now s = Some (Inr s')" "tm_inv s'"
    "distinct ps" "set ps = due now s" "sorted_wrt (\<lambda>p q. \<not> cmp (mem s) p q) ps"
    "world s' = fold (\<lambda>p. exec (callback (the (mem s p)))) ps (world s)"
    and old: "\<forall>q \<in> dom (mem s). mem s' q = after_check now (mem s) q"
    and new: "\<forall>q t. q \<notin> dom (mem s) \<longrightarrow> mem s' q = Some t \<longrightarrow> now < expired_time t \<and> next_ptr s \<le> q"
    and np: "next_ptr s' = next_ptr s \<and> initial_id s' = initial_id s"
    using check_loop_adding [OF assms adding_world_run, of "\<lambda>n i. n = next_ptr s \<and> i = initial_id s" exec]
    by (auto simp: world_run_def)
  have "mem s' q = after_check now (mem s) q" for q
  proof (cases "mem s q")
    case None
    then have "mem s' q = None" using new tm_invD(4) [OF r(2), of q] np by (cases "mem s' q") (fastforce simp: domIff not_le [symmetric])+
    then show ?thesis using None by (simp add: after_check_def)
  qed (use old in blast)
  then show ?thesis using r np by (intro exI [of _ s'] exI [of _ ps]) (simp add: fun_eq_iff)
qed

section \<open>A timer over its life\<close>

text \<open>
  \<open>check_run\<close> calls \<open>CheckAndHandle\<close> at a list of times; \<open>log_exec\<close> records the
  callbacks that ran. \<open>spaced\<close>: every check comes at or after the timer's expiry.
\<close>

fun check_run ::
  "('cb \<Rightarrow> 'w \<Rightarrow> 'w) \<Rightarrow> u64 list \<Rightarrow> ('cb, 'w) timer_manager \<Rightarrow> ('cb, 'w) timer_manager res option" where
  "check_run exec [] s = Some (Inr s)"
| "check_run exec (now # nows) s =
     (case check_loop (world_run exec) now s of
        Some (Inr s') \<Rightarrow> check_run exec nows s' | r \<Rightarrow> r)"

definition log_exec :: "'cb \<Rightarrow> 'cb list \<Rightarrow> 'cb list" where
  "log_exec cb w = w @ [cb]"

fun spaced :: "u64 \<Rightarrow> u64 \<Rightarrow> u64 list \<Rightarrow> bool" where
  "spaced e iv [] \<longleftrightarrow> True"
| "spaced e iv (now # nows) \<longleftrightarrow> e \<le> now \<and> unat now < 2 ^ 63 \<and> spaced (now + iv) iv nows"

lemma fold_log: "fold (\<lambda>p. log_exec (f p)) ps w = w @ map f ps"
  by (induction ps arbitrary: w) (auto simp: log_exec_def)

lemma count_list_map_once:
  "distinct ps \<Longrightarrow> p \<in> set ps \<Longrightarrow> (\<And>q. q \<in> set ps \<Longrightarrow> q \<noteq> p \<Longrightarrow> f q \<noteq> f p) \<Longrightarrow>
   count_list (map f ps) (f p) = 1"
proof (induction ps)
  case (Cons q qs)
  show ?case
  proof (cases "q = p")
    case True
    then have "f p \<noteq> f x" if "x \<in> set qs" for x using Cons.prems(1,3) that by (metis distinct.simps(2) list.set_intros(2))
    then have "f p \<notin> set (map f qs)" by auto
    then show ?thesis using True by (simp add: count_notin)
  next
    case False
    then show ?thesis using Cons by auto
  qed
qed simp

lemma after_check_callback:
  "after_check now m p = Some u \<Longrightarrow> \<exists>t. m p = Some t \<and> callback u = callback t \<and> interval u = interval t"
  by (auto simp: after_check_def rearm_def DecRepeatTimes_def SetExpiredTime_def split: option.splits if_splits)

lemma check_logged:
  assumes "tm_inv s" "mem s p = Some t" "expired_time t \<le> now" "unat now < 2 ^ 63"
    and uniq: "\<forall>q u. mem s q = Some u \<and> q \<noteq> p \<longrightarrow> callback u \<noteq> callback t"
  shows "\<exists>s'. check_loop (world_run log_exec) now s = Some (Inr s') \<and> tm_inv s' \<and>
    mem s' = after_check now (mem s) \<and> mem s' p = rearm now t \<and>
    count_list (world s') (callback t) = Suc (count_list (world s) (callback t))"
proof -
  from check_loop_spec [OF assms(1,4), of log_exec] obtain s' ps where
    r: "check_loop (world_run log_exec) now s = Some (Inr s')" "tm_inv s'" "distinct ps" "set ps = due now s"
      "world s' = fold (\<lambda>p. log_exec (callback (the (mem s p)))) ps (world s)"
      "mem s' = after_check now (mem s)" by blast
  have p: "p \<in> set ps" using r(4) assms(2,3) by (auto simp: due_def)
  have "callback (the (mem s q)) \<noteq> callback (the (mem s p))" if "q \<in> set ps" "q \<noteq> p" for q
    using that r(4) uniq assms(2) by (auto simp: due_def)
  from count_list_map_once [OF r(3) p, of "\<lambda>q. callback (the (mem s q))", OF this]
  have "count_list (world s') (callback t) = Suc (count_list (world s) (callback t))"
    using r(5) assms(2) by (simp add: fold_log)
  moreover have "after_check now (mem s) p = rearm now t" using assms(2,3) by (simp add: after_check_def)
  ultimately show ?thesis using r by auto
qed

lemma timer_life:
  assumes "tm_inv s" "mem s p = Some t" "length nows = unat (repeated_times t) + 1"
    "spaced (expired_time t) (interval t) nows"
    "\<forall>q u. mem s q = Some u \<and> q \<noteq> p \<longrightarrow> callback u \<noteq> callback t"
  shows "\<exists>s'. check_run log_exec nows s = Some (Inr s') \<and> mem s' p = None \<and>
    count_list (world s') (callback t)
      = count_list (world s) (callback t) + unat (repeated_times t) + 1"
  using assms
proof (induction nows arbitrary: s t)
  case Nil
  then show ?case by simp
next
  case (Cons now nows)
  have "expired_time t \<le> now" "unat now < 2 ^ 63" using Cons.prems(4) by simp_all
  from check_logged [OF Cons.prems(1,2) this Cons.prems(5)] obtain s1 where
    s1: "check_loop (world_run log_exec) now s = Some (Inr s1)" "tm_inv s1"
      "mem s1 = after_check now (mem s)" "mem s1 p = rearm now t"
      "count_list (world s1) (callback t) = Suc (count_list (world s) (callback t))" by auto
  show ?case
  proof (cases "repeated_times t = 0")
    case True
    then have "nows = []" "mem s1 p = None" using Cons.prems(3) s1(4) by (auto simp: rearm_def)
    then show ?thesis using s1 True by simp
  next
    case False
    let ?t = "DecRepeatTimes (SetExpiredTime (now + interval t) t)"
    have p1: "mem s1 p = Some ?t" using s1(4) False by (simp add: rearm_def)
    have dec: "unat (repeated_times ?t) = unat (repeated_times t) - 1" "0 < unat (repeated_times t)"
      using False by (auto simp: DecRepeatTimes_def SetExpiredTime_def unat_minus_one unat_gt_0)
    have "length nows = unat (repeated_times ?t) + 1" using Cons.prems(3) dec by simp
    moreover have "spaced (expired_time ?t) (interval ?t) nows"
      using Cons.prems(4) by (simp add: DecRepeatTimes_def SetExpiredTime_def)
    moreover have "callback ?t = callback t" by (simp add: DecRepeatTimes_def SetExpiredTime_def)
    moreover have "\<forall>q u. mem s1 q = Some u \<and> q \<noteq> p \<longrightarrow> callback u \<noteq> callback ?t"
      using after_check_callback [of now "mem s"] s1(3) Cons.prems(5) calculation by fastforce
    ultimately show ?thesis using Cons.IH [OF s1(2) p1] s1 dec by fastforce
  qed
qed

section \<open>Properties\<close>

text \<open>
  A manager with a one-shot timer (pointer 0, due at 150) and a timer with two repeats
  (pointer 1, due at 130), both added at time 100, for the witnesses.
\<close>

definition two_timers :: "(nat, nat list) timer_manager" where
  "two_timers = snd (AddTimer 100 2 30 8 (snd (AddTimer 100 0 50 7 (empty_manager []))))"

lemma two_timers_inv: "tm_inv two_timers"
  by (simp add: two_timers_def AddTimer_inv empty_manager_inv)

lemma two_timers_eq:
  "mem two_timers = [0 \<mapsto> Timer_ctor 150 0 50 7 1, 1 \<mapsto> Timer_ctor 130 2 30 8 2]"
  "timers_que two_timers = [1, 0]" "next_ptr two_timers = 2" "initial_id two_timers = 2"
  "world two_timers = []"
  by (simp_all add: two_timers_def AddTimer_def GenerateId_def empty_manager_def pq_push_def
      sift_up.simps cmp_def cmp_key_def timer_key_def Timer_ctor_def swap_def parent_def)

text \<open>
  C12. \<open>CheckAndHandle\<close> is total and correct for callbacks that at most add timers: whenever the
  millisecond clock is below \<open>2^63\<close>, no callback removes or changes a timer, and the timers callbacks
  add expire after the time of the check, the loop ends without a fault; it runs the callback of
  every timer that is due exactly once, in order of expiry (fewer repeats first among equals), and of
  no other timer; one-shot timers are deleted, repeating ones re-armed at \<open>now + interval\<close> with one
  repeat less, all others untouched, and new ones wait; the heap invariant holds again, although
  the code re-keys a timer while it is in the queue.
\<close>

theorem CheckAndHandle_spec:
  assumes "tm_inv s" "unat (GetCurrentMillisecs ts) < 2 ^ 63" "adding (GetCurrentMillisecs ts) exec run"
  shows "\<exists>s' ps. CheckAndHandle run ts s = Some (Inr s') \<and> tm_inv s' \<and>
    distinct ps \<and> set ps = due (GetCurrentMillisecs ts) s \<and>
    sorted_wrt (\<lambda>p q. \<not> cmp (mem s) p q) ps \<and>
    world s' = fold (\<lambda>p. exec (callback (the (mem s p)))) ps (world s) \<and>
    (\<forall>q \<in> dom (mem s). mem s' q = after_check (GetCurrentMillisecs ts) (mem s) q) \<and>
    (\<forall>q t. q \<notin> dom (mem s) \<longrightarrow> mem s' q = Some t \<longrightarrow> GetCurrentMillisecs ts < expired_time t)"
  using check_loop_adding [OF assms, of "\<lambda>_ _. True"] unfolding CheckAndHandle_def by blast

text \<open>For the witness: every callback adds a one-shot timer of 25 milliseconds, with callback 9.\<close>

theorem CheckAndHandle_spec_witness:
  "\<exists>s' ps. CheckAndHandle (\<lambda>cb s. snd (AddTimer 140 0 25 9 (world_run log_exec cb s))) (0, 140000000) two_timers = Some (Inr s') \<and>
    tm_inv s' \<and> distinct ps \<and> set ps = due 140 two_timers \<and> (\<forall>q \<in> dom (mem two_timers). mem s' q = after_check 140 (mem two_timers) q)"
proof -
  have now: "GetCurrentMillisecs (0, 140000000) = 140"
    by (simp add: GetCurrentMillisecs_def signed_divide_int_def)
  have "adding 140 log_exec (\<lambda>cb s. snd (AddTimer 140 0 25 9 (world_run log_exec cb s)))"
    by (rule adding_AddTimer [OF adding_world_run]) simp_all
  then show ?thesis
    using CheckAndHandle_spec [OF two_timers_inv, of "(0, 140000000)" log_exec] now by fastforce
qed

text \<open>
  \<open>AddTimer\<close> on both branches: a non-positive interval is rejected with a null
  pointer and nothing changes; otherwise a fresh timer with a new id, due at
  \<open>now + interval\<close>, is added to the queue and the invariant is kept.
\<close>

theorem AddTimer_spec:
  assumes "tm_inv s"
  shows "tm_inv (snd (AddTimer now repeat intv cb s)) \<and>
    (if sint intv \<le> 0 then AddTimer now repeat intv cb s = (None, s)
     else \<exists>p s'. AddTimer now repeat intv cb s = (Some p, s') \<and> mem s p = None \<and>
       mem s' = (mem s)(p \<mapsto> Timer_ctor (now + intv) repeat intv cb (initial_id s + 1)) \<and>
       set (timers_que s') = insert p (set (timers_que s)) \<and> world s' = world s)"
proof -
  have "mem s (next_ptr s) = None" using tm_invD(4) [OF assms, of "next_ptr s"] by blast
  then show ?thesis using AddTimer_inv [OF assms] by (auto simp: AddTimer_def GenerateId_def Let_def)
qed

theorem AddTimer_spec_witness:
  "tm_inv (snd (AddTimer 200 0 5 9 two_timers)) \<and>
    (\<exists>p s'. AddTimer 200 0 5 9 two_timers = (Some p, s') \<and> mem two_timers p = None \<and>
       mem s' = (mem two_timers)(p \<mapsto> Timer_ctor (200 + 5) 0 5 9 (initial_id two_timers + 1)) \<and>
       set (timers_que s') = insert p (set (timers_que two_timers)) \<and> world s' = world two_timers)"
  using AddTimer_spec [OF two_timers_inv, of 200 0 5 9] by (simp split: if_splits)

text \<open>
  \<open>RemoveTimer\<close> deletes exactly the timer asked for (nothing, if it is not there),
  keeps every other one with its key, and rebuilds a valid queue; it never frees a timer
  twice.
\<close>

theorem RemoveTimer_exact:
  assumes "tm_inv s"
  shows "\<exists>s'. RemoveTimer p s = Inr s' \<and> tm_inv s' \<and> mem s' = (mem s)(p := None) \<and>
    set (timers_que s') = set (timers_que s) - {p} \<and> world s' = world s"
  using RemoveTimer_spec [OF assms, of p] by force

theorem RemoveTimer_exact_witness:
  "\<exists>s'. RemoveTimer 1 two_timers = Inr s' \<and> tm_inv s' \<and> mem s' = (mem two_timers)(1 := None) \<and>
    set (timers_que s') = {1, 0} - {1} \<and> world s' = []"
  using RemoveTimer_exact [OF two_timers_inv, of 1] by (simp add: two_timers_eq)

text \<open>
  C16. A timer with repeat count \<open>n\<close> that is checked at or after each of its expiries runs
  its callback exactly \<open>n + 1\<close> times and is then deleted.
\<close>

theorem timer_runs_n_plus_1_times:
  assumes "tm_inv s" "mem s p = Some t" "0 \<le> sint (repeated_times t)"
    "length nows = unat (repeated_times t) + 1" "spaced (expired_time t) (interval t) nows"
    "\<forall>q u. mem s q = Some u \<and> q \<noteq> p \<longrightarrow> callback u \<noteq> callback t"
  shows "\<exists>s'. check_run log_exec nows s = Some (Inr s') \<and> mem s' p = None \<and>
    count_list (world s') (callback t)
      = count_list (world s) (callback t) + unat (repeated_times t) + 1"
  using timer_life [OF assms(1,2,4-6)] .

theorem timer_runs_n_plus_1_times_witness:
  "\<exists>s'. check_run log_exec [140, 171, 205] two_timers = Some (Inr s') \<and> mem s' 1 = None \<and>
    count_list (world s') 8 = 3"
proof -
  have t: "mem two_timers 1 = Some (Timer_ctor 130 2 30 8 2)" by (simp add: two_timers_eq)
  have u: "\<forall>q u. mem two_timers q = Some u \<and> q \<noteq> 1 \<longrightarrow> callback u \<noteq> callback (Timer_ctor 130 2 30 8 2)"
    by (simp add: two_timers_eq Timer_ctor_def)
  show ?thesis
    using timer_runs_n_plus_1_times [OF two_timers_inv t, of "[140, 171, 205]"] u
    by (simp add: Timer_ctor_def two_timers_eq numeral_3_eq_3)
qed

text \<open>
  While no timer is overdue, \<open>GetRecentTimeout\<close> is the time to the earliest expiry:
  no timer expires sooner and one expires exactly then.
\<close>

theorem GetRecentTimeout_earliest:
  assumes "tm_inv s" "mem s p = Some t" "\<forall>q u. mem s q = Some u \<longrightarrow> now \<le> expired_time u"
  shows "\<exists>w. GetRecentTimeout now s = Inr w \<and>
    (\<forall>q u. mem s q = Some u \<longrightarrow> w \<le> expired_time u - now) \<and>
    (\<exists>q u. mem s q = Some u \<and> w = expired_time u - now)"
proof -
  from top_earliest [OF assms(1,2)] obtain q qs u where
    q: "timers_que s = q # qs" "mem s q = Some u" by blast
  have "expired_time u - now \<le> expired_time v - now" if "mem s r = Some v" for r v
  proof -
    have "expired_time u \<le> expired_time v" using top_earliest [OF assms(1) that] q by auto
    moreover have "now \<le> expired_time u" "now \<le> expired_time v" using assms(3) q(2) that by auto
    ultimately show ?thesis by (simp add: word_le_nat_alt unat_sub_no_borrow diff_le_mono)
  qed
  then show ?thesis using q by (auto simp: GetRecentTimeout_def Let_def)
qed

theorem GetRecentTimeout_earliest_witness:
  "\<exists>w. GetRecentTimeout 110 two_timers = Inr w \<and>
    (\<forall>q u. mem two_timers q = Some u \<longrightarrow> w \<le> expired_time u - 110) \<and>
    (\<exists>q u. mem two_timers q = Some u \<and> w = expired_time u - 110)"
proof -
  have t: "mem two_timers 1 = Some (Timer_ctor 130 2 30 8 2)" by (simp add: two_timers_eq)
  have "\<forall>q u. mem two_timers q = Some u \<longrightarrow> 110 \<le> expired_time u"
    by (simp add: two_timers_eq Timer_ctor_def)
  then show ?thesis by (rule GetRecentTimeout_earliest [OF two_timers_inv t])
qed

text \<open>
  Once the earliest timer is overdue, the result is not clamped to 0: the comparison
  \<open>timeout < 0\<close> is on an unsigned value and never true, so a timer that is \<open>d\<close> milliseconds
  late gives \<open>2^64 - d\<close> (and exactly 1 ms late gives the value that means "no timer").
\<close>

theorem GetRecentTimeout_overdue:
  assumes "timers_que s = p # ps" "mem s p = Some t" "expired_time t + d = now"
  shows "GetRecentTimeout now s = Inr (- d)"
  using assms by (auto simp: GetRecentTimeout_def Let_def)

theorem GetRecentTimeout_overdue_witness: "GetRecentTimeout 131 two_timers = Inr (- 1)"
proof -
  have "timers_que two_timers = 1 # [0]" "mem two_timers 1 = Some (Timer_ctor 130 2 30 8 2)"
    "expired_time (Timer_ctor 130 2 30 (8::nat) 2) + 1 = 131"
    by (simp_all add: two_timers_eq Timer_ctor_def)
  then show ?thesis by (rule GetRecentTimeout_overdue)
qed

definition removing_run :: "ptr \<Rightarrow> (ptr, 'w) timer_manager \<Rightarrow> (ptr, 'w) timer_manager" where
  "removing_run p s = (case RemoveTimer p s of Inr s' \<Rightarrow> s' | Inl f \<Rightarrow> s)"

text \<open>
  A callback that removes its own timer, through the \<open>Timer*\<close> that \<open>AddTimer\<close> returned,
  makes \<open>CheckAndHandle\<close> read the deleted timer right after \<open>Run\<close> returns.
\<close>

theorem self_removing_callback_faults:
  assumes "tm_inv s" "timers_que s = p # ps" "mem s p = Some t" "expired_time t \<le> now" "callback t = p"
  shows "check_loop removing_run now s = Some (Inl UseAfterFree)"
proof -
  obtain q where "RemoveTimer p s = Inr (s\<lparr>timers_que := q, mem := (mem s)(p := None)\<rparr>)"
    using RemoveTimer_spec [OF assms(1)] by blast
  then have "check_turn removing_run now s = Stop (Inl UseAfterFree)"
    using assms by (simp add: check_turn_def removing_run_def)
  then show ?thesis by (subst check_loop.simps) simp
qed

theorem self_removing_callback_faults_witness:
  "check_loop removing_run 20 (snd (AddTimer 0 0 10 0 (empty_manager ()))) = Some (Inl UseAfterFree)"
proof -
  have "tm_inv (snd (AddTimer 0 0 10 0 (empty_manager ())))" by (simp add: AddTimer_inv empty_manager_inv)
  then show ?thesis
    by (rule self_removing_callback_faults [where p = 0 and ps = "[]" and t = "Timer_ctor 10 0 10 0 1"])
      (simp_all add: AddTimer_def GenerateId_def empty_manager_def Timer_ctor_def pq_push_def sift_up.simps)
qed

section \<open>Timer ids under concurrency\<close>

text \<open>
  \<open>GenerateId\<close> as its threads run it: the increment is under the mutex, the read of
  \<open>initial_id_\<close> for the return value is outside. A schedule lists which thread moves.
\<close>

datatype gen_pc = GenStart | GenIncremented | GenReturned u64

fun gen_step :: "nat \<Rightarrow> u64 \<times> (nat \<Rightarrow> gen_pc) \<Rightarrow> u64 \<times> (nat \<Rightarrow> gen_pc)" where
  "gen_step i (c, pcs) =
     (case pcs i of
        GenStart \<Rightarrow> (c + 1, pcs(i := GenIncremented))
      | GenIncremented \<Rightarrow> (c, pcs(i := GenReturned c))
      | GenReturned v \<Rightarrow> (c, pcs))"

text \<open>
  Two threads that create timers can get the same id: if both increment before
  either reads, both return the second value.
\<close>

theorem GenerateId_duplicate:
  "snd (fold gen_step [0, 1, 0, 1] (c, \<lambda>_. GenStart)) 0 = GenReturned (c + 2) \<and>
   snd (fold gen_step [0, 1, 0, 1] (c, \<lambda>_. GenStart)) 1 = GenReturned (c + 2)"
  by simp

end
