(* ===== verification/Channel.thy ===== *)
theory Channel
  imports Net_Prelude
begin

text \<open>
  \<open>Channel\<close> (\<^verbatim>\<open>include/channel.h\<close>, \<^verbatim>\<open>src/channel.cc\<close>): the events a descriptor is
  interested in and the dispatch of the events the poller reports. Channels are objects
  the loop and the poller share by pointer, so they live in a store \<open>ptr \<rightharpoonup> channel\<close>
  that the pollers update. The event flags are those of Linux; the source asserts
  statically that poll and epoll use the same values.
\<close>

section \<open>Event masks\<close>

definition POLLIN :: cint where "POLLIN = 1"
definition POLLPRI :: cint where "POLLPRI = 2"
definition POLLOUT :: cint where "POLLOUT = 4"
definition POLLERR :: cint where "POLLERR = 8"
definition POLLHUP :: cint where "POLLHUP = 16"

definition kReadEvent :: cint where "kReadEvent = POLLIN OR POLLPRI"
definition kWriteEvent :: cint where "kWriteEvent = POLLOUT"
definition kNoneEvent :: cint where "kNoneEvent = 0"

lemmas event_flags = POLLIN_def POLLPRI_def POLLOUT_def POLLERR_def POLLHUP_def
  kReadEvent_def kWriteEvent_def kNoneEvent_def

section \<open>The class\<close>

text \<open>
  \<open>tie\<close> is the object the channel is tied to (\<open>tie_\<close> and \<open>tied_\<close>), and the four
  Booleans say which callbacks are set.
\<close>

record channel =
  ch_fd :: cint
  events :: cint
  revents :: cint
  index :: int
  tie :: "ptr option"
  has_read_cb :: bool
  has_write_cb :: bool
  has_close_cb :: bool
  has_error_cb :: bool

definition Channel_ctor :: "cint \<Rightarrow> channel" where
  "Channel_ctor fd =
     \<lparr>ch_fd = fd, events = 0, revents = 0, index = - 1, tie = None,
      has_read_cb = False, has_write_cb = False, has_close_cb = False, has_error_cb = False\<rparr>"

definition IsNoneEvent :: "channel \<Rightarrow> bool" where "IsNoneEvent c \<longleftrightarrow> events c = kNoneEvent"
definition IsWriting :: "channel \<Rightarrow> bool" where "IsWriting c \<longleftrightarrow> events c AND kWriteEvent \<noteq> 0"
definition IsReading :: "channel \<Rightarrow> bool" where "IsReading c \<longleftrightarrow> events c AND kReadEvent \<noteq> 0"

text \<open>
  The five setters: each changes \<open>events_\<close> and then calls \<open>Update()\<close>, which reaches
  \<open>Poller::UpdateChannel\<close> through the loop; \<open>update\<close> stands for that call.
\<close>

definition enable_read :: "channel \<Rightarrow> channel" where
  "enable_read c = c\<lparr>events := events c OR kReadEvent\<rparr>"
definition disable_read :: "channel \<Rightarrow> channel" where
  "disable_read c = c\<lparr>events := events c AND NOT kReadEvent\<rparr>"
definition enable_write :: "channel \<Rightarrow> channel" where
  "enable_write c = c\<lparr>events := events c OR kWriteEvent\<rparr>"
definition disable_write :: "channel \<Rightarrow> channel" where
  "disable_write c = c\<lparr>events := events c AND NOT kWriteEvent\<rparr>"
definition disable_all :: "channel \<Rightarrow> channel" where
  "disable_all c = c\<lparr>events := kNoneEvent\<rparr>"

lemmas channel_setters = enable_read_def disable_read_def enable_write_def disable_write_def disable_all_def

definition Set_Revents :: "cint \<Rightarrow> channel \<Rightarrow> channel" where
  "Set_Revents received_events c = c\<lparr>revents := received_events\<rparr>"
definition Set_Index :: "int \<Rightarrow> channel \<Rightarrow> channel" where
  "Set_Index idx c = c\<lparr>index := idx\<rparr>"
definition Tie :: "ptr \<Rightarrow> channel \<Rightarrow> channel" where
  "Tie obj c = c\<lparr>tie := Some obj\<rparr>"

section \<open>Dispatch\<close>

datatype handler = OnClose | OnError | OnRead | OnWrite

text \<open>The callbacks \<open>HandleEventWithGuard\<close> calls, in its order.\<close>

definition HandleEventWithGuard :: "channel \<Rightarrow> handler list" where
  "HandleEventWithGuard c =
     (if revents c AND POLLHUP \<noteq> 0 \<and> revents c AND POLLIN = 0 \<and> has_close_cb c then [OnClose] else []) @
     (if revents c AND POLLERR \<noteq> 0 \<and> has_error_cb c then [OnError] else []) @
     (if revents c AND (POLLIN OR POLLPRI) \<noteq> 0 \<and> has_read_cb c then [OnRead] else []) @
     (if revents c AND POLLOUT \<noteq> 0 \<and> has_write_cb c then [OnWrite] else [])"

text \<open>\<open>alive\<close> says whether an object still has owners (\<open>tie_.lock()\<close> succeeds).\<close>

definition HandleEvent :: "(ptr \<Rightarrow> bool) \<Rightarrow> channel \<Rightarrow> handler list" where
  "HandleEvent alive c =
     (case tie c of
        Some obj \<Rightarrow> if alive obj then HandleEventWithGuard c else []
      | None \<Rightarrow> HandleEventWithGuard c)"

section \<open>Masks stay well-formed\<close>

definition events_ok :: "channel \<Rightarrow> bool" where
  "events_ok c \<longleftrightarrow> events c \<in> {0, 3, 4, 7}"

lemma events_ok_ctor: "events_ok (Channel_ctor fd)"
  by (simp add: events_ok_def Channel_ctor_def)

lemma events_ok_setters:
  assumes "events_ok c"
  shows "events_ok (enable_read c)" "events_ok (disable_read c)" "events_ok (enable_write c)"
    "events_ok (disable_write c)" "events_ok (disable_all c)"
  using assms by (auto simp: events_ok_def channel_setters event_flags)

lemma IsWriting_setters [simp]:
  "IsWriting (enable_write c)" "\<not> IsWriting (disable_write c)" "\<not> IsWriting (disable_all c)"
proof -
  have "bit ((events c OR kWriteEvent) AND kWriteEvent) 2"
    by (simp add: bit_simps event_flags) 
  then show "IsWriting (enable_write c)" unfolding IsWriting_def enable_write_def by auto
  show "\<not> IsWriting (disable_write c)" "\<not> IsWriting (disable_all c)"
    by (simp_all add: IsWriting_def disable_write_def disable_all_def kNoneEvent_def
        and.assoc)
qed

end
