(* ===== verification/Poller.thy ===== *)
theory Poller
  imports Channel
begin

text \<open>
  The interface \<open>Poller\<close> (\<^verbatim>\<open>include/poller.h\<close>, \<^verbatim>\<open>src/poller.cc\<close>) as its client, the
  event loop, sees it: a locale with the two operations that register interest and the
  laws both implementations (\<open>EpollPoller\<close> and \<open>PollPoller\<close>) promise. The state of the
  kernel's registration is observed by \<open>watch\<close>, the mask watched for a descriptor (0 for
  none).
\<close>

definition HasChannel :: "(cint \<rightharpoonup> ptr) \<Rightarrow> (ptr \<rightharpoonup> channel) \<Rightarrow> ptr \<Rightarrow> bool res" where
  "HasChannel maps chans p =
     (case chans p of None \<Rightarrow> Inl UseAfterFree | Some c \<Rightarrow> Inr (maps (ch_fd c) = Some p))"

text \<open>What a poller may change of a channel: its index and its received events.\<close>

definition same_channel :: "channel \<Rightarrow> channel \<Rightarrow> bool" where
  "same_channel c d \<longleftrightarrow> c\<lparr>index := 0, revents := 0\<rparr> = d\<lparr>index := 0, revents := 0\<rparr>"

definition same_channels :: "(ptr \<rightharpoonup> channel) \<Rightarrow> (ptr \<rightharpoonup> channel) \<Rightarrow> bool" where
  "same_channels m n \<longleftrightarrow> dom m = dom n \<and>
     (\<forall>p c d. m p = Some c \<longrightarrow> n p = Some d \<longrightarrow> same_channel c d)"

lemma same_channelD:
  "same_channel c d \<Longrightarrow> ch_fd c = ch_fd d \<and> events c = events d \<and> tie c = tie d"
  by (cases c; cases d) (simp add: same_channel_def)

lemma same_channel_Set_Index [simp]: "same_channel c (Set_Index i c)"
  by (simp add: same_channel_def Set_Index_def)

lemma same_channels_refl [simp]: "same_channels m m"
  by (auto simp: same_channels_def same_channel_def)

lemma same_channels_upd:
  "m p = Some c \<Longrightarrow> same_channel c d \<Longrightarrow> same_channels m (m(p \<mapsto> d))"
  by (auto simp: same_channels_def same_channel_def)

lemma same_channels_trans:
  assumes "same_channels a b" "same_channels b c"
  shows "same_channels a c"
proof -
  have "same_channel x z" if "a p = Some x" "c p = Some z" for p x z
  proof -
    have "b p \<noteq> None" using assms that unfolding same_channels_def by (metis domIff option.distinct(1))
    then obtain y where "b p = Some y" by blast
    then have "same_channel x y" "same_channel y z"
      using assms that by (auto simp: same_channels_def)
    then show ?thesis by (simp add: same_channel_def)
  qed
  then show ?thesis using assms by (auto simp: same_channels_def)
qed

lemma same_channelsD:
  "same_channels m n \<Longrightarrow> m p = Some c \<Longrightarrow> \<exists>d. n p = Some d \<and> same_channel c d"
  unfolding same_channels_def by (metis domD domI)

section \<open>The virtual interface\<close>

text \<open>
  What a client reaches through a \<open>Poller*\<close>: the store of channels and the virtual
  functions \<open>UpdateChannel\<close> and \<open>RemoveChannel\<close>. A setter of \<open>Channel\<close> changes \<open>events_\<close> and
  calls \<open>Update()\<close>, which goes through the loop to \<open>UpdateChannel\<close>.
\<close>

record 's poller_ops =
  po_chans :: "'s \<Rightarrow> ptr \<rightharpoonup> channel"
  po_set :: "ptr \<Rightarrow> channel \<Rightarrow> 's \<Rightarrow> 's"
  po_update :: "ptr \<Rightarrow> 's \<Rightarrow> 's res"
  po_remove :: "ptr \<Rightarrow> 's \<Rightarrow> 's res"

definition channel_set :: "'s poller_ops \<Rightarrow> (channel \<Rightarrow> channel) \<Rightarrow> ptr \<Rightarrow> 's \<Rightarrow> 's res" where
  "channel_set P f p s =
     (case po_chans P s p of None \<Rightarrow> Inl UseAfterFree | Some c \<Rightarrow> po_update P p (po_set P p (f c) s))"

section \<open>The contract\<close>

locale poller =
  fixes inv :: "'s \<Rightarrow> bool"
    and chans :: "'s \<Rightarrow> ptr \<rightharpoonup> channel"
    and set_chan :: "ptr \<Rightarrow> channel \<Rightarrow> 's \<Rightarrow> 's"
    and registered :: "'s \<Rightarrow> ptr \<Rightarrow> bool"
    and fd_free :: "'s \<Rightarrow> cint \<Rightarrow> bool"
    and watch :: "'s \<Rightarrow> cint \<Rightarrow> cint"
    and update :: "ptr \<Rightarrow> 's \<Rightarrow> 's res"
    and remove :: "ptr \<Rightarrow> 's \<Rightarrow> 's res"
  assumes update_law: "inv s \<Longrightarrow> chans s p = Some c \<Longrightarrow> events_ok c \<Longrightarrow>
      registered s p \<or> index c = - 1 \<and> fd_free s (ch_fd c) \<Longrightarrow>
      \<exists>s'. update p s = Inr s' \<and> inv s' \<and> registered s' p \<and>
           watch s' = (watch s)(ch_fd c := events c) \<and> same_channels (chans s) (chans s') \<and>
           (\<forall>q. q \<noteq> p \<longrightarrow> registered s' q = registered s q)"
    and remove_law: "inv s \<Longrightarrow> chans s p = Some c \<Longrightarrow> registered s p \<Longrightarrow>
      \<exists>s'. remove p s = Inr s' \<and> inv s' \<and> \<not> registered s' p \<and>
           watch s' = (watch s)(ch_fd c := 0) \<and> same_channels (chans s) (chans s') \<and>
           (\<forall>q. q \<noteq> p \<longrightarrow> registered s' q = registered s q)"
    and set_chan_law: "inv s \<Longrightarrow> chans s p = Some c \<Longrightarrow> ch_fd c' = ch_fd c \<Longrightarrow> index c' = index c \<Longrightarrow>
      inv (set_chan p c' s) \<and> chans (set_chan p c' s) = (chans s)(p \<mapsto> c') \<and>
      registered (set_chan p c' s) = registered s \<and> fd_free (set_chan p c' s) = fd_free s \<and>
      watch (set_chan p c' s) = watch s"
    and new_chan_law: "inv s \<Longrightarrow> chans s p = None \<Longrightarrow> index c = - 1 \<Longrightarrow>
      inv (set_chan p c s) \<and> chans (set_chan p c s) = (chans s)(p \<mapsto> c) \<and> \<not> registered (set_chan p c s) p \<and>
      fd_free (set_chan p c s) = fd_free s \<and> watch (set_chan p c s) = watch s"
begin

text \<open>
  A setter of \<open>Channel\<close>: change \<open>events_\<close>, then \<open>Update()\<close>. Afterwards the kernel watches
  exactly the channel's new mask, and nothing else changed.
\<close>

lemma set_events_then_update:
  assumes "inv s" "chans s p = Some c" "registered s p \<or> index c = - 1 \<and> fd_free s (ch_fd c)"
    and "c' = c\<lparr>events := e\<rparr>" "events_ok c'"
  shows "\<exists>s' c''. update p (set_chan p c' s) = Inr s' \<and> inv s' \<and> registered s' p \<and>
    chans s' p = Some c'' \<and> events c'' = events c' \<and> ch_fd c'' = ch_fd c \<and>
    watch s' = (watch s)(ch_fd c := events c')"
proof -
  have sc: "ch_fd c' = ch_fd c" "index c' = index c"
    using assms(4) by simp_all
  note s1 = set_chan_law [OF assms(1,2) sc]
  have "registered (set_chan p c' s) p \<or> index c' = - 1 \<and> fd_free (set_chan p c' s) (ch_fd c')"
    using assms(3,4) s1 by auto
  with s1 assms(5) obtain s' where s': "update p (set_chan p c' s) = Inr s'" "inv s'" "registered s' p"
      "watch s' = (watch s)(ch_fd c' := events c')" "same_channels ((chans s)(p \<mapsto> c')) (chans s')"
    using update_law [of "set_chan p c' s" p c'] by auto
  from same_channelsD [OF s'(5), of p c'] obtain c'' where "chans s' p = Some c''" "same_channel c' c''" by auto
  then show ?thesis using s' assms(4) same_channelD [of c' c''] by auto
qed

end

end
