(* ===== verification/Epoll_Poller.thy ===== *)
theory Epoll_Poller
  imports Poller
begin

text \<open>
  \<open>EpollPoller\<close> (\<^verbatim>\<open>include/epoll_poller.h\<close>, \<^verbatim>\<open>src/epoll_poller.cc\<close>). The kernel's epoll
  instance is a state of unknown type \<open>'k\<close> with the system calls as arguments
  (\<open>epoll_kernel\<close>); \<open>interest\<close> observes its interest list. \<open>epoll_contract\<close> collects the
  documented behaviour of \<open>epoll_ctl\<close> on open descriptors: \<open>ADD\<close> succeeds exactly when
  the descriptor is not in the list, \<open>MOD\<close> and \<open>DEL\<close> exactly when it is.
\<close>

section \<open>The kernel\<close>

datatype ctl_op = EPOLL_CTL_ADD | EPOLL_CTL_MOD | EPOLL_CTL_DEL

record 'k epoll_kernel =
  epoll_ctl :: "ctl_op \<Rightarrow> cint \<Rightarrow> cint \<times> ptr \<Rightarrow> 'k \<Rightarrow> errno + 'k"
  epoll_wait :: "nat \<Rightarrow> cint \<Rightarrow> 'k \<Rightarrow> errno + (cint \<times> ptr) list"
  interest :: "'k \<Rightarrow> cint \<rightharpoonup> cint \<times> ptr"

definition epoll_contract :: "'k epoll_kernel \<Rightarrow> bool" where
  "epoll_contract K \<longleftrightarrow>
     (\<forall>k fd ev. interest K k fd = None \<longrightarrow>
        (\<exists>k'. epoll_ctl K EPOLL_CTL_ADD fd ev k = Inr k' \<and> interest K k' = (interest K k)(fd \<mapsto> ev))) \<and>
     (\<forall>k fd ev. interest K k fd \<noteq> None \<longrightarrow> (\<exists>e. epoll_ctl K EPOLL_CTL_ADD fd ev k = Inl e)) \<and>
     (\<forall>k fd ev. interest K k fd \<noteq> None \<longrightarrow>
        (\<exists>k'. epoll_ctl K EPOLL_CTL_MOD fd ev k = Inr k' \<and> interest K k' = (interest K k)(fd \<mapsto> ev))) \<and>
     (\<forall>k fd ev. interest K k fd \<noteq> None \<longrightarrow>
        (\<exists>k'. epoll_ctl K EPOLL_CTL_DEL fd ev k = Inr k' \<and> interest K k' = (interest K k)(fd := None))) \<and>
     (\<forall>k fd ev. interest K k fd = None \<longrightarrow> (\<exists>e. epoll_ctl K EPOLL_CTL_MOD fd ev k = Inl e) \<and>
        (\<exists>e. epoll_ctl K EPOLL_CTL_DEL fd ev k = Inl e))"

definition epoll_wait_contract :: "'k epoll_kernel \<Rightarrow> bool" where
  "epoll_wait_contract K \<longleftrightarrow>
     (\<forall>n t k evs. epoll_wait K n t k = Inr evs \<longrightarrow>
        length evs \<le> n \<and> (\<forall>(ev, p) \<in> set evs. \<exists>fd m. interest K k fd = Some (m, p)))"

section \<open>The class\<close>

definition kNew :: int where "kNew = - 1"
definition kAdded :: int where "kAdded = 1"
definition kDeleted :: int where "kDeleted = 2"
definition kInitEventSize :: nat where "kInitEventSize = 16"

lemmas epoll_index = kNew_def kAdded_def kDeleted_def

record 'k epoller =
  ep_chans :: "ptr \<rightharpoonup> channel"
  channel_maps :: "cint \<rightharpoonup> ptr"
  events_len :: nat
  kern :: 'k

definition epoller_init :: "'k \<Rightarrow> (ptr \<rightharpoonup> channel) \<Rightarrow> 'k epoller" where
  "epoller_init k m =
     \<lparr>ep_chans = m, channel_maps = Map.empty, events_len = kInitEventSize, kern = k\<rparr>"

text \<open>The constructor, given what \<open>epoll_create1\<close> returned.\<close>

definition EpollPoller_ctor :: "errno + 'k \<Rightarrow> (ptr \<rightharpoonup> channel) \<Rightarrow> 'k epoller res" where
  "EpollPoller_ctor created m =
     (case created of Inl e \<Rightarrow> Inl Fatal | Inr k \<Rightarrow> Inr (epoller_init k m))"

text \<open>A failing \<open>epoll_ctl\<close> is only logged for \<open>DEL\<close>; otherwise it is fatal.\<close>

definition ep_Update :: "'k epoll_kernel \<Rightarrow> ctl_op \<Rightarrow> ptr \<Rightarrow> 'k epoller \<Rightarrow> 'k epoller res" where
  "ep_Update K operation p s =
     (case ep_chans s p of
        None \<Rightarrow> Inl UseAfterFree
      | Some c \<Rightarrow>
        (case epoll_ctl K operation (ch_fd c) (events c, p) (kern s) of
           Inr k \<Rightarrow> Inr (s\<lparr>kern := k\<rparr>)
         | Inl e \<Rightarrow> if operation = EPOLL_CTL_DEL then Inr s else Inl Fatal))"

definition ep_set_index :: "ptr \<Rightarrow> int \<Rightarrow> 'k epoller \<Rightarrow> 'k epoller" where
  "ep_set_index p i s = s\<lparr>ep_chans := (ep_chans s)(p := map_option (Set_Index i) (ep_chans s p))\<rparr>"

definition ep_UpdateChannel :: "'k epoll_kernel \<Rightarrow> ptr \<Rightarrow> 'k epoller \<Rightarrow> 'k epoller res" where
  "ep_UpdateChannel K p s =
     (case ep_chans s p of
        None \<Rightarrow> Inl UseAfterFree
      | Some c \<Rightarrow>
        if index c = kNew \<or> index c = kDeleted
        then (let s1 = (if index c = kNew then s\<lparr>channel_maps := (channel_maps s)(ch_fd c \<mapsto> p)\<rparr> else s)
              in ep_Update K EPOLL_CTL_ADD p (ep_set_index p kAdded s1))
        else if IsNoneEvent c
        then res_bind (ep_Update K EPOLL_CTL_DEL p s) (\<lambda>s1. Inr (ep_set_index p kDeleted s1))
        else ep_Update K EPOLL_CTL_MOD p s)"

definition ep_RemoveChannel :: "'k epoll_kernel \<Rightarrow> ptr \<Rightarrow> 'k epoller \<Rightarrow> 'k epoller res" where
  "ep_RemoveChannel K p s =
     (case ep_chans s p of
        None \<Rightarrow> Inl UseAfterFree
      | Some c \<Rightarrow>
        (let s1 = s\<lparr>channel_maps := (channel_maps s)(ch_fd c := None)\<rparr> in
         res_bind (if index c = kAdded then ep_Update K EPOLL_CTL_DEL p s1 else Inr s1)
           (\<lambda>s2. Inr (ep_set_index p kNew s2))))"

text \<open>\<open>FillActiveChannels\<close>: each reported channel gets its received events and is listed.\<close>

fun ep_FillActiveChannels ::
  "(cint \<times> ptr) list \<Rightarrow> 'k epoller \<Rightarrow> ptr list \<Rightarrow> ('k epoller \<times> ptr list) res" where
  "ep_FillActiveChannels [] s active = Inr (s, active)"
| "ep_FillActiveChannels ((ev, p) # evs) s active =
     (case ep_chans s p of
        None \<Rightarrow> Inl UseAfterFree
      | Some c \<Rightarrow> ep_FillActiveChannels evs
          (s\<lparr>ep_chans := (ep_chans s)(p \<mapsto> Set_Revents ev c)\<rparr>) (active @ [p]))"

text \<open>\<open>Polling\<close>: the events array doubles when it was filled; errors are only logged.\<close>

definition ep_Polling ::
  "'k epoll_kernel \<Rightarrow> cint \<Rightarrow> 'k epoller \<Rightarrow> ptr list \<Rightarrow> ('k epoller \<times> ptr list) res" where
  "ep_Polling K timeout_ms s active =
     (case epoll_wait K (events_len s) timeout_ms (kern s) of
        Inl e \<Rightarrow> Inr (s, active)
      | Inr evs \<Rightarrow>
        if evs = [] then Inr (s, active)
        else res_bind (ep_FillActiveChannels evs s active) (\<lambda>(s1, active1).
          Inr (if length evs = events_len s1 then s1\<lparr>events_len := 2 * events_len s1\<rparr> else s1, active1)))"

section \<open>Invariant\<close>

text \<open>
  What the comments on \<open>kNew\<close>, \<open>kAdded\<close> and \<open>kDeleted\<close> say: a channel's index tells whether
  it is in \<open>channel_maps_\<close> and whether the kernel watches it; nothing else is in either.
\<close>

definition ep_inv :: "'k epoll_kernel \<Rightarrow> 'k epoller \<Rightarrow> bool" where
  "ep_inv K s \<longleftrightarrow> epoll_contract K \<and>
     (\<forall>fd p. channel_maps s fd = Some p \<longrightarrow>
        (\<exists>c. ep_chans s p = Some c \<and> ch_fd c = fd \<and> index c \<noteq> kNew)) \<and>
     (\<forall>p c. ep_chans s p = Some c \<longrightarrow> index c \<in> {kNew, kAdded, kDeleted} \<and>
        (index c \<noteq> kNew \<longrightarrow> channel_maps s (ch_fd c) = Some p) \<and>
        (index c = kAdded \<longrightarrow> (\<exists>ev. interest K (kern s) (ch_fd c) = Some (ev, p))) \<and>
        (index c = kDeleted \<longrightarrow> interest K (kern s) (ch_fd c) = None)) \<and>
     (\<forall>fd. channel_maps s fd = None \<longrightarrow> interest K (kern s) fd = None)"

definition ep_registered :: "'k epoller \<Rightarrow> ptr \<Rightarrow> bool" where
  "ep_registered s p \<longleftrightarrow> (\<exists>c. ep_chans s p = Some c \<and> index c \<noteq> kNew)"

definition ep_fd_free :: "'k epoller \<Rightarrow> cint \<Rightarrow> bool" where
  "ep_fd_free s fd \<longleftrightarrow> channel_maps s fd = None"

text \<open>
  The events the kernel has been asked to watch a descriptor for. An entry with an empty mask counts like none,
  although the kernel reports hang-ups and errors for it.
\<close>

definition ep_watch :: "'k epoll_kernel \<Rightarrow> 'k epoller \<Rightarrow> cint \<Rightarrow> cint" where
  "ep_watch K s fd = (case interest K (kern s) fd of None \<Rightarrow> 0 | Some (ev, p) \<Rightarrow> ev)"

definition ep_set_chan :: "ptr \<Rightarrow> channel \<Rightarrow> 'k epoller \<Rightarrow> 'k epoller" where
  "ep_set_chan p c s = s\<lparr>ep_chans := (ep_chans s)(p \<mapsto> c)\<rparr>"

lemma epoll_contractD:
  assumes "epoll_contract K"
  shows "interest K k fd = None \<Longrightarrow>
      \<exists>k'. epoll_ctl K EPOLL_CTL_ADD fd ev k = Inr k' \<and> interest K k' = (interest K k)(fd \<mapsto> ev)"
    and "interest K k fd = Some x \<Longrightarrow> \<exists>e. epoll_ctl K EPOLL_CTL_ADD fd ev k = Inl e"
    and "interest K k fd = Some x \<Longrightarrow>
      \<exists>k'. epoll_ctl K EPOLL_CTL_MOD fd ev k = Inr k' \<and> interest K k' = (interest K k)(fd \<mapsto> ev)"
    and "interest K k fd = Some x \<Longrightarrow>
      \<exists>k'. epoll_ctl K EPOLL_CTL_DEL fd ev k = Inr k' \<and> interest K k' = (interest K k)(fd := None)"
    and "interest K k fd = None \<Longrightarrow> \<exists>e. epoll_ctl K EPOLL_CTL_MOD fd ev k = Inl e"
    and "interest K k fd = None \<Longrightarrow> \<exists>e. epoll_ctl K EPOLL_CTL_DEL fd ev k = Inl e"
  using assms unfolding epoll_contract_def by blast+

text \<open>Whatever the operation, a call that succeeds changes the entry of its own descriptor only.\<close>

lemma epoll_ctl_local:
  assumes "epoll_contract K" "epoll_ctl K op fd ev k = Inr k'" "fd' \<noteq> fd"
  shows "interest K k' fd' = interest K k fd'"
proof (cases "interest K k fd")
  case None
  then show ?thesis using assms(2,3) epoll_contractD(1,5,6) [OF assms(1), of k fd ev] by (cases op) auto
next
  case (Some x)
  then show ?thesis using assms(2,3) epoll_contractD(2,3,4) [OF assms(1), of k fd x ev] by (cases op) auto
qed

lemma ep_invD:
  assumes "ep_inv K s"
  shows "epoll_contract K"
    and "channel_maps s fd = Some p \<Longrightarrow> \<exists>c. ep_chans s p = Some c \<and> ch_fd c = fd \<and> index c \<noteq> kNew"
    and "ep_chans s p = Some c \<Longrightarrow> index c = kNew \<or> index c = kAdded \<or> index c = kDeleted"
    and "ep_chans s p = Some c \<Longrightarrow> index c \<noteq> kNew \<Longrightarrow> channel_maps s (ch_fd c) = Some p"
    and "ep_chans s p = Some c \<Longrightarrow> index c = kAdded \<Longrightarrow> \<exists>ev. interest K (kern s) (ch_fd c) = Some (ev, p)"
    and "ep_chans s p = Some c \<Longrightarrow> index c = kDeleted \<Longrightarrow> interest K (kern s) (ch_fd c) = None"
    and "channel_maps s fd = None \<Longrightarrow> interest K (kern s) fd = None"
  using assms unfolding ep_inv_def by blast+

text \<open>
  Every operation changes one channel, its descriptor's map entry and its kernel entry;
  the invariant is kept if the three agree afterwards.
\<close>

definition ep_agree :: "'k epoll_kernel \<Rightarrow> 'k epoller \<Rightarrow> ptr \<Rightarrow> channel \<Rightarrow> bool" where
  "ep_agree K s p c \<longleftrightarrow>
     index c = kNew \<and> channel_maps s (ch_fd c) = None \<and> interest K (kern s) (ch_fd c) = None \<or>
     index c = kAdded \<and> channel_maps s (ch_fd c) = Some p \<and>
       (\<exists>ev. interest K (kern s) (ch_fd c) = Some (ev, p)) \<or>
     index c = kDeleted \<and> channel_maps s (ch_fd c) = Some p \<and> interest K (kern s) (ch_fd c) = None"

lemma ep_inv_point:
  assumes inv: "ep_inv K s" and c: "ep_chans s p = Some c"
    and own: "channel_maps s (ch_fd c) = None \<or> channel_maps s (ch_fd c) = Some p"
    and ch: "ep_chans s' = (ep_chans s)(p \<mapsto> c')" and fd: "ch_fd c' = ch_fd c"
    and mp: "\<And>fd. fd \<noteq> ch_fd c \<Longrightarrow> channel_maps s' fd = channel_maps s fd"
    and kn: "\<And>fd. fd \<noteq> ch_fd c \<Longrightarrow> interest K (kern s') fd = interest K (kern s) fd"
    and ag: "ep_agree K s' p c'"
  shows "ep_inv K s'"
proof -
  note d = ep_invD [OF inv]
  have idx: "kNew \<noteq> kAdded" "kNew \<noteq> kDeleted" "kAdded \<noteq> kDeleted" by (simp_all add: epoll_index)
  have other: "index x = kNew" if "ep_chans s q = Some x" "q \<noteq> p" "ch_fd x = ch_fd c" for q x
    using d(4) [OF that(1)] own that by (cases "index x = kNew") auto
  have A: "\<exists>x. ep_chans s' q = Some x \<and> ch_fd x = f \<and> index x \<noteq> kNew" if m: "channel_maps s' f = Some q" for f q
  proof (cases "f = ch_fd c")
    case True
    then show ?thesis using m ag fd ch idx by (auto simp: ep_agree_def)
  next
    case False
    then obtain x where x: "ep_chans s q = Some x" "ch_fd x = f" "index x \<noteq> kNew" using d(2) [of f q] m mp by auto
    then have "q \<noteq> p" using False c by auto
    then show ?thesis using x ch by auto
  qed
  have B: "index x \<in> {kNew, kAdded, kDeleted} \<and> (index x \<noteq> kNew \<longrightarrow> channel_maps s' (ch_fd x) = Some q) \<and>
      (index x = kAdded \<longrightarrow> (\<exists>ev. interest K (kern s') (ch_fd x) = Some (ev, q))) \<and>
      (index x = kDeleted \<longrightarrow> interest K (kern s') (ch_fd x) = None)" if q: "ep_chans s' q = Some x" for q x
  proof (cases "q = p")
    case True
    then show ?thesis using q ch ag fd idx by (auto simp: ep_agree_def)
  next
    case False
    then have x: "ep_chans s q = Some x" using q ch by simp
    show ?thesis
    proof (cases "ch_fd x = ch_fd c")
      case True
      then show ?thesis using other [OF x False] idx by auto
    next
      case False
      then show ?thesis using d(3-6) [OF x] mp kn by auto
    qed
  qed
  have C: "interest K (kern s') f = None" if "channel_maps s' f = None" for f
    using that ag fd d(7) [of f] mp [of f] kn [of f] by (cases "f = ch_fd c") (auto simp: ep_agree_def)
  show ?thesis unfolding ep_inv_def using d(1) A B C by blast
qed

lemma ep_owner:
  assumes "ep_inv K s" "ep_chans s p = Some c" "ep_registered s p \<or> index c = - 1 \<and> ep_fd_free s (ch_fd c)"
  shows "ep_agree K s p c" "channel_maps s (ch_fd c) = None \<or> channel_maps s (ch_fd c) = Some p"
  using ep_invD(3-6) [OF assms(1,2)] ep_invD(7) [OF assms(1), of "ch_fd c"] assms(2,3)
  by (auto simp: ep_agree_def ep_registered_def ep_fd_free_def epoll_index)

lemma ep_UpdateChannel_ok:
  assumes "ep_inv K s" "ep_chans s p = Some c" "ep_registered s p \<or> index c = - 1 \<and> ep_fd_free s (ch_fd c)"
  shows "\<exists>s' i. ep_UpdateChannel K p s = Inr s' \<and> ep_inv K s' \<and> i \<noteq> kNew \<and>
    ep_chans s' = (ep_chans s)(p \<mapsto> Set_Index i c) \<and> events_len s' = events_len s \<and>
    ep_watch K s' = (ep_watch K s)(ch_fd c := events c)"
proof -
  note ow = ep_owner [OF assms] and con = epoll_contractD [OF ep_invD(1) [OF assms(1)]]
  let ?fd = "ch_fd c" and ?ev = "(events c, p)"
  have w: "ep_watch K s' = (ep_watch K s)(?fd := events c)"
    if "interest K (kern s') = (interest K (kern s))(?fd \<mapsto> ?ev)" for s' :: "'a epoller"
    using that by (auto simp: ep_watch_def fun_eq_iff)
  have cs: "ep_chans s = (ep_chans s)(p \<mapsto> c)" using assms(2) by auto
  have fin: "\<exists>s' i. ep_UpdateChannel K p s = Inr s' \<and> ep_inv K s' \<and> i \<noteq> kNew \<and>
      ep_chans s' = (ep_chans s)(p \<mapsto> Set_Index i c) \<and> events_len s' = events_len s \<and>
      ep_watch K s' = (ep_watch K s)(?fd := events c)"
    if eq: "ep_UpdateChannel K p s = Inr s'" and st: "ep_chans s' = (ep_chans s)(p \<mapsto> Set_Index i c)"
      "channel_maps s' = (channel_maps s)(?fd \<mapsto> p)" "events_len s' = events_len s"
      "interest K (kern s') = (interest K (kern s))(?fd := (if i = kAdded then Some ?ev else None))"
      "i = kAdded \<or> i = kDeleted \<and> events c = 0" for s' i
  proof -
    have "ep_agree K s' p (Set_Index i c)" using st by (auto simp: ep_agree_def Set_Index_def)
    then have "ep_inv K s'"
      using st by (intro ep_inv_point [OF assms(1,2) ow(2) st(1)]) (auto simp: Set_Index_def)
    moreover have "ep_watch K s' = (ep_watch K s)(?fd := events c)"
      using st(4,5) by (auto simp: ep_watch_def fun_eq_iff epoll_index)
    ultimately show ?thesis using eq st by (intro exI [of _ s'] exI [of _ i]) (auto simp: epoll_index)
  qed
  consider (add) "index c = kNew \<or> index c = kDeleted" "interest K (kern s) ?fd = None"
    | (reg) x where "index c = kAdded" "interest K (kern s) ?fd = Some x" "channel_maps s ?fd = Some p"
    using ow(1) by (auto simp: ep_agree_def)
  then show ?thesis
  proof cases
    case add
    obtain k where k: "epoll_ctl K EPOLL_CTL_ADD ?fd ?ev (kern s) = Inr k"
      "interest K k = (interest K (kern s))(?fd \<mapsto> ?ev)" using con(1) [OF add(2)] by blast
    have m: "index c = kDeleted \<Longrightarrow> channel_maps s = (channel_maps s)(?fd \<mapsto> p)"
      using ow(1) by (auto simp: ep_agree_def epoll_index)
    let ?s' = "s\<lparr>ep_chans := (ep_chans s)(p \<mapsto> Set_Index kAdded c),
                 channel_maps := (channel_maps s)(?fd \<mapsto> p), kern := k\<rparr>"
    have "ep_UpdateChannel K p s = Inr ?s'"
      using add(1) assms(2) k(1) m
      by (auto simp: ep_UpdateChannel_def ep_set_index_def ep_Update_def Set_Index_def Let_def
          epoll_index)
    then show ?thesis using k(2) by (intro fin [of ?s' kAdded]) auto
  next
    case reg
    have m: "channel_maps s = (channel_maps s)(?fd \<mapsto> p)" using reg(3) by auto
    have nk: "index c \<noteq> kNew" "index c \<noteq> kDeleted" using reg(1) by (auto simp: epoll_index)
    show ?thesis
    proof (cases "IsNoneEvent c")
      case True
      then have ev0: "events c = 0" by (simp add: IsNoneEvent_def kNoneEvent_def)
      obtain k where k: "epoll_ctl K EPOLL_CTL_DEL ?fd ?ev (kern s) = Inr k"
        "interest K k = (interest K (kern s))(?fd := None)" using con(4) [OF reg(2)] by blast
      let ?s' = "s\<lparr>ep_chans := (ep_chans s)(p \<mapsto> Set_Index kDeleted c), kern := k\<rparr>"
      have "ep_UpdateChannel K p s = Inr ?s'"
        using nk assms(2) k(1) True by (simp add: ep_UpdateChannel_def ep_Update_def ep_set_index_def)
      then show ?thesis using k(2) ev0 m by (intro fin [of ?s' kDeleted]) (auto simp: epoll_index)
    next
      case False
      obtain k where k: "epoll_ctl K EPOLL_CTL_MOD ?fd ?ev (kern s) = Inr k"
        "interest K k = (interest K (kern s))(?fd \<mapsto> ?ev)" using con(3) [OF reg(2)] by blast
      have "ep_UpdateChannel K p s = Inr (s\<lparr>kern := k\<rparr>)"
        using nk assms(2) k(1) False by (simp add: ep_UpdateChannel_def ep_Update_def)
      moreover have "Set_Index kAdded c = c" using reg(1) by (simp add: Set_Index_def)
      ultimately show ?thesis using k(2) m cs by (intro fin [of "s\<lparr>kern := k\<rparr>" kAdded]) auto
    qed
  qed
qed

lemma ep_RemoveChannel_ok:
  assumes "ep_inv K s" "ep_chans s p = Some c" "ep_registered s p"
  shows "\<exists>s'. ep_RemoveChannel K p s = Inr s' \<and> ep_inv K s' \<and>
    ep_chans s' = (ep_chans s)(p \<mapsto> Set_Index kNew c) \<and> channel_maps s' = (channel_maps s)(ch_fd c := None) \<and>
    events_len s' = events_len s \<and> ep_watch K s' = (ep_watch K s)(ch_fd c := 0)"
proof -
  have reg: "ep_registered s p \<or> index c = - 1 \<and> ep_fd_free s (ch_fd c)" using assms(3) by simp
  note ow = ep_owner [OF assms(1,2) reg] and con = epoll_contractD [OF ep_invD(1) [OF assms(1)]]
  have nk: "index c \<noteq> kNew" using assms(2,3) by (auto simp: ep_registered_def)
  let ?fd = "ch_fd c"
  have "\<exists>k. interest K k = (interest K (kern s))(?fd := None) \<and>
    ep_RemoveChannel K p s = Inr (s\<lparr>ep_chans := (ep_chans s)(p \<mapsto> Set_Index kNew c),
      channel_maps := (channel_maps s)(?fd := None), kern := k\<rparr>)"
  proof (cases "index c = kAdded")
    case True
    then obtain x where "interest K (kern s) ?fd = Some x" using ow(1) nk by (auto simp: ep_agree_def epoll_index)
    from con(4) [OF this, of "(events c, p)"] show ?thesis
      using True assms(2) by (auto simp: ep_RemoveChannel_def ep_Update_def ep_set_index_def Let_def)
  next
    case False
    then have "interest K (kern s) ?fd = None" using ow(1) nk by (auto simp: ep_agree_def)
    then have "interest K (kern s) = (interest K (kern s))(?fd := None)" by auto
    then show ?thesis using False assms(2)
      by (intro exI [of _ "kern s"]) (simp add: ep_RemoveChannel_def ep_set_index_def Let_def)
  qed
  then obtain k where k: "interest K k = (interest K (kern s))(?fd := None)"
    "ep_RemoveChannel K p s = Inr (s\<lparr>ep_chans := (ep_chans s)(p \<mapsto> Set_Index kNew c),
      channel_maps := (channel_maps s)(?fd := None), kern := k\<rparr>)" by blast
  let ?s' = "s\<lparr>ep_chans := (ep_chans s)(p \<mapsto> Set_Index kNew c),
      channel_maps := (channel_maps s)(?fd := None), kern := k\<rparr>"
  have "ep_inv K ?s'"
    using k(1) by (intro ep_inv_point [OF assms(1,2) ow(2), of _ "Set_Index kNew c"])
      (auto simp: Set_Index_def ep_agree_def)
  moreover have "ep_watch K ?s' = (ep_watch K s)(?fd := 0)" using k(1) by (auto simp: ep_watch_def)
  ultimately show ?thesis using k(2) by (intro exI [of _ ?s']) simp
qed

lemma ep_inv_set_chan:
  assumes "ep_inv K s" "ep_chans s p = Some c" "ch_fd c' = ch_fd c" "index c' = index c"
  shows "ep_inv K (ep_set_chan p c' s)"
proof -
  note d = ep_invD [OF assms(1)]
  have A: "\<exists>x. ep_chans (ep_set_chan p c' s) q = Some x \<and> ch_fd x = f \<and> index x \<noteq> kNew"
    if "channel_maps s f = Some q" for f q
    using d(2) [OF that] assms(2-4) by (auto simp: ep_set_chan_def)
  have B: "\<exists>y. ep_chans s q = Some y \<and> ch_fd x = ch_fd y \<and> index x = index y"
    if "ep_chans (ep_set_chan p c' s) q = Some x" for q x
    using that assms(2-4) by (auto simp: ep_set_chan_def split: if_splits)
  show ?thesis
    unfolding ep_inv_def
  proof (intro conjI allI impI)
    fix q x assume "ep_chans (ep_set_chan p c' s) q = Some x"
    from B [OF this] obtain y where y: "ep_chans s q = Some y" "ch_fd x = ch_fd y" "index x = index y" by blast
    show "index x \<in> {kNew, kAdded, kDeleted}" using d(3) [OF y(1)] y by auto
    show "channel_maps (ep_set_chan p c' s) (ch_fd x) = Some q" if "index x \<noteq> kNew"
      using d(4) [OF y(1)] y that by (simp add: ep_set_chan_def)
    show "\<exists>ev. interest K (kern (ep_set_chan p c' s)) (ch_fd x) = Some (ev, q)" if "index x = kAdded"
      using d(5) [OF y(1)] y that by (simp add: ep_set_chan_def)
    show "interest K (kern (ep_set_chan p c' s)) (ch_fd x) = None" if "index x = kDeleted"
      using d(6) [OF y(1)] y that by (simp add: ep_set_chan_def)
  qed (use A d(1,7) in \<open>auto simp: ep_set_chan_def\<close>)
qed

lemma ep_inv_new_channel:
  assumes "ep_inv K s" "ep_chans s p = None" "index c = - 1"
  shows "ep_inv K (ep_set_chan p c s)"
proof -
  have "channel_maps s f \<noteq> Some p" for f using ep_invD(2) [OF assms(1), of f p] assms(2) by auto
  then show ?thesis using assms unfolding ep_inv_def
    by (simp add: ep_set_chan_def epoll_index)
qed

interpretation epoll: poller "ep_inv K" ep_chans ep_set_chan ep_registered ep_fd_free "ep_watch K"
  "ep_UpdateChannel K" "ep_RemoveChannel K" for K :: "'k epoll_kernel"
proof unfold_locales
  fix s :: "'k epoller" and p c
  assume a: "ep_inv K s" "ep_chans s p = Some c"
    "ep_registered s p \<or> index c = - 1 \<and> ep_fd_free s (ch_fd c)"
  from ep_UpdateChannel_ok [OF a] obtain s' i where "ep_UpdateChannel K p s = Inr s'" "ep_inv K s'"
    "i \<noteq> kNew" "ep_chans s' = (ep_chans s)(p \<mapsto> Set_Index i c)"
    "ep_watch K s' = (ep_watch K s)(ch_fd c := events c)" by blast
  moreover from this have "same_channels (ep_chans s) (ep_chans s')"
    using a(2) by (simp add: same_channels_upd)
  ultimately show "\<exists>s'. ep_UpdateChannel K p s = Inr s' \<and> ep_inv K s' \<and> ep_registered s' p \<and>
      ep_watch K s' = (ep_watch K s)(ch_fd c := events c) \<and> same_channels (ep_chans s) (ep_chans s') \<and>
      (\<forall>q. q \<noteq> p \<longrightarrow> ep_registered s' q = ep_registered s q)"
    by (intro exI [of _ s']) (auto simp: ep_registered_def Set_Index_def)
next
  fix s :: "'k epoller" and p c
  assume a: "ep_inv K s" "ep_chans s p = Some c" "ep_registered s p"
  from ep_RemoveChannel_ok [OF a] obtain s' where "ep_RemoveChannel K p s = Inr s'" "ep_inv K s'"
    "ep_chans s' = (ep_chans s)(p \<mapsto> Set_Index kNew c)"
    "ep_watch K s' = (ep_watch K s)(ch_fd c := 0)" by blast
  moreover from this have "same_channels (ep_chans s) (ep_chans s')"
    using a(2) by (simp add: same_channels_upd)
  ultimately show "\<exists>s'. ep_RemoveChannel K p s = Inr s' \<and> ep_inv K s' \<and> \<not> ep_registered s' p \<and>
      ep_watch K s' = (ep_watch K s)(ch_fd c := 0) \<and> same_channels (ep_chans s) (ep_chans s') \<and>
      (\<forall>q. q \<noteq> p \<longrightarrow> ep_registered s' q = ep_registered s q)"
    by (intro exI [of _ s']) (auto simp: ep_registered_def Set_Index_def)
next
  fix s :: "'k epoller" and p and c c' :: channel
  assume a: "ep_inv K s" "ep_chans s p = Some c" "ch_fd c' = ch_fd c" "index c' = index c"
  then show "ep_inv K (ep_set_chan p c' s) \<and> ep_chans (ep_set_chan p c' s) = (ep_chans s)(p \<mapsto> c') \<and>
      ep_registered (ep_set_chan p c' s) = ep_registered s \<and>
      ep_fd_free (ep_set_chan p c' s) = ep_fd_free s \<and> ep_watch K (ep_set_chan p c' s) = ep_watch K s"
    using ep_inv_set_chan [OF a] a(2,4)
    by (auto simp: ep_set_chan_def ep_registered_def ep_fd_free_def ep_watch_def fun_eq_iff)
next
  fix s :: "'k epoller" and p and c :: channel
  assume "ep_inv K s" "ep_chans s p = None" "index c = - 1"
  then show "ep_inv K (ep_set_chan p c s) \<and> ep_chans (ep_set_chan p c s) = (ep_chans s)(p \<mapsto> c) \<and>
      \<not> ep_registered (ep_set_chan p c s) p \<and>
      ep_fd_free (ep_set_chan p c s) = ep_fd_free s \<and> ep_watch K (ep_set_chan p c s) = ep_watch K s"
    using ep_inv_new_channel [of K s p c]
    by (auto simp: ep_set_chan_def ep_registered_def ep_fd_free_def ep_watch_def fun_eq_iff kNew_def)
qed

section \<open>Polling\<close>

lemma ep_inv_revents:
  assumes "ep_inv K s" "ep_chans s p = Some c"
  shows "ep_inv K (s\<lparr>ep_chans := (ep_chans s)(p \<mapsto> Set_Revents ev c)\<rparr>)"
  using ep_inv_set_chan [OF assms, of "Set_Revents ev c"] by (simp add: Set_Revents_def ep_set_chan_def)

lemma ep_FillActiveChannels_ok:
  assumes "ep_inv K s" "\<forall>(ev, p) \<in> set evs. ep_chans s p \<noteq> None"
  shows "\<exists>s'. ep_FillActiveChannels evs s active = Inr (s', active @ map snd evs) \<and> ep_inv K s' \<and>
    same_channels (ep_chans s) (ep_chans s') \<and> events_len s' = events_len s \<and> kern s' = kern s \<and>
    channel_maps s' = channel_maps s \<and>
    (distinct (map snd evs) \<longrightarrow>
       (\<forall>(ev, p) \<in> set evs. \<exists>c. ep_chans s' p = Some c \<and> revents c = ev)) \<and>
    (\<forall>q. q \<notin> snd ` set evs \<longrightarrow> ep_chans s' q = ep_chans s q)"
  using assms
proof (induction evs s active rule: ep_FillActiveChannels.induct)
  case (1 s active)
  then show ?case by simp
next
  case (2 ev p evs s active)
  then obtain c where c: "ep_chans s p = Some c" by auto
  let ?s = "s\<lparr>ep_chans := (ep_chans s)(p \<mapsto> Set_Revents ev c)\<rparr>"
  have "\<forall>(ev, q) \<in> set evs. ep_chans ?s q \<noteq> None" using "2.prems"(2) by auto
  from "2.IH" [OF c ep_inv_revents [OF "2.prems"(1) c] this] obtain s' where
    s': "ep_FillActiveChannels evs ?s (active @ [p]) = Inr (s', (active @ [p]) @ map snd evs)"
      "ep_inv K s'" "same_channels (ep_chans ?s) (ep_chans s')" "events_len s' = events_len s" "kern s' = kern s"
      "channel_maps s' = channel_maps s"
      "distinct (map snd evs) \<longrightarrow> (\<forall>(ev, p) \<in> set evs. \<exists>c. ep_chans s' p = Some c \<and> revents c = ev)"
      "\<forall>q. q \<notin> snd ` set evs \<longrightarrow> ep_chans s' q = ep_chans ?s q" by (auto simp del: fun_upd_apply)
  have "same_channels (ep_chans s) (ep_chans ?s)"
    using c by (simp add: same_channels_upd same_channel_def Set_Revents_def)
  with s'(3) have same: "same_channels (ep_chans s) (ep_chans s')" using same_channels_trans by blast
  have rev: "\<forall>(e, q) \<in> set ((ev, p) # evs). \<exists>c. ep_chans s' q = Some c \<and> revents c = e"
    if "distinct (map snd ((ev, p) # evs))"
  proof -
    have "p \<notin> snd ` set evs" using that by auto
    then have "ep_chans s' p = Some (Set_Revents ev c)" using s'(8) by simp
    then show ?thesis using s'(7) that by (auto simp: Set_Revents_def)
  qed
  have "ep_FillActiveChannels ((ev, p) # evs) s active = Inr (s', active @ map snd ((ev, p) # evs))"
    using c s'(1) by simp
  then show ?case using s'(2,4,5,6,8) same rev by (intro exI [of _ s']) auto
qed

lemma interest_alive:
  assumes "ep_inv K s" "interest K (kern s) fd = Some (m, p)"
  shows "\<exists>c. ep_chans s p = Some c \<and> ch_fd c = fd \<and> index c = kAdded"
proof -
  note d = ep_invD [OF assms(1)]
  obtain q where "channel_maps s fd = Some q" using d(7) [of fd] assms(2) by (cases "channel_maps s fd") auto
  then obtain c where c: "ep_chans s q = Some c" "ch_fd c = fd" "index c \<noteq> kNew" using d(2) by blast
  then have "index c = kAdded" using d(3,6) [OF c(1)] assms(2) by auto
  then show ?thesis using d(5) [OF c(1)] c assms(2) by auto
qed

lemma ep_Polling_ok:
  assumes "ep_inv K s" "epoll_wait_contract K"
  shows "case epoll_wait K (events_len s) timeout (kern s) of
      Inl e \<Rightarrow> ep_Polling K timeout s active = Inr (s, active)
    | Inr evs \<Rightarrow> \<exists>s'. ep_Polling K timeout s active = Inr (s', active @ map snd evs) \<and> ep_inv K s' \<and>
        same_channels (ep_chans s) (ep_chans s') \<and> ep_watch K s' = ep_watch K s \<and>
        (distinct (map snd evs) \<longrightarrow>
           (\<forall>(ev, p) \<in> set evs. \<exists>c. ep_chans s' p = Some c \<and> revents c = ev)) \<and>
        events_len s' = (if evs \<noteq> [] \<and> length evs = events_len s then 2 * events_len s else events_len s)"
proof (cases "epoll_wait K (events_len s) timeout (kern s)")
  case (Inl e)
  then show ?thesis by (simp add: ep_Polling_def)
next
  case (Inr evs)
  have "\<forall>(ev, p) \<in> set evs. \<exists>fd m. interest K (kern s) fd = Some (m, p)"
    using assms(2) Inr unfolding epoll_wait_contract_def by blast
  then have "\<forall>(ev, p) \<in> set evs. ep_chans s p \<noteq> None" using interest_alive [OF assms(1)] by fastforce
  from ep_FillActiveChannels_ok [OF assms(1) this, of active] obtain s' where
    s': "ep_FillActiveChannels evs s active = Inr (s', active @ map snd evs)" "ep_inv K s'"
      "same_channels (ep_chans s) (ep_chans s')" "events_len s' = events_len s" "kern s' = kern s"
      "distinct (map snd evs) \<longrightarrow> (\<forall>(ev, p) \<in> set evs. \<exists>c. ep_chans s' p = Some c \<and> revents c = ev)" by blast
  have grow: "ep_inv K (s'\<lparr>events_len := n\<rparr>)" for n using s'(2) by (simp add: ep_inv_def)
  have w: "ep_watch K s' = ep_watch K s" "ep_watch K (s'\<lparr>events_len := n\<rparr>) = ep_watch K s" for n
    using s'(5) by (simp_all add: ep_watch_def fun_eq_iff)
  show ?thesis
  proof (cases "evs = []")
    case True
    then show ?thesis using Inr assms(1) by (simp add: ep_Polling_def)
  next
    case False
    let ?s = "if length evs = events_len s' then s'\<lparr>events_len := 2 * events_len s'\<rparr> else s'"
    have "ep_Polling K timeout s active = Inr (?s, active @ map snd evs)"
      using Inr False s'(1) by (simp add: ep_Polling_def)
    then show ?thesis using Inr False s' grow w by (auto simp: split_beta)
  qed
qed

section \<open>Reachable states\<close>

text \<open>
  The life of a poller under a client that updates a channel only while it is registered
  or fresh on an unused descriptor, and removes only registered channels, as the loop,
  the acceptor and the connections do.
\<close>

inductive ep_reachable :: "'k epoll_kernel \<Rightarrow> 'k epoller \<Rightarrow> bool" for K where
  ep_start: "interest K k = Map.empty \<Longrightarrow> EpollPoller_ctor (Inr k) Map.empty = Inr s \<Longrightarrow> ep_reachable K s"
| ep_new_channel: "ep_reachable K s \<Longrightarrow> ep_chans s p = None \<Longrightarrow>
    ep_reachable K (ep_set_chan p (Channel_ctor fd) s)"
| ep_set_events: "ep_reachable K s \<Longrightarrow> ep_chans s p = Some c \<Longrightarrow>
    ep_reachable K (ep_set_chan p (c\<lparr>events := e\<rparr>) s)"
| ep_update: "ep_reachable K s \<Longrightarrow> ep_chans s p = Some c \<Longrightarrow>
    ep_registered s p \<or> index c = - 1 \<and> ep_fd_free s (ch_fd c) \<Longrightarrow>
    ep_UpdateChannel K p s = Inr s' \<Longrightarrow> ep_reachable K s'"
| ep_remove: "ep_reachable K s \<Longrightarrow> ep_chans s p = Some c \<Longrightarrow> ep_registered s p \<Longrightarrow>
    ep_RemoveChannel K p s = Inr s' \<Longrightarrow> ep_reachable K s'"
| ep_poll: "ep_reachable K s \<Longrightarrow> ep_Polling K timeout s [] = Inr (s', active) \<Longrightarrow> ep_reachable K s'"

lemma ep_reachable_inv:
  assumes "ep_reachable K s" "epoll_contract K" "epoll_wait_contract K"
  shows "ep_inv K s"
  using assms
proof (induction rule: ep_reachable.induct)
  case (ep_start k)
  then show ?case by (auto simp: ep_inv_def EpollPoller_ctor_def epoller_init_def)
next
  case (ep_new_channel s p fd)
  then show ?case by (simp add: ep_inv_new_channel Channel_ctor_def)
next
  case (ep_set_events s p c e)
  then show ?case by (simp add: ep_inv_set_chan)
next
  case (ep_update s p c s')
  then show ?case using ep_UpdateChannel_ok [of K s p c] by auto
next
  case (ep_remove s p c s')
  then show ?case using ep_RemoveChannel_ok [of K s p c] by auto
next
  case (ep_poll s timeout s' active)
  then show ?case using ep_Polling_ok [of K s timeout "[]"]
    by (cases "epoll_wait K (events_len s) timeout (kern s)") auto
qed

section \<open>Properties\<close>

text \<open>
  A kernel for the witnesses: the interest list is a map, and descriptor 5 becomes
  readable as soon as it is watched.
\<close>

definition map_kernel :: "(cint \<rightharpoonup> cint \<times> ptr) epoll_kernel" where
  "map_kernel =
     \<lparr>epoll_ctl = (\<lambda>operation fd ev k. case operation of
         EPOLL_CTL_ADD \<Rightarrow> if k fd = None then Inr (k(fd \<mapsto> ev)) else Inl 17
       | EPOLL_CTL_MOD \<Rightarrow> if k fd = None then Inl 2 else Inr (k(fd \<mapsto> ev))
       | EPOLL_CTL_DEL \<Rightarrow> if k fd = None then Inl 2 else Inr (k(fd := None))),
      epoll_wait = (\<lambda>n t k. case k 5 of None \<Rightarrow> Inr [] | Some (m, p) \<Rightarrow> Inr (take n [(1, p)])),
      interest = (\<lambda>k. k)\<rparr>"

lemma map_kernel_contract: "epoll_contract map_kernel" "epoll_wait_contract map_kernel"
proof -
  show "epoll_contract map_kernel" by (auto simp: epoll_contract_def map_kernel_def)
  show "epoll_wait_contract map_kernel"
    by (fastforce simp: epoll_wait_contract_def map_kernel_def dest!: in_set_takeD split: option.splits)
qed

definition idle_poller :: "(cint \<rightharpoonup> cint \<times> ptr) epoller" where
  "idle_poller = ep_set_chan 0 (Channel_ctor 5) (epoller_init Map.empty Map.empty)"

lemma idle_poller_reachable: "ep_reachable map_kernel idle_poller"
  unfolding idle_poller_def
  by (intro ep_new_channel ep_start [of _ Map.empty])
    (simp_all add: map_kernel_def EpollPoller_ctor_def epoller_init_def)

lemma idle_poller_chan: "ep_chans idle_poller 0 = Some (Channel_ctor 5)"
  by (simp add: idle_poller_def ep_set_chan_def)

lemma idle_poller_free: "index (Channel_ctor 5) = - 1 \<and> ep_fd_free idle_poller (ch_fd (Channel_ctor 5))"
  by (simp add: idle_poller_def ep_set_chan_def Channel_ctor_def ep_fd_free_def epoller_init_def)

text \<open>
  C24. In every state an epoll poller can reach, the index of every channel agrees with
  \<open>channel_maps_\<close> and with the kernel's interest list, as the comments on \<open>kNew\<close>, \<open>kAdded\<close> and
  \<open>kDeleted\<close> say.
\<close>

theorem epoll_index_agrees:
  assumes "ep_reachable K s" "epoll_contract K" "epoll_wait_contract K" "ep_chans s p = Some c"
  shows "index c = kNew \<and> channel_maps s (ch_fd c) \<noteq> Some p \<or>
    index c = kAdded \<and> channel_maps s (ch_fd c) = Some p \<and>
      (\<exists>ev. interest K (kern s) (ch_fd c) = Some (ev, p)) \<or>
    index c = kDeleted \<and> channel_maps s (ch_fd c) = Some p \<and> interest K (kern s) (ch_fd c) = None"
proof -
  note d = ep_invD [OF ep_reachable_inv [OF assms(1-3)]]
  have "channel_maps s (ch_fd c) \<noteq> Some p" if "index c = kNew"
    using d(2) [of "ch_fd c" p] that assms(4) by auto
  then show ?thesis using d(3-6) [OF assms(4)] by (auto simp: epoll_index)
qed

theorem epoll_index_agrees_witness:
  "index (Channel_ctor 5) = kNew \<and> channel_maps idle_poller (ch_fd (Channel_ctor 5)) \<noteq> Some 0 \<or>
    index (Channel_ctor 5) = kAdded \<and> channel_maps idle_poller (ch_fd (Channel_ctor 5)) = Some 0 \<and>
      (\<exists>ev. interest map_kernel (kern idle_poller) (ch_fd (Channel_ctor 5)) = Some (ev, 0)) \<or>
    index (Channel_ctor 5) = kDeleted \<and> channel_maps idle_poller (ch_fd (Channel_ctor 5)) = Some 0 \<and>
      interest map_kernel (kern idle_poller) (ch_fd (Channel_ctor 5)) = None"
  by (rule epoll_index_agrees [OF idle_poller_reachable map_kernel_contract idle_poller_chan])

text \<open>
  C13. Changing a channel's events through \<open>EnableRead\<close>, \<open>DisableRead\<close>, \<open>EnableWrite\<close>,
  \<open>DisableWrite\<close> or \<open>DisableAll\<close> never hits the fatal branch of \<open>Update\<close>, and afterwards
  the kernel watches exactly the channel's new mask (nothing, when it is empty) and the
  same masks as before for every other descriptor.
\<close>

theorem epoll_setter_watched:
  assumes "ep_reachable K s" "epoll_contract K" "epoll_wait_contract K" "ep_chans s p = Some c"
    and "ep_registered s p \<or> index c = - 1 \<and> ep_fd_free s (ch_fd c)" "events_ok c"
    and "f \<in> {enable_read, disable_read, enable_write, disable_write, disable_all}"
  shows "\<exists>s'. ep_UpdateChannel K p (ep_set_chan p (f c) s) = Inr s' \<and> ep_inv K s' \<and> ep_registered s' p \<and>
    ep_watch K s' = (ep_watch K s)(ch_fd c := events (f c))"
proof -
  have "\<exists>e. f c = c\<lparr>events := e\<rparr>" using assms(7) by (auto simp: channel_setters)
  then obtain e where e: "f c = c\<lparr>events := e\<rparr>" by blast
  have "events_ok (f c)" using assms(6,7) events_ok_setters by auto
  from epoll.set_events_then_update [OF ep_reachable_inv [OF assms(1-3)] assms(4,5) e this]
  show ?thesis by blast
qed

theorem epoll_setter_watched_witness:
  "\<exists>s'. ep_UpdateChannel map_kernel 0 (ep_set_chan 0 (enable_read (Channel_ctor 5)) idle_poller) = Inr s' \<and>
    ep_inv map_kernel s' \<and> ep_registered s' 0 \<and>
    ep_watch map_kernel s' = (ep_watch map_kernel idle_poller)(5 := 3)"
proof -
  have ok: "events_ok (Channel_ctor 5)" "events (enable_read (Channel_ctor 5)) = 3" "ch_fd (Channel_ctor 5) = 5"
    by (simp_all add: events_ok_def Channel_ctor_def enable_read_def event_flags)
  show ?thesis
    using epoll_setter_watched [OF idle_poller_reachable map_kernel_contract idle_poller_chan
        disjI2 [OF idle_poller_free] ok(1), of enable_read] ok(2,3) by simp
qed

text \<open>
  \<open>RemoveChannel\<close> of a registered channel takes it out of the map and out of the
  kernel (where it is there), resets its index, and touches no other descriptor; the
  channel can be registered again afterwards.
\<close>

theorem epoll_remove_complete:
  assumes "ep_reachable K s" "epoll_contract K" "epoll_wait_contract K" "ep_chans s p = Some c"
    and "ep_registered s p"
  shows "\<exists>s'. ep_RemoveChannel K p s = Inr s' \<and> ep_inv K s' \<and> ep_chans s' p = Some (Set_Index kNew c) \<and>
    ep_fd_free s' (ch_fd c) \<and> HasChannel (channel_maps s') (ep_chans s') p = Inr False \<and>
    ep_watch K s' = (ep_watch K s)(ch_fd c := 0)"
  using ep_RemoveChannel_ok [OF ep_reachable_inv [OF assms(1-3)] assms(4,5)]
  by (auto simp: ep_fd_free_def HasChannel_def Set_Index_def)

definition added_poller :: "(cint \<rightharpoonup> cint \<times> ptr) epoller" where
  "added_poller = \<lparr>ep_chans = [0 \<mapsto> Set_Index 1 (Channel_ctor 5)], channel_maps = [5 \<mapsto> 0],
     events_len = 16, kern = [5 \<mapsto> (0, 0)]\<rparr>"

lemma added_poller_reachable: "ep_reachable map_kernel added_poller"
  by (rule ep_update [OF idle_poller_reachable idle_poller_chan disjI2 [OF idle_poller_free]])
    (simp add: idle_poller_def added_poller_def ep_UpdateChannel_def ep_Update_def ep_set_chan_def
      ep_set_index_def Channel_ctor_def epoller_init_def map_kernel_def epoll_index Set_Index_def
      kInitEventSize_def)

theorem epoll_remove_complete_witness:
  "\<exists>s'. ep_RemoveChannel map_kernel 0 added_poller = Inr s' \<and> ep_inv map_kernel s' \<and> ep_fd_free s' 5"
proof -
  have c: "ep_chans added_poller 0 = Some (Set_Index 1 (Channel_ctor 5))" by (simp add: added_poller_def)
  have r: "ep_registered added_poller 0"
    by (simp add: ep_registered_def added_poller_def Set_Index_def epoll_index)
  show ?thesis
    using epoll_remove_complete [OF added_poller_reachable map_kernel_contract c r]
    by (auto simp: Set_Index_def Channel_ctor_def)
qed

text \<open>
  \<open>Polling\<close>: an error leaves everything as it was; otherwise the channels the kernel
  reports are appended to the active list in the kernel's order, each with its events
  received, none of them dangling; registrations do not change, and the array doubles
  exactly when the kernel filled it.
\<close>

theorem epoll_polling_spec:
  assumes "ep_reachable K s" "epoll_contract K" "epoll_wait_contract K"
  shows "case epoll_wait K (events_len s) timeout (kern s) of
      Inl e \<Rightarrow> ep_Polling K timeout s active = Inr (s, active)
    | Inr evs \<Rightarrow> \<exists>s'. ep_Polling K timeout s active = Inr (s', active @ map snd evs) \<and> ep_inv K s' \<and>
        same_channels (ep_chans s) (ep_chans s') \<and> ep_watch K s' = ep_watch K s \<and>
        (distinct (map snd evs) \<longrightarrow>
           (\<forall>(ev, p) \<in> set evs. \<exists>c. ep_chans s' p = Some c \<and> revents c = ev)) \<and>
        events_len s' = (if evs \<noteq> [] \<and> length evs = events_len s then 2 * events_len s else events_len s)"
  by (rule ep_Polling_ok [OF ep_reachable_inv [OF assms] assms(3)])

theorem epoll_polling_spec_witness:
  "\<exists>s'. ep_Polling map_kernel 100 added_poller [] = Inr (s', [0]) \<and> ep_inv map_kernel s' \<and>
     (\<exists>c. ep_chans s' 0 = Some c \<and> revents c = 1) \<and> events_len s' = 16"
proof -
  have "epoll_wait map_kernel (events_len added_poller) 100 (kern added_poller) = Inr [(1, 0)]"
    by (simp add: map_kernel_def added_poller_def)
  then show ?thesis
    using epoll_polling_spec [OF added_poller_reachable map_kernel_contract, of 100 "[]"]
    by (auto simp: added_poller_def)
qed

text \<open>
  Registering a second channel for a descriptor the kernel already watches ends the
  process: \<open>EPOLL_CTL_ADD\<close> fails and \<open>Update\<close> logs at level FATAL.
\<close>

theorem epoll_double_registration_fatal:
  assumes "epoll_contract K" "ep_chans s p = Some c" "index c = kNew"
    and "interest K (kern s) (ch_fd c) = Some x"
  shows "ep_UpdateChannel K p s = Inl Fatal"
  using epoll_contractD(2) [OF assms(1,4), of "(events c, p)"] assms(2,3)
  by (auto simp: ep_UpdateChannel_def ep_Update_def ep_set_index_def Set_Index_def Let_def)

theorem epoll_double_registration_fatal_witness:
  "ep_UpdateChannel map_kernel 1 (ep_set_chan 1 (Channel_ctor 5) added_poller) = Inl Fatal"
  by (rule epoll_double_registration_fatal [OF map_kernel_contract(1), where c = "Channel_ctor 5" and x = "(0, 0)"])
    (simp_all add: ep_set_chan_def added_poller_def Channel_ctor_def kNew_def map_kernel_def)

end
