(* ===== verification/Event_Loop.thy ===== *)
theory Event_Loop
  imports Timer_Manager Epoll_Poller "HOL-Library.Sublist"
begin

text \<open>
  \<open>EventLoop\<close> (\<^verbatim>\<open>include/event_loop.h\<close>, \<^verbatim>\<open>src/event_loop.cc\<close>): the functor queue, the
  wake-up descriptor, quitting, and the loop itself. First the operations one by one,
  as functions on the loop's record; then the loop thread and its other threads as a
  step relation that uses those operations, with every point at which a second thread
  can come in between as a separate step. The eventfd is an argument (\<open>eventfd\<close>) with
  its documented behaviour as \<open>eventfd_contract\<close>.
\<close>

section \<open>Operations\<close>

record 'k eventfd =
  efd_write :: "'k \<Rightarrow> errno + 'k"
  efd_read :: "'k \<Rightarrow> errno + 'k"
  efd_readable :: "'k \<Rightarrow> bool"

text \<open>
  After a \<open>write\<close> of 1 the descriptor is readable, also when the counter is full and the
  non-blocking write fails; after a \<open>read\<close> of a readable one it is not.
\<close>

definition eventfd_contract :: "'k eventfd \<Rightarrow> bool" where
  "eventfd_contract E \<longleftrightarrow>
     (\<forall>k. case efd_write E k of Inr k' \<Rightarrow> efd_readable E k' | Inl e \<Rightarrow> efd_readable E k) \<and>
     (\<forall>k. efd_readable E k \<longrightarrow> (\<exists>k'. efd_read E k = Inr k' \<and> \<not> efd_readable E k'))"

record ('f, 'k) event_loop =
  looping :: bool
  quit :: bool
  thread_id :: int
  pending_functors :: "'f list"
  calling_pending_functors :: bool
  wake_fd :: 'k

definition IsInLoopThread :: "int \<Rightarrow> ('f, 'k) event_loop \<Rightarrow> bool" where
  "IsInLoopThread tid s \<longleftrightarrow> thread_id s = tid"

definition Wakeup :: "'k eventfd \<Rightarrow> ('f, 'k) event_loop \<Rightarrow> ('f, 'k) event_loop" where
  "Wakeup E s = (case efd_write E (wake_fd s) of Inr k \<Rightarrow> s\<lparr>wake_fd := k\<rparr> | Inl e \<Rightarrow> s)"

definition HandleRead :: "'k eventfd \<Rightarrow> ('f, 'k) event_loop \<Rightarrow> ('f, 'k) event_loop" where
  "HandleRead E s = (case efd_read E (wake_fd s) of Inr k \<Rightarrow> s\<lparr>wake_fd := k\<rparr> | Inl e \<Rightarrow> s)"

text \<open>\<open>QueueInLoop\<close>: the push is under the mutex; the decision to wake up comes after it.\<close>

definition push_functor :: "'f \<Rightarrow> ('f, 'k) event_loop \<Rightarrow> ('f, 'k) event_loop" where
  "push_functor cb s = s\<lparr>pending_functors := pending_functors s @ [cb]\<rparr>"

definition needs_wakeup :: "int \<Rightarrow> ('f, 'k) event_loop \<Rightarrow> bool" where
  "needs_wakeup tid s \<longleftrightarrow> \<not> IsInLoopThread tid s \<or> calling_pending_functors s"

definition QueueInLoop :: "'k eventfd \<Rightarrow> int \<Rightarrow> 'f \<Rightarrow> ('f, 'k) event_loop \<Rightarrow> ('f, 'k) event_loop" where
  "QueueInLoop E tid cb s =
     (let s1 = push_functor cb s in if needs_wakeup tid s1 then Wakeup E s1 else s1)"

text \<open>Running a functor changes the loop's state by \<open>run\<close> (it may queue more).\<close>

definition RunInLoop ::
  "'k eventfd \<Rightarrow> ('f \<Rightarrow> ('f, 'k) event_loop \<Rightarrow> ('f, 'k) event_loop) \<Rightarrow> int \<Rightarrow> 'f \<Rightarrow>
   ('f, 'k) event_loop \<Rightarrow> ('f, 'k) event_loop" where
  "RunInLoop E run tid cb s = (if IsInLoopThread tid s then run cb s else QueueInLoop E tid cb s)"

text \<open>\<open>DoPendingFunctors\<close>: set the flag, swap the queue out under the mutex, run, clear the flag.\<close>

definition swap_pending :: "('f, 'k) event_loop \<Rightarrow> 'f list \<times> ('f, 'k) event_loop" where
  "swap_pending s = (pending_functors s, s\<lparr>calling_pending_functors := True, pending_functors := []\<rparr>)"

definition end_pending :: "('f, 'k) event_loop \<Rightarrow> ('f, 'k) event_loop" where
  "end_pending s = s\<lparr>calling_pending_functors := False\<rparr>"

definition DoPendingFunctors ::
  "('f \<Rightarrow> ('f, 'k) event_loop \<Rightarrow> ('f, 'k) event_loop) \<Rightarrow> ('f, 'k) event_loop \<Rightarrow> ('f, 'k) event_loop" where
  "DoPendingFunctors run s =
     (let (functors, s1) = swap_pending s in end_pending (fold run functors s1))"

definition set_quit :: "('f, 'k) event_loop \<Rightarrow> ('f, 'k) event_loop" where
  "set_quit s = s\<lparr>quit := True\<rparr>"

definition Quit :: "'k eventfd \<Rightarrow> int \<Rightarrow> ('f, 'k) event_loop \<Rightarrow> ('f, 'k) event_loop" where
  "Quit E tid s = (let s1 = set_quit s in if IsInLoopThread tid s1 then s1 else Wakeup E s1)"

definition enter_loop :: "('f, 'k) event_loop \<Rightarrow> ('f, 'k) event_loop" where
  "enter_loop s = s\<lparr>looping := True, quit := False\<rparr>"

definition leave_loop :: "('f, 'k) event_loop \<Rightarrow> ('f, 'k) event_loop" where
  "leave_loop s = s\<lparr>looping := False\<rparr>"

text \<open>
  The timeout \<open>PollAndHandleIoEvent\<close> passes to the poller. It asks the timer manager
  twice, at two readings of the clock, and converts the 64-bit answer to \<open>int\<close>.
\<close>

definition kPollTimeMs :: cint where "kPollTimeMs = 10000"

definition poll_timeout :: "u64 \<Rightarrow> u64 \<Rightarrow> ('cb, 'w) timer_manager \<Rightarrow> cint res" where
  "poll_timeout now1 now2 s =
     res_bind (GetRecentTimeout now1 s) (\<lambda>r1.
       if r1 = - 1 then Inr kPollTimeMs
       else res_bind (GetRecentTimeout now2 s) (\<lambda>r2. Inr (ucast r2)))"

section \<open>The loop and its other threads\<close>

text \<open>
  Where the loop thread is: not yet in \<open>Loop\<close>, at the test of \<open>quit_\<close>, running timer callbacks, blocked in the
  poller, handling I/O events, about to swap the queue, running the swapped functors, or
  out of the loop. \<open>in_flight\<close> counts threads that have pushed a functor or set \<open>quit_\<close>
  and not yet written to the eventfd. \<open>queued\<close> and \<open>executed\<close> record what was queued and
  what has run; they do not influence any step.
\<close>

datatype 'f phase = NotStarted | LoopTest | InTimers | InPoll | InIo | BeforeSwap | Running "'f list" | Exited

record ('f, 'k) system =
  el :: "('f, 'k) event_loop"
  phase :: "'f phase"
  in_flight :: nat
  queued :: "'f list"
  executed :: "'f list"

text \<open>
  One rule per atomic action. \<open>tq\<close> says whether timer callbacks may queue functors on
  their own loop or make it quit. A poll may return at any time (other events, the timeout);
  \<open>io_wake\<close> is the handler of the wake-up channel, at any place among the other handlers.
\<close>

inductive step :: "'k eventfd \<Rightarrow> bool \<Rightarrow> ('f, 'k) system \<Rightarrow> ('f, 'k) system \<Rightarrow> bool" for E tq where
  enter: "phase s = NotStarted \<Longrightarrow>
    step E tq s (s\<lparr>el := enter_loop (el s), phase := LoopTest\<rparr>)"
| again: "phase s = LoopTest \<Longrightarrow> \<not> quit (el s) \<Longrightarrow> step E tq s (s\<lparr>phase := InTimers\<rparr>)"
| leave: "phase s = LoopTest \<Longrightarrow> quit (el s) \<Longrightarrow>
    step E tq s (s\<lparr>el := leave_loop (el s), phase := Exited\<rparr>)"
| timer_queue: "phase s = InTimers \<Longrightarrow> tq \<Longrightarrow>
    step E tq s (s\<lparr>el := QueueInLoop E (thread_id (el s)) f (el s), queued := queued s @ [f]\<rparr>)"
| timer_quit: "phase s = InTimers \<Longrightarrow> tq \<Longrightarrow> step E tq s (s\<lparr>el := Quit E (thread_id (el s)) (el s)\<rparr>)"
| timers_done: "phase s = InTimers \<Longrightarrow> step E tq s (s\<lparr>phase := InPoll\<rparr>)"
| poll_return: "phase s = InPoll \<Longrightarrow> step E tq s (s\<lparr>phase := InIo\<rparr>)"
| io_wake: "phase s = InIo \<Longrightarrow> step E tq s (s\<lparr>el := HandleRead E (el s)\<rparr>)"
| io_queue: "phase s = InIo \<Longrightarrow>
    step E tq s (s\<lparr>el := QueueInLoop E (thread_id (el s)) f (el s), queued := queued s @ [f]\<rparr>)"
| io_quit: "phase s = InIo \<Longrightarrow> step E tq s (s\<lparr>el := Quit E (thread_id (el s)) (el s)\<rparr>)"
| io_done: "phase s = InIo \<Longrightarrow> step E tq s (s\<lparr>phase := BeforeSwap\<rparr>)"
| swap: "phase s = BeforeSwap \<Longrightarrow> swap_pending (el s) = (fs, l) \<Longrightarrow>
    step E tq s (s\<lparr>el := l, phase := Running fs\<rparr>)"
| run_functor: "phase s = Running (f # fs) \<Longrightarrow>
    step E tq s (s\<lparr>phase := Running fs, executed := executed s @ [f]\<rparr>)"
| functor_queue: "phase s = Running fs \<Longrightarrow>
    step E tq s (s\<lparr>el := QueueInLoop E (thread_id (el s)) f (el s), queued := queued s @ [f]\<rparr>)"
| functor_quit: "phase s = Running fs \<Longrightarrow> step E tq s (s\<lparr>el := Quit E (thread_id (el s)) (el s)\<rparr>)"
| functors_done: "phase s = Running [] \<Longrightarrow>
    step E tq s (s\<lparr>el := end_pending (el s), phase := LoopTest\<rparr>)"
| other_push: "tid \<noteq> thread_id (el s) \<Longrightarrow>
    step E tq s (s\<lparr>el := push_functor f (el s), queued := queued s @ [f],
      in_flight := in_flight s + (if needs_wakeup tid (push_functor f (el s)) then 1 else 0)\<rparr>)"
| other_quit: "tid \<noteq> thread_id (el s) \<Longrightarrow>
    step E tq s (s\<lparr>el := set_quit (el s), in_flight := in_flight s + 1\<rparr>)"
| other_wake: "in_flight s = Suc n \<Longrightarrow> step E tq s (s\<lparr>el := Wakeup E (el s), in_flight := n\<rparr>)"

definition init_system :: "int \<Rightarrow> 'k \<Rightarrow> ('f, 'k) system" where
  "init_system tid k =
     \<lparr>el = \<lparr>looping = False, quit = False, thread_id = tid, pending_functors = [],
            calling_pending_functors = False, wake_fd = k\<rparr>,
      phase = NotStarted, in_flight = 0, queued = [], executed = []\<rparr>"

inductive reachable :: "'k eventfd \<Rightarrow> bool \<Rightarrow> int \<Rightarrow> 'k \<Rightarrow> ('f, 'k) system \<Rightarrow> bool" for E tq tid k where
  init: "reachable E tq tid k (init_system tid k)"
| more: "reachable E tq tid k s \<Longrightarrow> step E tq s t \<Longrightarrow> reachable E tq tid k t"

section \<open>Invariants\<close>

lemmas loop_ops = QueueInLoop_def RunInLoop_def push_functor_def needs_wakeup_def IsInLoopThread_def
  Quit_def set_quit_def swap_pending_def end_pending_def enter_loop_def leave_loop_def Let_def

lemma Wakeup_frame [simp]:
  "pending_functors (Wakeup E s) = pending_functors s" "quit (Wakeup E s) = quit s"
  "thread_id (Wakeup E s) = thread_id s" "calling_pending_functors (Wakeup E s) = calling_pending_functors s"
  by (simp_all add: Wakeup_def split: sum.split)

lemma HandleRead_frame [simp]:
  "pending_functors (HandleRead E s) = pending_functors s" "quit (HandleRead E s) = quit s"
  "thread_id (HandleRead E s) = thread_id s"
  "calling_pending_functors (HandleRead E s) = calling_pending_functors s"
  by (simp_all add: HandleRead_def split: sum.split)

lemma Wakeup_readable [simp]: "eventfd_contract E \<Longrightarrow> efd_readable E (wake_fd (Wakeup E s))"
  unfolding eventfd_contract_def Wakeup_def by (auto split: sum.splits)

lemma QueueInLoop_frame [simp]:
  "pending_functors (QueueInLoop E tid f s) = pending_functors s @ [f]"
  "quit (QueueInLoop E tid f s) = quit s"
  "calling_pending_functors (QueueInLoop E tid f s) = calling_pending_functors s"
  "thread_id (QueueInLoop E tid f s) = thread_id s"
  by (simp_all add: loop_ops)

lemma QueueInLoop_readable:
  "eventfd_contract E \<Longrightarrow> efd_readable E (wake_fd s) \<Longrightarrow> efd_readable E (wake_fd (QueueInLoop E tid f s))"
  by (simp add: loop_ops)

lemma QueueInLoop_wakes:
  "eventfd_contract E \<Longrightarrow> calling_pending_functors s \<Longrightarrow> efd_readable E (wake_fd (QueueInLoop E tid f s))"
  by (simp add: loop_ops)

lemma Quit_own_thread [simp]: "Quit E (thread_id s) s = s\<lparr>quit := True\<rparr>"
  by (simp add: loop_ops)

fun batch :: "'f phase \<Rightarrow> 'f list" where
  "batch (Running fs) = fs"
| "batch p = []"

definition fifo_inv :: "('f, 'k) system \<Rightarrow> bool" where
  "fifo_inv s \<longleftrightarrow> executed s @ batch (phase s) @ pending_functors (el s) = queued s"

lemma step_fifo: "step E tq s t \<Longrightarrow> fifo_inv s \<Longrightarrow> fifo_inv t"
  by (induction rule: step.induct) (auto simp: fifo_inv_def loop_ops)

lemma reachable_fifo: "reachable E tq tid k s \<Longrightarrow> fifo_inv s"
proof (induction rule: reachable.induct)
  case init
  then show ?case by (simp add: fifo_inv_def init_system_def)
next
  case (more s t)
  then show ?case using step_fifo by blast
qed

text \<open>
  \<open>signalled\<close>: the eventfd is readable, or some thread is about to make it so. The
  invariant is wanted while the loop polls or is on its way there; while it handles
  events before the swap nothing is required.
\<close>

definition signalled :: "'k eventfd \<Rightarrow> ('f, 'k) system \<Rightarrow> bool" where
  "signalled E s \<longleftrightarrow> efd_readable E (wake_fd (el s)) \<or> 0 < in_flight s"

fun to_poll :: "'f phase \<Rightarrow> bool" where
  "to_poll InIo = False"
| "to_poll BeforeSwap = False"
| "to_poll Exited = False"
| "to_poll p = True"

definition wake_inv :: "'k eventfd \<Rightarrow> ('f, 'k) system \<Rightarrow> bool" where
  "wake_inv E s \<longleftrightarrow>
     (to_poll (phase s) \<longrightarrow> pending_functors (el s) \<noteq> [] \<longrightarrow> signalled E s) \<and>
     (phase s = InTimers \<or> phase s = InPoll \<longrightarrow> quit (el s) \<longrightarrow> signalled E s) \<and>
     (\<forall>fs. phase s = Running fs \<longrightarrow> calling_pending_functors (el s))"

lemma step_wake:
  assumes "step E False s t" "eventfd_contract E" "wake_inv E s"
  shows "wake_inv E t"
  using assms
proof (induction rule: step.induct)
  case (functor_queue s fs f)
  then show ?case by (simp add: wake_inv_def signalled_def QueueInLoop_wakes)
next
  case (io_queue s f)
  then show ?case by (simp add: wake_inv_def)
next
  case (other_push tid s f)
  then show ?case by (simp add: wake_inv_def signalled_def push_functor_def needs_wakeup_def IsInLoopThread_def)
next
  case (other_wake s n)
  then show ?case by (simp add: wake_inv_def signalled_def)
qed (auto simp: wake_inv_def signalled_def loop_ops)

lemma reachable_wake:
  assumes "reachable E False tid k s" "eventfd_contract E"
  shows "wake_inv E s"
  using assms
proof (induction rule: reachable.induct)
  case init
  then show ?case by (simp add: wake_inv_def init_system_def)
next
  case (more s t)
  then show ?case using step_wake by blast
qed

section \<open>Properties of the loop\<close>

text \<open>A concrete eventfd for the witnesses: the counter itself.\<close>

definition counter_efd :: "nat eventfd" where
  "counter_efd = \<lparr>efd_write = \<lambda>k. Inr (Suc k), efd_read = \<lambda>k. if 0 < k then Inr 0 else Inl 11,
     efd_readable = \<lambda>k. 0 < k\<rparr>"

lemma counter_efd_contract: "eventfd_contract counter_efd"
  by (simp add: eventfd_contract_def counter_efd_def)

lemma reachable_rtranclp: "(step E tq)\<^sup>*\<^sup>* s t \<Longrightarrow> reachable E tq tid k s \<Longrightarrow> reachable E tq tid k t"
  by (induction rule: rtranclp_induct) (blast intro: reachable.more)+

text \<open>A run on the counter: another thread queues functor 7 and the loop enters its poll.\<close>

definition polled_system :: "(nat, nat) system" where
  "polled_system = (init_system 1 0)
     \<lparr>el := push_functor 7 (enter_loop (el (init_system 1 0))), phase := InPoll,
      in_flight := 1, queued := [7]\<rparr>"

lemma polled_reachable: "reachable counter_efd False 1 0 polled_system"
proof -
  define s1 :: "(nat, nat) system" where
    "s1 = (init_system 1 0)\<lparr>el := enter_loop (el (init_system 1 0)), phase := LoopTest\<rparr>"
  define s2 where "s2 = s1\<lparr>phase := InTimers\<rparr>"
  define s3 where "s3 = s2\<lparr>phase := InPoll\<rparr>"
  have "reachable counter_efd False 1 0 s1" unfolding s1_def
    by (rule reachable.more [OF reachable.init step.enter]) (simp add: init_system_def)
  moreover have "step counter_efd False s1 s2" unfolding s2_def
    by (rule step.again) (simp_all add: s1_def enter_loop_def)
  moreover have "step counter_efd False s2 s3" unfolding s3_def
    by (rule step.timers_done) (simp add: s2_def)
  moreover have "polled_system = s3\<lparr>el := push_functor 7 (el s3), queued := queued s3 @ [7],
      in_flight := in_flight s3 + (if needs_wakeup 2 (push_functor 7 (el s3)) then 1 else 0)\<rparr>"
    by (simp add: polled_system_def s3_def s2_def s1_def init_system_def loop_ops)
  moreover have "2 \<noteq> thread_id (el s3)"
    by (simp add: s3_def s2_def s1_def init_system_def loop_ops)
  ultimately show ?thesis by (metis reachable.more step.other_push)
qed

text \<open>
  How far the loop thread is from running the functor at position \<open>n\<close> of the queue: seven for each
  functor before it and itself, plus the actions to the next functor of the batch.
\<close>

fun to_functor :: "'f phase \<Rightarrow> nat" where
  "to_functor (Running fs) = (if fs = [] then 6 else 0)"
| "to_functor NotStarted = 6"
| "to_functor LoopTest = 5"
| "to_functor InTimers = 4"
| "to_functor InPoll = 3"
| "to_functor InIo = 2"
| "to_functor BeforeSwap = 1"
| "to_functor Exited = 0"

definition functor_left :: "nat \<Rightarrow> ('f, 'k) system \<Rightarrow> nat" where
  "functor_left n s = 7 * (Suc n - length (executed s)) + to_functor (phase s)"

text \<open>The loop thread has a next action that is not \<open>leave\<close>.\<close>

definition keeps_going :: "('f, 'k) system \<Rightarrow> bool" where
  "keeps_going s \<longleftrightarrow> phase s \<noteq> Exited \<and> \<not> (phase s = LoopTest \<and> quit (el s))"

text \<open>
  Actions of any thread bring no functor further away; those that move the loop thread on bring it
  nearer. (A swap that finds the queue empty does not happen while the functor waits.)
\<close>

lemma step_functor_left:
  assumes "step E tq s t" "fifo_inv s" "n < length (queued s)" "length (executed s) \<le> n" "keeps_going s"
  shows "functor_left n t \<le> functor_left n s \<and> (phase t \<noteq> phase s \<longrightarrow> functor_left n t < functor_left n s)"
  using assms
proof (induction rule: step.induct)
  case (swap s fs l)
  then have "fs \<noteq> []" by (auto simp: swap_pending_def fifo_inv_def)
  then show ?case using swap by (simp add: functor_left_def)
qed (auto simp: functor_left_def keeps_going_def)

lemma loop_thread_moves:
  assumes "keeps_going s"
  shows "\<exists>t. step E tq s t \<and> phase t \<noteq> phase s \<and> (quit (el t) \<longrightarrow> quit (el s)) \<and> queued t = queued s"
proof (cases "phase s")
  case NotStarted
  then show ?thesis by (intro exI conjI, rule step.enter) (simp_all add: enter_loop_def)
next
  case LoopTest
  then have "\<not> quit (el s)" using assms by (simp add: keeps_going_def)
  with LoopTest show ?thesis by (intro exI conjI, rule step.again) simp_all
next
  case InTimers
  then show ?thesis by (intro exI conjI, rule step.timers_done) simp_all
next
  case InPoll
  then show ?thesis by (intro exI conjI, rule step.poll_return) simp_all
next
  case InIo
  then show ?thesis by (intro exI conjI, rule step.io_done) simp_all
next
  case BeforeSwap
  then show ?thesis by (intro exI conjI, rule step.swap [OF _ surjective_pairing]) (simp_all add: swap_pending_def)
next
  case (Running fs)
  show ?thesis
  proof (cases fs)
    case Nil
    with Running have "phase s = Running []" by simp
    then show ?thesis by (intro exI conjI, rule step.functors_done) (simp_all add: end_pending_def)
  next
    case (Cons f gs)
    with Running have "phase s = Running (f # gs)" by simp
    then show ?thesis by (intro exI conjI, rule step.run_functor) simp_all
  qed
next
  case Exited
  then show ?thesis using assms by (simp add: keeps_going_def)
qed

lemma step_executed:
  "step E tq s t \<Longrightarrow> executed t = executed s \<or> (\<exists>f fs. phase s = Running (f # fs) \<and> executed t = executed s @ [f])"
  by (induction rule: step.induct) auto

text \<open>While nobody makes the loop quit, running its thread reaches every functor in the queue.\<close>

lemma functor_reached:
  assumes "fifo_inv s" "\<not> quit (el s)" "phase s \<noteq> Exited" "n < length (queued s)"
  shows "\<exists>t. (step E tq)\<^sup>*\<^sup>* s t \<and> n < length (executed t)"
  using assms
proof (induction "functor_left n s" arbitrary: s rule: less_induct)
  case less
  show ?case
  proof (cases "n < length (executed s)")
    case True
    then show ?thesis by blast
  next
    case False
    have k: "keeps_going s" using less.prems(2,3) by (simp add: keeps_going_def)
    obtain t where t: "step E tq s t" "phase t \<noteq> phase s" "quit (el t) \<longrightarrow> quit (el s)" "queued t = queued s"
      using loop_thread_moves [OF k] by blast
    have "functor_left n t < functor_left n s" using step_functor_left [OF t(1) less.prems(1,4) _ k] t(2) False by simp
    moreover have "phase t \<noteq> Exited" using t(1) less.prems(2,3) by (induction rule: step.induct) auto
    ultimately obtain u where "(step E tq)\<^sup>*\<^sup>* t u" "n < length (executed u)"
      using less.hyps [of t] step_fifo [OF t(1) less.prems(1)] t(3,4) less.prems(2,4) by auto
    then show ?thesis using t(1) by (blast intro: converse_rtranclp_into_rtranclp)
  qed
qed

lemma queued_grows: "(step E tq)\<^sup>*\<^sup>* s t \<Longrightarrow> prefix (queued s) (queued t)"
proof (induction rule: rtranclp_induct)
  case (step t u)
  have "prefix (queued t) (queued u)" using step.hyps(2) by (induction rule: step.induct) auto
  then show ?case using step.IH prefix_order.trans by blast
qed simp



text \<open>
  C2. No lost wake-up. As long as timer callbacks do not queue functors or quit, the loop
  never blocks in its poller with work to do: when functors are pending or \<open>quit_\<close> is set,
  the eventfd is readable or the thread that made the request has yet to write to it.
\<close>

theorem no_lost_wakeup:
  assumes "eventfd_contract E" "reachable E False tid k s" "phase s = InPoll"
    "pending_functors (el s) \<noteq> [] \<or> quit (el s)"
  shows "efd_readable E (wake_fd (el s)) \<or> 0 < in_flight s"
  using reachable_wake [OF assms(2,1)] assms(3,4) by (auto simp: wake_inv_def signalled_def)

theorem no_lost_wakeup_witness:
  "efd_readable counter_efd (wake_fd (el polled_system)) \<or> 0 < in_flight polled_system"
proof -
  have "phase polled_system = InPoll" by (simp add: polled_system_def)
  moreover have "pending_functors (el polled_system) \<noteq> [] \<or> quit (el polled_system)"
    by (simp add: polled_system_def push_functor_def)
  ultimately show ?thesis by (rule no_lost_wakeup [OF counter_efd_contract polled_reachable])
qed

text \<open>
  A timer callback that queues a functor on its own loop is not covered: it runs in the
  loop thread outside \<open>DoPendingFunctors\<close>, so \<open>QueueInLoop\<close> does not write to the eventfd,
  and the poll comes next. The loop can block with the functor pending and no signal.
\<close>

theorem timer_functor_stranded:
  assumes "\<not> efd_readable E k"
  shows "\<exists>s. reachable E True tid k s \<and> phase s = InPoll \<and> pending_functors (el s) = [f] \<and>
    \<not> efd_readable E (wake_fd (el s)) \<and> in_flight s = 0"
proof -
  define s0 :: "('b, 'a) system" where "s0 = init_system tid k"
  define s1 where "s1 = s0\<lparr>el := enter_loop (el s0), phase := LoopTest\<rparr>"
  define s2 where "s2 = s1\<lparr>phase := InTimers\<rparr>"
  define s3 where "s3 = s2\<lparr>el := QueueInLoop E (thread_id (el s2)) f (el s2), queued := queued s2 @ [f]\<rparr>"
  define s4 where "s4 = s3\<lparr>phase := InPoll\<rparr>"
  note defs = s0_def s1_def s2_def s3_def s4_def init_system_def loop_ops
  have "step E True s0 s1" unfolding s1_def by (rule step.enter) (simp add: defs)
  moreover have "step E True s1 s2" unfolding s2_def by (rule step.again) (simp_all add: defs)
  moreover have "step E True s2 s3" unfolding s3_def by (rule step.timer_queue) (simp_all add: defs)
  moreover have "step E True s3 s4" unfolding s4_def by (rule step.timers_done) (simp add: defs)
  ultimately have "reachable E True tid k s4" using reachable.init unfolding s0_def by (metis reachable.more)
  moreover have "phase s4 = InPoll \<and> pending_functors (el s4) = [f] \<and>
      \<not> efd_readable E (wake_fd (el s4)) \<and> in_flight s4 = 0"
    using assms by (simp add: defs)
  ultimately show ?thesis by blast
qed

theorem timer_functor_stranded_witness:
  "\<exists>s. reachable counter_efd True 1 0 s \<and> phase s = InPoll \<and> pending_functors (el s) = [7::nat] \<and>
    \<not> efd_readable counter_efd (wake_fd (el s)) \<and> in_flight s = 0"
  by (rule timer_functor_stranded) (simp add: counter_efd_def)

lemma Quit_other_steps:
  assumes "tid \<noteq> thread_id (el s)" "in_flight s = 0"
  shows "(step E tq)\<^sup>*\<^sup>* s (s\<lparr>el := Quit E tid (el s)\<rparr>)"
proof -
  define s1 where "s1 = s\<lparr>el := set_quit (el s), in_flight := in_flight s + 1\<rparr>"
  have "step E tq s s1" unfolding s1_def using assms(1) by (rule step.other_quit)
  moreover have "step E tq s1 (s1\<lparr>el := Wakeup E (el s1), in_flight := 0\<rparr>)"
    by (rule step.other_wake) (simp add: s1_def assms(2))
  moreover have "s1\<lparr>el := Wakeup E (el s1), in_flight := 0\<rparr> = s\<lparr>el := Quit E tid (el s)\<rparr>"
    using assms by (simp add: s1_def Quit_def IsInLoopThread_def set_quit_def)
  ultimately show ?thesis by (metis r_into_rtranclp rtranclp_trans)
qed

lemma steps_more: "(step E tq)\<^sup>*\<^sup>* s t \<Longrightarrow> step E tq t u \<Longrightarrow> (step E tq)\<^sup>*\<^sup>* s u"
  by (rule rtranclp.rtrancl_into_rtrancl)

lemma empty_turn:
  assumes "phase s = LoopTest" "\<not> quit (el s)" "pending_functors (el s) = []" "\<not> calling_pending_functors (el s)"
  shows "(step E tq)\<^sup>*\<^sup>* s (s\<lparr>el := HandleRead E (el s), phase := InPoll\<rparr>)"
proof -
  define s1 where "s1 = s\<lparr>phase := InTimers\<rparr>"
  define s2 where "s2 = s1\<lparr>phase := InPoll\<rparr>"
  define s3 where "s3 = s2\<lparr>phase := InIo\<rparr>"
  define s4 where "s4 = s3\<lparr>el := HandleRead E (el s3)\<rparr>"
  define s5 where "s5 = s4\<lparr>phase := BeforeSwap\<rparr>"
  define s6 where "s6 = s5\<lparr>el := snd (swap_pending (el s5)), phase := Running []\<rparr>"
  define s7 where "s7 = s6\<lparr>el := end_pending (el s6), phase := LoopTest\<rparr>"
  define s8 where "s8 = s7\<lparr>phase := InTimers\<rparr>"
  note defs = s1_def s2_def s3_def s4_def s5_def s6_def s7_def s8_def swap_pending_def end_pending_def
  have t1: "step E tq s s1" unfolding s1_def using assms(1,2) by (rule step.again)
  have t2: "step E tq s1 s2" unfolding s2_def by (rule step.timers_done) (simp add: defs)
  have t3: "step E tq s2 s3" unfolding s3_def by (rule step.poll_return) (simp add: defs)
  have t4: "step E tq s3 s4" unfolding s4_def by (rule step.io_wake) (simp add: defs)
  have t5: "step E tq s4 s5" unfolding s5_def by (rule step.io_done) (simp add: defs)
  have t6: "step E tq s5 s6" unfolding s6_def by (rule step.swap) (simp_all add: defs assms)
  have t7: "step E tq s6 s7" unfolding s7_def by (rule step.functors_done) (simp add: defs)
  have t8: "step E tq s7 s8" unfolding s8_def by (rule step.again) (simp_all add: defs assms)
  have t9: "step E tq s8 (s8\<lparr>phase := InPoll\<rparr>)" by (rule step.timers_done) (simp add: s8_def)
  have "(step E tq)\<^sup>*\<^sup>* s (s8\<lparr>phase := InPoll\<rparr>)"
    using t9 t8 t7 t6 t5 t4 t3 t2 t1
    by (elim steps_more [rotated]) (rule rtranclp.rtrancl_refl)
  moreover have "s8\<lparr>phase := InPoll\<rparr> = s\<lparr>el := HandleRead E (el s), phase := InPoll\<rparr>"
    using assms(3,4) by (simp add: defs HandleRead_def split: sum.split)
  ultimately show ?thesis by simp
qed

text \<open>
  A \<open>Quit\<close> that another thread has completed before the loop thread enters \<open>Loop\<close> is
  lost: \<open>Loop\<close> starts by clearing \<open>quit_\<close>, and after one turn the loop blocks in its poller
  with \<open>quit_\<close> false and the eventfd drained. (This is the start-up window of
  \<open>EventLoopThread\<close>, whose destructor then waits for the thread for ever.)
\<close>

theorem early_quit_lost:
  assumes "eventfd_contract E" "caller \<noteq> tid"
  shows "\<exists>s t. reachable E tq tid k s \<and> el s = Quit E caller (el (init_system tid k)) \<and> quit (el s) \<and>
    in_flight s = 0 \<and> (step E tq)\<^sup>*\<^sup>* s t \<and>
    phase t = InPoll \<and> \<not> quit (el t) \<and> \<not> efd_readable E (wake_fd (el t)) \<and> in_flight t = 0"
proof -
  define s0 :: "('b, 'a) system" where "s0 = init_system tid k"
  define s where "s = s0\<lparr>el := Quit E caller (el s0)\<rparr>"
  define s1 where "s1 = s\<lparr>el := enter_loop (el s), phase := LoopTest\<rparr>"
  define t where "t = s1\<lparr>el := HandleRead E (el s1), phase := InPoll\<rparr>"
  note defs = s0_def s_def init_system_def
  have "(step E tq)\<^sup>*\<^sup>* s0 s" unfolding s_def by (rule Quit_other_steps) (simp_all add: defs assms)
  then have "reachable E tq tid k s" unfolding s0_def using reachable.init by (rule reachable_rtranclp)
  moreover have "(step E tq)\<^sup>*\<^sup>* s1 t" unfolding t_def
    by (rule empty_turn) (simp_all add: s1_def defs loop_ops)
  moreover have "step E tq s s1" unfolding s1_def by (rule step.enter) (simp add: defs)
  moreover have "\<not> efd_readable E (wake_fd (el t))"
  proof -
    have "efd_readable E (wake_fd (el s1))"
      using assms by (simp add: s1_def defs enter_loop_def Quit_def IsInLoopThread_def set_quit_def)
    then show ?thesis using assms(1) by (auto simp: t_def eventfd_contract_def HandleRead_def)
  qed
  moreover have "phase t = InPoll \<and> \<not> quit (el t) \<and> in_flight t = 0"
    "el s = Quit E caller (el (init_system tid k))" "quit (el s)" "in_flight s = 0"
    by (simp_all add: t_def s1_def defs loop_ops)
  ultimately show ?thesis by (meson converse_rtranclp_into_rtranclp)
qed

theorem early_quit_lost_witness:
  "\<exists>(s :: (nat, nat) system) t. reachable counter_efd False 1 0 s \<and>
    el s = Quit counter_efd 2 (el (init_system 1 0)) \<and> quit (el s) \<and>
    in_flight s = 0 \<and> (step counter_efd False)\<^sup>*\<^sup>* s t \<and>
    phase t = InPoll \<and> \<not> quit (el t) \<and> \<not> efd_readable counter_efd (wake_fd (el t)) \<and> in_flight t = 0"
  by (rule early_quit_lost [OF counter_efd_contract]) simp

section \<open>Properties of the operations\<close>

lemma fold_queue:
  "pending_functors (fold (QueueInLoop E tid) fs s) = pending_functors s @ fs"
  "calling_pending_functors (fold (QueueInLoop E tid) fs s) = calling_pending_functors s"
  by (induction fs arbitrary: s) simp_all

lemma fold_queue_readable:
  assumes "eventfd_contract E" "calling_pending_functors s"
  shows "fs \<noteq> [] \<or> efd_readable E (wake_fd s) \<Longrightarrow>
    efd_readable E (wake_fd (fold (QueueInLoop E tid) fs s))"
  using assms
proof (induction fs arbitrary: s)
  case (Cons f fs)
  then show ?case by (simp add: QueueInLoop_wakes)
qed simp

lemma fold_spawn:
  fixes E tid spawn
  defines "run \<equiv> \<lambda>f. fold (QueueInLoop E tid) (spawn f)"
  shows "pending_functors (fold run fs s) = pending_functors s @ concat (map spawn fs)"
    "calling_pending_functors (fold run fs s) = calling_pending_functors s"
    "eventfd_contract E \<Longrightarrow> calling_pending_functors s \<Longrightarrow>
     concat (map spawn fs) \<noteq> [] \<or> efd_readable E (wake_fd s) \<Longrightarrow>
     efd_readable E (wake_fd (fold run fs s))"
proof (induction fs arbitrary: s)
  case (Cons f fs)
  { case 1 show ?case by (simp add: Cons.IH(1)) (simp add: run_def fold_queue) }
  { case 2 show ?case by (simp add: Cons.IH(2)) (simp add: run_def fold_queue) }
  { case 3
    have c: "calling_pending_functors (run f s)" using 3 by (simp add: run_def fold_queue)
    have "concat (map spawn fs) \<noteq> [] \<or> efd_readable E (wake_fd (run f s))"
      using 3 fold_queue_readable [of E s "spawn f"] by (auto simp: run_def)
    then show ?case using Cons.IH(3) [OF 3(1) c] by simp }
qed simp_all

text \<open>
  \<open>DoPendingFunctors\<close> runs the functors that were pending when it started, in order,
  and those only: what they queue while they run (\<open>spawn\<close>) stays pending for the next turn,
  in order, the flag is clear again, and if anything was queued the loop has been woken, so
  the next poll does not block.
\<close>

theorem DoPendingFunctors_spec:
  assumes "eventfd_contract E"
  shows "let t = DoPendingFunctors (\<lambda>f. fold (QueueInLoop E (thread_id s)) (spawn f)) s in
    pending_functors t = concat (map spawn (pending_functors s)) \<and>
    \<not> calling_pending_functors t \<and>
    (pending_functors t \<noteq> [] \<longrightarrow> efd_readable E (wake_fd t))"
  using assms
  by (simp add: DoPendingFunctors_def swap_pending_def end_pending_def fold_spawn Let_def)

theorem DoPendingFunctors_spec_witness:
  "let s = push_functor 2 (push_functor 1 (el (init_system 1 (0::nat))));
       t = DoPendingFunctors (\<lambda>f. fold (QueueInLoop counter_efd (thread_id s)) (replicate f (f + 10))) s in
    pending_functors t = [11, 12, 12] \<and> \<not> calling_pending_functors t \<and>
    (pending_functors t \<noteq> [] \<longrightarrow> efd_readable counter_efd (wake_fd t))"
  using DoPendingFunctors_spec [OF counter_efd_contract,
      of "push_functor 2 (push_functor 1 (el (init_system 1 (0::nat))))" "\<lambda>f. replicate f (f + 10)"]
  by (simp add: Let_def push_functor_def init_system_def numeral_2_eq_2)

lemma GetRecentTimeout_top:
  "timers_que s = q # qs \<Longrightarrow> mem s q = Some u \<Longrightarrow> GetRecentTimeout now s = Inr (expired_time u - now)"
  by (simp add: GetRecentTimeout_def Let_def)

lemma sint_ucast_small:
  assumes "(w :: u64) < 2 ^ 31"
  shows "sint (ucast w :: cint) = uint w"
proof -
  have "uint w < 2 ^ 31" using assms by (simp add: word_less_def)
  then show ?thesis by (simp add: signed_ucast_eq signed_take_bit_int_eq_self order_trans [of _ 0])
qed

lemma uint_sub_no_borrow: "(b :: u64) \<le> a \<Longrightarrow> uint (a - b) = uint a - uint b"
  by (simp add: uint_sub_lem word_le_def)

lemma sint_nonneg_uint: "0 \<le> sint (w :: cint) \<Longrightarrow> uint w < 2 ^ 31"
proof -
  assume "0 \<le> sint w"
  then have "\<not> bit w 31" using bit_last_iff [of w] by simp
  then have "n < 31" if "bit w n" "n < 32" for n using that by (cases "n = 31") auto
  then have "take_bit 31 w = w" by (intro bit_word_eqI) (auto simp: bit_simps)
  then show ?thesis by (metis take_bit_int_less_exp unsigned_take_bit_eq)
qed

text \<open>
  C36. The timeout given to the poller, while no timer is overdue: the \<open>int\<close> that arrives is the time from
  the second clock reading to the earliest expiry, cut to 32 bits. If that time is below \<open>2^31\<close>
  milliseconds it arrives unchanged, and the poll never sleeps past a timer; from \<open>2^31\<close> to \<open>2^32 - 1\<close> it
  arrives negative, which is a poll without timeout. (An answer of \<open>- 1\<close> at the first reading is taken
  for an empty queue; it needs an expiry \<open>2^64 - 1\<close> milliseconds away.)
\<close>

theorem poll_timeout_earliest:
  assumes "tm_inv s" "mem s p = Some t" "\<forall>q u. mem s q = Some u \<longrightarrow> now2 \<le> expired_time u"
  shows "\<exists>w q u. poll_timeout now1 now2 s = Inr w \<and> mem s q = Some u \<and>
    (\<forall>r v. mem s r = Some v \<longrightarrow> uint (expired_time u) \<le> uint (expired_time v)) \<and>
    (if expired_time u - now1 = - 1 then w = kPollTimeMs
     else uint w = (uint (expired_time u) - uint now2) mod 2 ^ 32 \<and>
       (uint (expired_time u) - uint now2 < 2 ^ 31 \<longrightarrow> sint w = uint (expired_time u) - uint now2) \<and>
       (2 ^ 31 \<le> uint (expired_time u) - uint now2 \<and> uint (expired_time u) - uint now2 < 2 ^ 32 \<longrightarrow> sint w < 0))"
proof -
  from top_earliest [OF assms(1,2)] obtain q qs u where
    q: "timers_que s = q # qs" "mem s q = Some u" by blast
  let ?d = "expired_time u - now2" and ?w = "ucast (expired_time u - now2) :: cint"
  have n2: "now2 \<le> expired_time u" using assms(3) q(2) by blast
  have d: "uint ?d = uint (expired_time u) - uint now2" using n2 by (rule uint_sub_no_borrow)
  have w: "uint ?w = uint ?d mod 2 ^ 32" by (simp add: unsigned_ucast_eq take_bit_eq_mod)
  have small: "sint ?w = uint ?d" if "uint ?d < 2 ^ 31" using that by (simp add: sint_ucast_small word_less_def)
  have neg: "sint ?w < 0" if "2 ^ 31 \<le> uint ?d" "uint ?d < 2 ^ 32"
  proof -
    have "uint ?w = uint ?d" using w that by simp
    then have "\<not> uint ?w < 2 ^ 31" using that by simp
    then show ?thesis using sint_nonneg_uint [of ?w] by linarith
  qed
  have min: "uint (expired_time u) \<le> uint (expired_time v)" if "mem s r = Some v" for r v
    using top_earliest [OF assms(1) that] q by (auto simp: word_le_def)
  have "poll_timeout now1 now2 s = Inr (if expired_time u - now1 = - 1 then kPollTimeMs else ?w)"
    using q by (simp add: poll_timeout_def GetRecentTimeout_top)
  then show ?thesis using w small neg q(2) min unfolding d
    by (intro exI [of _ "if expired_time u - now1 = - 1 then kPollTimeMs else ?w"] exI [of _ q] exI [of _ u]) simp
qed

theorem poll_timeout_earliest_witness:
  "\<exists>w q u. poll_timeout 110 111 two_timers = Inr w \<and> mem two_timers q = Some u \<and>
    (\<forall>r v. mem two_timers r = Some v \<longrightarrow> uint (expired_time u) \<le> uint (expired_time v)) \<and>
    sint w = uint (expired_time u) - uint (111 :: u64)"
proof -
  have t: "mem two_timers 1 = Some (Timer_ctor 130 2 30 8 2)" by (simp add: two_timers_eq)
  have "\<forall>q u. mem two_timers q = Some u \<longrightarrow> 111 \<le> expired_time u" "\<forall>q u. mem two_timers q = Some u \<longrightarrow> expired_time u \<in> {130, 150}"
    by (simp_all add: two_timers_eq Timer_ctor_def)
  with poll_timeout_earliest [OF two_timers_inv t, of 111 110]
  obtain w q u where w: "poll_timeout 110 111 two_timers = Inr w" "mem two_timers q = Some u" "expired_time u \<in> {130, 150}"
    "\<forall>r v. mem two_timers r = Some v \<longrightarrow> uint (expired_time u) \<le> uint (expired_time v)"
    "if expired_time u - 110 = - 1 then w = kPollTimeMs
     else uint (expired_time u) - uint (111 :: u64) < 2 ^ 31 \<longrightarrow> sint w = uint (expired_time u) - uint (111 :: u64)"
    by (auto split: if_splits)
  then have "sint w = uint (expired_time u) - uint (111 :: u64)" by auto
  with w show ?thesis by blast
qed

text \<open>
  When the earliest timer is overdue by \<open>d1\<close> and then \<open>d2\<close> milliseconds at the two
  readings, the poller gets 10 seconds if \<open>d1\<close> is 1, and the negative timeout \<open>- d2\<close>
  otherwise (for \<open>epoll_wait\<close>: wait without limit); in neither case 0.
\<close>

theorem poll_timeout_overdue:
  assumes "timers_que s = p # ps" "mem s p = Some t" "expired_time t + of_nat d1 = now1"
    "expired_time t + of_nat d2 = now2" "0 < d1" "d1 \<le> d2" "d2 \<le> 2 ^ 31"
  shows "\<exists>w. poll_timeout now1 now2 s = Inr w \<and> sint w = (if d1 = 1 then 10000 else - int d2)"
proof (cases "d1 = 1")
  case True
  then have "expired_time t - now1 = - 1" using assms(3) by (simp add: algebra_simps flip: assms(3))
  then show ?thesis using assms(1,2) True
    by (simp add: poll_timeout_def GetRecentTimeout_top kPollTimeMs_def)
next
  case False
  have e: "expired_time t - now1 = - of_nat d1" "expired_time t - now2 = - of_nat d2"
    by (simp_all flip: assms(3,4))
  have "(of_nat d1 :: u64) \<noteq> 1"
  proof
    assume "(of_nat d1 :: u64) = 1"
    then have "unat (of_nat d1 :: u64) = 1" by simp
    moreover have "unat (of_nat d1 :: u64) = d1" using assms(6,7) by (simp add: unat_of_nat)
    ultimately show False using False by simp
  qed
  then have "expired_time t - now1 \<noteq> - 1" using e by simp
  then have w: "poll_timeout now1 now2 s = Inr (ucast (- (of_nat d2 :: u64)))"
    using assms(1,2) e by (simp add: poll_timeout_def GetRecentTimeout_top)
  have "(- (of_nat d2 :: u64)) = word_of_int (- int d2)" by simp
  then have "sint (ucast (- (of_nat d2 :: u64)) :: cint) = signed_take_bit 31 (- int d2)"
    by (simp only: signed_ucast_eq unsigned_of_int) (simp add: signed_of_int signed_take_bit_take_bit)
  then have "sint (ucast (- (of_nat d2 :: u64)) :: cint) = - int d2"
    using assms(7) by (simp add: signed_take_bit_int_eq_self)
  then show ?thesis using w False by simp
qed

theorem poll_timeout_overdue_witness: "\<exists>w. poll_timeout 132 133 two_timers = Inr w \<and> sint w = - 3"
proof -
  have q: "timers_que two_timers = 1 # [0]" "mem two_timers 1 = Some (Timer_ctor 130 2 30 8 2)"
    by (simp_all add: two_timers_eq)
  show ?thesis using poll_timeout_overdue [OF q, of 2 132 3 133] by (simp add: Timer_ctor_def)
qed

end
