(* ===== verification/Event_Loop_Thread.thy ===== *)
theory Event_Loop_Thread
  imports Event_Loop
begin

text \<open>
  \<open>CurrentThread\<close>, \<open>Thread\<close> and \<open>EventLoopThread\<close> (\<^verbatim>\<open>src/current_thread.cc\<close>, \<^verbatim>\<open>src/thread.cc\<close>,
  \<^verbatim>\<open>src/event_loop_thread.cc\<close>): caching of the thread id, the wrapper of \<open>std::thread\<close>, and the
  protocol by which a thread is started, builds its loop, publishes it, runs it and is
  brought down by the destructor. The two threads of the protocol are a step relation; the
  loop the new thread runs is the one of \<open>Event_Loop\<close>, moved by that theory's own steps.
\<close>

section \<open>The current thread\<close>

text \<open>The thread-local cache, with the number of \<open>gettid\<close> calls made; \<open>tid\<close> is what the call returns.\<close>

record tls =
  t_cached_tid :: cint
  gettid_calls :: nat

definition CacheTid :: "cint \<Rightarrow> tls \<Rightarrow> tls" where
  "CacheTid tid c =
     (if t_cached_tid c = 0 then c\<lparr>t_cached_tid := tid, gettid_calls := gettid_calls c + 1\<rparr> else c)"

definition Tid :: "cint \<Rightarrow> tls \<Rightarrow> cint \<times> tls" where
  "Tid tid c = (let c1 = (if t_cached_tid c = 0 then CacheTid tid c else c) in (t_cached_tid c1, c1))"

definition TidAsString :: "cint \<Rightarrow> tls \<Rightarrow> string \<times> tls" where
  "TidAsString tid c = (let (t, c1) = Tid tid c in (int_to_string (sint t), c1))"

definition tls_init :: tls where
  "tls_init = \<lparr>t_cached_tid = 0, gettid_calls = 0\<rparr>"

text \<open>However often a thread asks for its id, it gets the kernel's answer and asks the kernel once.\<close>

lemma Tid_cached:
  assumes "tid \<noteq> 0"
  shows "\<exists>c. ((\<lambda>c. snd (Tid tid c)) ^^ Suc n) tls_init = c \<and> fst (Tid tid c) = tid \<and> gettid_calls c = 1"
proof -
  have "((\<lambda>c. snd (Tid tid c)) ^^ Suc n) tls_init = \<lparr>t_cached_tid = tid, gettid_calls = 1\<rparr>"
    using assms by (induction n) (simp_all add: Tid_def CacheTid_def tls_init_def Let_def)
  then show ?thesis using assms by (simp add: Tid_def)
qed

section \<open>Threads\<close>

datatype thread_handle = NoThread | Joinable | Joined | Detached

record thread_obj =
  th_tid :: cint
  th_name :: string
  th_joined :: bool
  th_started :: bool
  th_handle :: thread_handle

text \<open>\<open>snprintf\<close> into 32 bytes; the counter \<open>num_created_\<close> is atomic.\<close>

definition SetDefaultName :: "string \<Rightarrow> cint \<Rightarrow> string \<times> cint" where
  "SetDefaultName name num_created =
     (let num = num_created + 1 in
      (if name = [] then take 31 (''Thread '' @ int_to_string (sint num)) else name, num))"

definition Thread_ctor :: "string \<Rightarrow> cint \<Rightarrow> thread_obj \<times> cint" where
  "Thread_ctor name num_created =
     (let (nm, num) = SetDefaultName name num_created in
      (\<lparr>th_tid = 0, th_name = nm, th_joined = False, th_started = False, th_handle = NoThread\<rparr>, num))"

text \<open>
  The part of \<open>Start\<close> before the wait on the semaphore. Assigning over a joinable
  \<open>std::thread\<close> destroys it, which terminates the program.
\<close>

definition Thread_Start :: "thread_obj \<Rightarrow> thread_obj res" where
  "Thread_Start t =
     (if th_handle t = Joinable then Inl Fatal else Inr (t\<lparr>th_started := True, th_handle := Joinable\<rparr>))"

definition Thread_Join :: "thread_obj \<Rightarrow> thread_obj res" where
  "Thread_Join t =
     (let t1 = t\<lparr>th_joined := True\<rparr> in
      case th_handle t1 of
        NoThread \<Rightarrow> Inl NullDeref
      | Joinable \<Rightarrow> Inr (t1\<lparr>th_handle := Joined\<rparr>)
      | _ \<Rightarrow> Inl Fatal)"

text \<open>The destructor, with that of the \<open>std::thread\<close> it owns: a joinable one terminates the program.\<close>

definition Thread_dtor :: "thread_obj \<Rightarrow> thread_obj res" where
  "Thread_dtor t =
     res_bind
       (if th_started t \<and> \<not> th_joined t
        then case th_handle t of
            NoThread \<Rightarrow> Inl NullDeref
          | Joinable \<Rightarrow> Inr (t\<lparr>th_handle := Detached\<rparr>)
          | _ \<Rightarrow> Inl Fatal
        else Inr t)
       (\<lambda>t1. if th_handle t1 = Joinable then Inl Fatal else Inr t1)"

lemma Thread_lifecycle:
  fixes name num_created
  defines "t \<equiv> fst (Thread_ctor name num_created)"
  shows "\<exists>r. Thread_dtor t = Inr r"
    and "\<exists>u. Thread_Start t = Inr u \<and> (\<exists>r. Thread_dtor u = Inr r \<and> th_handle r = Detached) \<and>
      (\<exists>v. Thread_Join u = Inr v \<and> (\<exists>r. Thread_dtor v = Inr r \<and> th_handle r = Joined))"
    and "Thread_Join t = Inl NullDeref"
  by (simp_all add: t_def Thread_ctor_def Thread_dtor_def Thread_Start_def Thread_Join_def Let_def
      split: prod.split)

text \<open>Default names are never truncated and never repeated while the counter does not wrap.\<close>

lemma int_to_string_cint_length: "length (int_to_string (sint (w :: cint))) \<le> 11"
proof -
  have b: "- (2 ^ 31) \<le> sint w" "sint w < 2 ^ 31"
    using sint_range_size [of w] by (simp_all add: word_size)
  then have "nat \<bar>sint w\<bar> < 10 ^ 10" by simp
  then have "length (nat_digits (nat \<bar>sint w\<bar>)) \<le> 10" by (rule length_nat_digits) simp
  then show ?thesis by (auto simp: int_to_string_def)
qed

lemma default_names_distinct: "fst (SetDefaultName [] m) = fst (SetDefaultName [] n) \<longleftrightarrow> m = n"
proof -
  have "take 31 (''Thread '' @ int_to_string (sint w)) = ''Thread '' @ int_to_string (sint w)" for w :: cint
    using int_to_string_cint_length [of w] by simp
  then have "fst (SetDefaultName [] m) = fst (SetDefaultName [] n) \<longleftrightarrow> sint (m + 1) = sint (n + 1)"
    by (simp add: SetDefaultName_def Let_def)
  moreover have "m + 1 = n + 1" if "sint (m + 1) = sint (n + 1)"
    using arg_cong [OF that, of "of_int :: int \<Rightarrow> cint"] by simp
  ultimately show ?thesis by auto
qed

section \<open>The protocol of an event loop thread\<close>

text \<open>
  The owner: not started, in the wait on the semaphore, at the test of \<open>loop_\<close>, in the wait on
  \<open>cond_\<close>, notified, returned from \<open>StartLoop\<close>; then in the destructor after \<open>exiting_ = true\<close>, about
  to call \<open>Quit\<close>, between its store to \<open>quit_\<close> and its wake-up, in \<open>Join\<close>, done, or in a fault.
  The new thread: not running, about to store its id, to post the semaphore, to construct the
  loop, to call the init callback, to publish the loop; running it; with \<open>loop_\<close> cleared and the
  mutex held; past the unlock; ended; or in a fault.
\<close>

datatype owner_pc = OIdle | OSem | OTest | OWaiting | ONotified | OReturned
  | ODtor | OQuit | OWake | OJoin | ODone | OFault fault

datatype child_pc = CNone | CTid | CPost | CMake | CInit | CPublish | CRun | CUnlock | CDestroy | CGone
  | CFault fault

text \<open>
  \<open>loop_set\<close> is \<open>loop_ != nullptr\<close>; the pointer can only be to the local \<open>loop\<close> of \<open>ThreadFunc\<close>, which
  is \<open>lp\<close> while it exists.
\<close>

record ('f, 'k) elt =
  thr :: thread_obj
  exiting :: bool
  loop_set :: bool
  sem :: nat
  opc :: owner_pc
  cpc :: child_pc
  lp :: "('f, 'k) system option"
  init_ran :: bool

definition EventLoopThread_ctor :: "string \<Rightarrow> cint \<Rightarrow> ('f, 'k) elt" where
  "EventLoopThread_ctor name num_created =
     \<lparr>thr = fst (Thread_ctor name num_created), exiting = False, loop_set = False, sem = 0,
      opc = OIdle, cpc = CNone, lp = None, init_ran = False\<rparr>"

text \<open>
  Steps of \<open>StartLoop\<close> in the owner and of the new thread up to its loop. \<open>notify_one\<close> under the
  mutex reaches the owner if it waits.
\<close>

inductive start_step :: "cint \<Rightarrow> 'k \<Rightarrow> ('f, 'k) elt \<Rightarrow> ('f, 'k) elt \<Rightarrow> bool" for tid k where
  thread_start: "opc s = OIdle \<Longrightarrow> Thread_Start (thr s) = Inr t \<Longrightarrow>
    start_step tid k s (s\<lparr>thr := t, opc := OSem, cpc := CTid\<rparr>)"
| store_tid: "cpc s = CTid \<Longrightarrow>
    start_step tid k s (s\<lparr>thr := (thr s)\<lparr>th_tid := fst (Tid tid tls_init)\<rparr>, cpc := CPost\<rparr>)"
| post: "cpc s = CPost \<Longrightarrow> start_step tid k s (s\<lparr>sem := sem s + 1, cpc := CMake\<rparr>)"
| sem_wait: "opc s = OSem \<Longrightarrow> sem s = Suc n \<Longrightarrow> start_step tid k s (s\<lparr>sem := n, opc := OTest\<rparr>)"
| make_loop: "cpc s = CMake \<Longrightarrow>
    start_step tid k s (s\<lparr>lp := Some (init_system (sint tid) k), cpc := CInit\<rparr>)"
| init_callback: "cpc s = CInit \<Longrightarrow> start_step tid k s (s\<lparr>init_ran := True, cpc := CPublish\<rparr>)"
| publish: "cpc s = CPublish \<Longrightarrow>
    start_step tid k s (s\<lparr>loop_set := True, cpc := CRun, opc := (if opc s = OWaiting then ONotified else opc s)\<rparr>)"
| test_set: "opc s = OTest \<Longrightarrow> loop_set s \<Longrightarrow> start_step tid k s (s\<lparr>opc := OReturned\<rparr>)"
| test_null: "opc s = OTest \<Longrightarrow> \<not> loop_set s \<Longrightarrow> start_step tid k s (s\<lparr>opc := OWaiting\<rparr>)"
| wake_owner: "opc s = ONotified \<Longrightarrow> start_step tid k s (s\<lparr>opc := OTest\<rparr>)"

text \<open>
  Steps of the loop: its own, in \<open>Loop\<close>, and those of other threads that hold a pointer to it
  (from the init callback on). \<open>early\<close> says whether it may be made to quit before \<open>StartLoop\<close>
  has returned.
\<close>

definition starting :: "('f, 'k) elt \<Rightarrow> bool" where
  "starting s \<longleftrightarrow> opc s \<in> {OIdle, OSem, OTest, OWaiting, ONotified}"

inductive run_step :: "'k eventfd \<Rightarrow> bool \<Rightarrow> bool \<Rightarrow> ('f, 'k) elt \<Rightarrow> ('f, 'k) elt \<Rightarrow> bool" for E tq early where
  loop_step: "lp s = Some l \<Longrightarrow> step E tq l m \<Longrightarrow> cpc s = CRun \<or> phase m = NotStarted \<Longrightarrow>
    early \<or> \<not> starting s \<or> \<not> quit (el m) \<Longrightarrow>
    run_step E tq early s (s\<lparr>lp := Some m\<rparr>)"
| spurious: "opc s = OWaiting \<Longrightarrow> run_step E tq early s (s\<lparr>opc := OTest\<rparr>)"

text \<open>Steps after the loop has left \<open>Loop\<close>, and of the destructor.\<close>

inductive end_step :: "'k eventfd \<Rightarrow> ('f, 'k) elt \<Rightarrow> ('f, 'k) elt \<Rightarrow> bool" for E where
  clear_loop: "cpc s = CRun \<Longrightarrow> lp s = Some l \<Longrightarrow> phase l = Exited \<Longrightarrow>
    end_step E s (s\<lparr>loop_set := False, cpc := CUnlock\<rparr>)"
| unlock: "cpc s = CUnlock \<Longrightarrow>
    end_step E s (s\<lparr>cpc := (if opc s = ODone then CFault UseAfterFree else CDestroy)\<rparr>)"
| destroy_loop: "cpc s = CDestroy \<Longrightarrow> end_step E s (s\<lparr>lp := None, cpc := CGone\<rparr>)"
| dtor: "opc s = OReturned \<Longrightarrow> end_step E s (s\<lparr>exiting := True, opc := ODtor\<rparr>)"
| dtor_null: "opc s = ODtor \<Longrightarrow> \<not> loop_set s \<Longrightarrow> Thread_dtor (thr s) = Inr t \<Longrightarrow>
    end_step E s (s\<lparr>thr := t, opc := ODone\<rparr>)"
| dtor_set: "opc s = ODtor \<Longrightarrow> loop_set s \<Longrightarrow> end_step E s (s\<lparr>opc := OQuit\<rparr>)"
| dtor_quit: "opc s = OQuit \<Longrightarrow> loop_set s \<Longrightarrow> lp s = Some l \<Longrightarrow>
    end_step E s (s\<lparr>lp := Some (l\<lparr>el := set_quit (el l), in_flight := in_flight l + 1\<rparr>), opc := OWake\<rparr>)"
| dtor_quit_null: "opc s = OQuit \<Longrightarrow> \<not> loop_set s \<Longrightarrow> end_step E s (s\<lparr>opc := OFault NullDeref\<rparr>)"
| dtor_wake: "opc s = OWake \<Longrightarrow> lp s = Some l \<Longrightarrow> in_flight l = Suc n \<Longrightarrow>
    end_step E s (s\<lparr>lp := Some (l\<lparr>el := Wakeup E (el l), in_flight := n\<rparr>), opc := OJoin\<rparr>)"
| dtor_wake_dead: "opc s = OWake \<Longrightarrow> lp s = None \<Longrightarrow> end_step E s (s\<lparr>opc := OFault UseAfterFree\<rparr>)"
| dtor_join: "opc s = OJoin \<Longrightarrow> cpc s = CGone \<Longrightarrow> Thread_Join (thr s) = Inr t \<Longrightarrow> Thread_dtor t = Inr u \<Longrightarrow>
    end_step E s (s\<lparr>thr := u, opc := ODone\<rparr>)"

definition elt_step :: "cint \<Rightarrow> 'k \<Rightarrow> 'k eventfd \<Rightarrow> bool \<Rightarrow> bool \<Rightarrow> ('f, 'k) elt \<Rightarrow> ('f, 'k) elt \<Rightarrow> bool" where
  "elt_step tid k E tq early s t \<longleftrightarrow> start_step tid k s t \<or> run_step E tq early s t \<or> end_step E s t"

inductive elt_reachable ::
  "cint \<Rightarrow> 'k \<Rightarrow> 'k eventfd \<Rightarrow> bool \<Rightarrow> bool \<Rightarrow> ('f, 'k) elt \<Rightarrow> bool" for tid k E tq early where
  elt_made: "elt_reachable tid k E tq early (EventLoopThread_ctor name num_created)"
| elt_more: "elt_reachable tid k E tq early s \<Longrightarrow> elt_step tid k E tq early s t \<Longrightarrow> elt_reachable tid k E tq early t"

inductive_cases start_stepE: "start_step tid k s t"
inductive_cases run_stepE: "run_step E tq early s t"
inductive_cases end_stepE: "end_step E s t"

section \<open>Invariant\<close>

text \<open>
  What is known of the object at each place of the new thread: before the loop exists, while
  it exists, while it is published, and at the end.
\<close>

definition pc_inv :: "cint \<Rightarrow> ('f, 'k) elt \<Rightarrow> bool" where
  "pc_inv tid s \<longleftrightarrow>
     (opc s = OIdle \<longleftrightarrow> cpc s = CNone) \<and>
     (sem s = (if opc s = OSem \<and> cpc s \<notin> {CNone, CTid, CPost} then 1 else 0)) \<and>
     (cpc s \<in> {CTid, CPost} \<longrightarrow> opc s = OSem) \<and>
     (cpc s \<notin> {CNone, CTid} \<longrightarrow> th_tid (thr s) = tid) \<and>
     (loop_set s \<longleftrightarrow> cpc s = CRun) \<and>
     (init_ran s \<longleftrightarrow> cpc s \<notin> {CNone, CTid, CPost, CMake, CInit}) \<and>
     (opc s = OWaiting \<longrightarrow> cpc s \<noteq> CRun) \<and>
     (\<not> starting s \<longrightarrow> init_ran s) \<and>
     (opc s = ONotified \<longrightarrow> init_ran s) \<and>
     (\<forall>f. cpc s = CFault f \<longrightarrow> opc s = ODone)"

definition thr_inv :: "('f, 'k) elt \<Rightarrow> bool" where
  "thr_inv s \<longleftrightarrow>
     (opc s = OIdle \<longrightarrow> th_handle (thr s) = NoThread \<and> \<not> th_joined (thr s)) \<and>
     (opc s \<notin> {OIdle, ODone} \<longrightarrow> th_handle (thr s) = Joinable \<and> th_started (thr s) \<and> \<not> th_joined (thr s))"

definition lp_inv :: "cint \<Rightarrow> 'k \<Rightarrow> 'k eventfd \<Rightarrow> bool \<Rightarrow> ('f, 'k) elt \<Rightarrow> bool" where
  "lp_inv tid k E tq s \<longleftrightarrow>
     (case lp s of
        None \<Rightarrow> cpc s \<in> {CNone, CTid, CPost, CMake, CGone}
      | Some l \<Rightarrow> cpc s \<notin> {CNone, CTid, CPost, CMake, CGone} \<and> reachable E tq (sint tid) k l \<and>
          (cpc s \<in> {CInit, CPublish} \<longrightarrow> phase l = NotStarted))"

text \<open>Without an early quit the loop runs until \<open>StartLoop\<close> has returned.\<close>

definition early_inv :: "('f, 'k) elt \<Rightarrow> bool" where
  "early_inv s \<longleftrightarrow> (starting s \<longrightarrow> cpc s \<notin> {CUnlock, CDestroy, CGone} \<and>
     (case lp s of None \<Rightarrow> True | Some l \<Rightarrow> \<not> quit (el l) \<and> phase l \<noteq> Exited))"

lemma step_exited: "step E tq l m \<Longrightarrow> phase m = Exited \<Longrightarrow> phase l = Exited \<or> quit (el m)"
  by (induction rule: step.induct) (auto simp: leave_loop_def)

lemma other_thread: "\<exists>t. t \<noteq> thread_id (l :: ('f, 'k) event_loop)"
  by (rule exI [of _ "thread_id l + 1"]) simp

lemma reachable_other_quit:
  "reachable E tq tid k l \<Longrightarrow> reachable E tq tid k (l\<lparr>el := set_quit (el l), in_flight := Suc (in_flight l)\<rparr>)"
  using other_thread [of "el l"] step.other_quit [of _ l E tq] by (auto intro: reachable.more)

lemma reachable_other_wake:
  "reachable E tq tid k l \<Longrightarrow> in_flight l = Suc n \<Longrightarrow> reachable E tq tid k (l\<lparr>el := Wakeup E (el l), in_flight := n\<rparr>)"
  by (blast intro: reachable.more step.other_wake)

lemma Thread_dtor_tid: "Thread_dtor t = Inr u \<Longrightarrow> th_tid u = th_tid t"
  by (auto simp: Thread_dtor_def res_bind_eq_Inr split: if_splits thread_handle.splits)

lemma Thread_Join_tid: "Thread_Join t = Inr u \<Longrightarrow> th_tid u = th_tid t"
  by (auto simp: Thread_Join_def Let_def split: thread_handle.splits)

lemma elt_step_pc_inv:
  assumes "elt_step tid k E tq early s t" "pc_inv tid s"
  shows "pc_inv tid t"
proof -
  have "pc_inv tid t" if "start_step tid k s t"
    using that assms(2) by cases (auto simp: pc_inv_def starting_def Tid_def CacheTid_def tls_init_def split: if_splits)
  moreover have "pc_inv tid t" if "run_step E tq early s t"
    using that assms(2) by cases (auto simp: pc_inv_def starting_def split: if_splits)
  moreover have "pc_inv tid t" if "end_step E s t"
    using that assms(2)
    by cases (auto simp: pc_inv_def starting_def split: if_splits dest!: Thread_dtor_tid Thread_Join_tid)
  ultimately show ?thesis using assms(1) unfolding elt_step_def by blast
qed

lemma elt_step_thr_inv:
  assumes "elt_step tid k E tq early s t" "thr_inv s"
  shows "thr_inv t"
proof -
  have "thr_inv t" if "start_step tid k s t"
    using that assms(2) by cases (auto simp: thr_inv_def Thread_Start_def split: if_splits)
  moreover have "thr_inv t" if "run_step E tq early s t"
    using that assms(2) by cases (auto simp: thr_inv_def)
  moreover have "thr_inv t" if "end_step E s t"
    using that assms(2) by cases (auto simp: thr_inv_def)
  ultimately show ?thesis using assms(1) unfolding elt_step_def by blast
qed

lemma elt_step_lp_inv:
  assumes "elt_step tid k E tq early s t" "lp_inv tid k E tq s" "pc_inv tid s"
  shows "lp_inv tid k E tq t"
proof -
  have "lp_inv tid k E tq t" if "start_step tid k s t"
    using that assms(2,3) reachable.init [of E tq "sint tid" k]
    by cases (auto simp: lp_inv_def pc_inv_def init_system_def split: option.splits if_splits)
  moreover have "lp_inv tid k E tq t" if "run_step E tq early s t"
    using that assms(2) by cases (auto simp: lp_inv_def intro: reachable.more split: option.splits)
  moreover have "lp_inv tid k E tq t" if "end_step E s t"
    using that assms(2)
    by cases (auto simp: lp_inv_def split: option.splits intro: reachable_other_quit reachable_other_wake)
  ultimately show ?thesis using assms(1) unfolding elt_step_def by blast
qed

lemma elt_step_early_inv:
  assumes "elt_step tid k E tq False s t" "early_inv s" "pc_inv tid s"
  shows "early_inv t"
proof -
  have "early_inv t" if "start_step tid k s t"
    using that assms(2,3)
    by cases (auto simp: early_inv_def pc_inv_def starting_def init_system_def split: option.splits if_splits)
  moreover have "early_inv t" if "run_step E tq False s t"
    using that assms(2)
    by cases (auto simp: early_inv_def starting_def split: option.splits dest: step_exited)
  moreover have "early_inv t" if "end_step E s t"
    using that assms(2) by cases (auto simp: early_inv_def starting_def split: option.splits)
  ultimately show ?thesis using assms(1) unfolding elt_step_def by blast
qed

lemma elt_reachable_inv:
  assumes "elt_reachable tid k E tq early s"
  shows "pc_inv tid s" "thr_inv s" "lp_inv tid k E tq s" "\<not> early \<Longrightarrow> early_inv s"
proof -
  have "pc_inv tid s \<and> thr_inv s \<and> lp_inv tid k E tq s \<and> (\<not> early \<longrightarrow> early_inv s)"
    using assms
  proof (induction rule: elt_reachable.induct)
    case (elt_made name num_created)
    then show ?case
      by (simp add: pc_inv_def thr_inv_def lp_inv_def early_inv_def EventLoopThread_ctor_def Thread_ctor_def
          starting_def Let_def split: prod.split)
  next
    case (elt_more s t)
    then show ?case
      using elt_step_pc_inv elt_step_thr_inv elt_step_lp_inv elt_step_early_inv by metis
  qed
  then show "pc_inv tid s" "thr_inv s" "lp_inv tid k E tq s" "\<not> early \<Longrightarrow> early_inv s" by blast+
qed

lemmas start_more = elt_more [unfolded elt_step_def, OF _ disjI1]
lemmas run_more = elt_more [unfolded elt_step_def, OF _ disjI2, OF _ disjI1]
lemmas end_more = elt_more [unfolded elt_step_def, OF _ disjI2, OF _ disjI2]

section \<open>Properties\<close>

text \<open>The owner returns only after it has seen the loop, which the new thread has published by then.\<close>

lemma return_published:
  assumes "elt_reachable tid k E tq early s" "elt_step tid k E tq early s t" "opc s \<noteq> OReturned" "opc t = OReturned"
  shows "\<exists>l. lp t = Some l \<and> reachable E tq (sint tid) k l \<and> loop_set t \<and> init_ran t \<and> th_tid (thr t) = tid"
proof -
  note t = elt_reachable_inv(1,3) [OF elt_more [OF assms(1,2)]]
  have "loop_set t"
    using assms(2) unfolding elt_step_def
  proof (elim disjE)
    assume "start_step tid k s t"
    then show ?thesis using assms(3,4) by cases (auto split: if_splits)
  next
    assume "run_step E tq early s t"
    then show ?thesis using assms(3,4) by cases auto
  next
    assume "end_step E s t"
    then show ?thesis using assms(3,4) by cases auto
  qed
  moreover from this have "cpc t = CRun" using t(1) by (simp add: pc_inv_def)
  ultimately show ?thesis using t by (auto simp: pc_inv_def lp_inv_def split: option.splits)
qed

text \<open>
  C21. What \<open>StartLoop\<close> returns is a live loop: at the moment it returns, under every
  interleaving, the pointer designates a loop that exists, is in a state the event loop can
  reach from its construction in the new thread (so that the theorems on the event loop apply to
  it), is published, has been shown to the init callback, and \<open>tid_\<close> is the id of its thread.
\<close>

theorem start_loop_safe:
  assumes "elt_reachable tid k E tq early s" "elt_step tid k E tq early s t" "opc s \<noteq> OReturned" "opc t = OReturned"
  shows "\<exists>l. lp t = Some l \<and> reachable E tq (sint tid) k l \<and> loop_set t \<and> init_ran t \<and> th_tid (thr t) = tid"
  using assms by (rule return_published)

text \<open>A run of \<open>StartLoop\<close> in which the owner waits until the loop is published.\<close>

definition started_thread :: "thread_obj" where
  "started_thread = \<lparr>th_tid = 7, th_name = ''io'', th_joined = False, th_started = True, th_handle = Joinable\<rparr>"

definition fresh_elt :: "owner_pc \<Rightarrow> ('f, 'k) system \<Rightarrow> ('f, 'k) elt" where
  "fresh_elt pc l = \<lparr>thr = started_thread, exiting = False, loop_set = True, sem = 0, opc = pc, cpc = CRun,
     lp = Some l, init_ran = True\<rparr>"

lemma started_reachable:
  fixes k :: 'k
  shows "elt_reachable 7 k E tq early (fresh_elt OTest (init_system 7 k) :: ('f, 'k) elt)"
proof -
  let ?c = "EventLoopThread_ctor ''io'' 0 :: ('f, 'k) elt"
  define s1 where "s1 = ?c\<lparr>thr := (thr ?c)\<lparr>th_started := True, th_handle := Joinable\<rparr>, opc := OSem, cpc := CTid\<rparr>"
  define s2 where "s2 = s1\<lparr>thr := (thr s1)\<lparr>th_tid := fst (Tid 7 tls_init)\<rparr>, cpc := CPost\<rparr>"
  define s3 where "s3 = s2\<lparr>sem := sem s2 + 1, cpc := CMake\<rparr>"
  define s4 where "s4 = s3\<lparr>lp := Some (init_system (sint (7 :: cint)) k), cpc := CInit\<rparr>"
  define s5 where "s5 = s4\<lparr>init_ran := True, cpc := CPublish\<rparr>"
  define s6 where "s6 = s5\<lparr>loop_set := True, cpc := CRun, opc := (if opc s5 = OWaiting then ONotified else opc s5)\<rparr>"
  define s7 where "s7 = s6\<lparr>sem := 0, opc := OTest\<rparr>"
  note defs = s1_def s2_def s3_def s4_def s5_def s6_def s7_def
  have "elt_reachable 7 k E tq early s1" unfolding s1_def
    by (rule start_more [OF elt_made [of _ _ _ _ _ "''io''" 0] start_step.thread_start])
      (simp_all add: EventLoopThread_ctor_def Thread_ctor_def Thread_Start_def SetDefaultName_def Let_def)
  then have "elt_reachable 7 k E tq early s2" unfolding s2_def
    by (rule start_more [OF _ start_step.store_tid]) (simp add: defs)
  then have "elt_reachable 7 k E tq early s3" unfolding s3_def
    by (rule start_more [OF _ start_step.post]) (simp add: defs)
  then have "elt_reachable 7 k E tq early s4" unfolding s4_def
    by (rule start_more [OF _ start_step.make_loop]) (simp add: defs)
  then have "elt_reachable 7 k E tq early s5" unfolding s5_def
    by (rule start_more [OF _ start_step.init_callback]) (simp add: defs)
  then have "elt_reachable 7 k E tq early s6" unfolding s6_def
    by (rule start_more [OF _ start_step.publish]) (simp add: defs)
  then have "elt_reachable 7 k E tq early s7" unfolding s7_def
    by (rule start_more [OF _ start_step.sem_wait]) (simp_all add: defs EventLoopThread_ctor_def)
  moreover have "s7 = fresh_elt OTest (init_system 7 k)"
    by (simp add: defs fresh_elt_def started_thread_def EventLoopThread_ctor_def Thread_ctor_def SetDefaultName_def
        Tid_def CacheTid_def tls_init_def Let_def)
  ultimately show ?thesis by simp
qed

lemma returned_reachable: "elt_reachable 7 k E tq early (fresh_elt OReturned (init_system 7 k))"
proof -
  have "start_step 7 k (fresh_elt OTest (init_system 7 k)) ((fresh_elt OTest (init_system 7 k))\<lparr>opc := OReturned\<rparr>)"
    by (rule start_step.test_set) (simp_all add: fresh_elt_def)
  from start_more [OF started_reachable this] show ?thesis by (simp add: fresh_elt_def)
qed

theorem start_loop_safe_witness:
  "\<exists>l. lp (fresh_elt OReturned (init_system 7 0) :: (nat, nat) elt) = Some l \<and> reachable counter_efd True (sint (7 :: cint)) 0 l \<and>
     th_tid (thr (fresh_elt OReturned (init_system 7 0) :: (nat, nat) elt)) = 7"
proof -
  let ?s = "fresh_elt OTest (init_system 7 0) :: (nat, nat) elt"
  have "elt_step 7 0 counter_efd True True ?s (?s\<lparr>opc := OReturned\<rparr>)"
    unfolding elt_step_def by (rule disjI1, rule start_step.test_set) (simp_all add: fresh_elt_def)
  then have "elt_step 7 0 counter_efd True True ?s (fresh_elt OReturned (init_system 7 0))" by (simp add: fresh_elt_def)
  from start_loop_safe [OF started_reachable this] show ?thesis by (auto simp: fresh_elt_def)
qed

text \<open>How far \<open>StartLoop\<close> is from its return: what the new thread and what the owner still have to do.\<close>

fun child_left :: "child_pc \<Rightarrow> nat" where
  "child_left CNone = 7" | "child_left CTid = 6" | "child_left CPost = 5" | "child_left CMake = 4"
| "child_left CInit = 3" | "child_left CPublish = 2" | "child_left _ = 0"

fun owner_left :: "owner_pc \<Rightarrow> nat" where
  "owner_left OIdle = 6" | "owner_left OSem = 5" | "owner_left ONotified = 4" | "owner_left OTest = 3"
| "owner_left OWaiting = 2" | "owner_left _ = 0"

definition start_measure :: "('f, 'k) elt \<Rightarrow> nat" where
  "start_measure s = 3 * child_left (cpc s) + owner_left (opc s)"

lemma pc_invD:
  assumes "pc_inv tid s"
  shows "opc s = OIdle \<Longrightarrow> cpc s = CNone" "cpc s = CFault f \<Longrightarrow> opc s = ODone"
    "opc s = OSem \<Longrightarrow> cpc s = CTid \<or> cpc s = CPost \<or> sem s = Suc 0"
    "opc s = OWaiting \<Longrightarrow> cpc s \<notin> {CNone, CTid, CPost, CRun}"
  using assms by (simp_all add: pc_inv_def)

lemma start_step_decreases:
  assumes "start_step tid k s t" "pc_inv tid s"
  shows "start_measure t < start_measure s"
  using assms(1) by cases (use pc_invD(1) [OF assms(2)] in \<open>simp_all add: start_measure_def\<close>)

lemma start_step_enabled:
  assumes "elt_reachable tid k E tq False s" "starting s"
  shows "\<exists>t. start_step tid k s t"
proof -
  note inv = elt_reachable_inv [OF assms(1)]
  have no_fault: "cpc s \<noteq> CFault f" for f using pc_invD(2) [OF inv(1)] assms(2) by (auto simp: starting_def)
  consider "opc s = OIdle" | "opc s = OSem" | "opc s = OTest" | "opc s = ONotified" | "opc s = OWaiting"
    using assms(2) by (auto simp: starting_def)
  then show ?thesis
  proof cases
    case 1
    then have "Thread_Start (thr s) = Inr ((thr s)\<lparr>th_started := True, th_handle := Joinable\<rparr>)"
      using inv(2) by (simp add: thr_inv_def Thread_Start_def)
    from start_step.thread_start [OF 1 this] show ?thesis by blast
  next
    case 2
    then have "cpc s = CTid \<or> cpc s = CPost \<or> sem s = Suc 0" by (rule pc_invD(3) [OF inv(1)])
    then show ?thesis using start_step.store_tid [of s] start_step.post [of s] start_step.sem_wait [OF 2] by metis
  next
    case 3
    show ?thesis using start_step.test_set [OF 3] start_step.test_null [OF 3] by metis
  next
    case 4
    from start_step.wake_owner [OF this] show ?thesis by blast
  next
    case 5
    then have "cpc s \<in> {CMake, CInit, CPublish}"
      using pc_invD(4) [OF inv(1)] inv(4) no_fault assms(2) by (cases "cpc s") (auto simp: early_inv_def)
    then show ?thesis
      using start_step.make_loop [of s] start_step.init_callback [of s] start_step.publish [of s] by (metis insertE empty_iff)
  qed
qed

text \<open>
  C20. \<open>StartLoop\<close> returns, provided nobody makes the new loop quit before it has (\<open>start_loop_stuck\<close>
  shows that it can wait for ever otherwise): some step of the start protocol is enabled in every
  reachable state (there is no lost notification and no deadlock of semaphore and condition
  variable), every such step brings the return nearer by a measure that is at most 27, and so a
  return is reached by these steps from everywhere, with the loop of the new thread published
  and alive.
\<close>

theorem start_loop_returns:
  assumes "elt_reachable tid k E tq False s" "starting s"
  shows "(\<exists>t. start_step tid k s t) \<and>
    (\<forall>t. start_step tid k s t \<longrightarrow> start_measure t < start_measure s) \<and> start_measure s \<le> 27 \<and>
    (\<exists>t l. (start_step tid k)\<^sup>*\<^sup>* s t \<and> opc t = OReturned \<and> loop_set t \<and> lp t = Some l \<and>
       reachable E tq (sint tid) k l \<and> init_ran t)"
proof -
  have bound: "start_measure s \<le> 27"
  proof -
    have "child_left (cpc s) \<le> 7" by (cases "cpc s") simp_all
    moreover have "owner_left (opc s) \<le> 6" by (cases "opc s") simp_all
    ultimately show ?thesis by (simp add: start_measure_def)
  qed
  have "\<exists>t l. (start_step tid k)\<^sup>*\<^sup>* s t \<and> opc t = OReturned \<and> loop_set t \<and> lp t = Some l \<and>
       reachable E tq (sint tid) k l \<and> init_ran t"
    using assms
  proof (induction "start_measure s" arbitrary: s rule: less_induct)
    case less
    obtain t where t: "start_step tid k s t" using start_step_enabled [OF less.prems] by blast
    have r: "elt_reachable tid k E tq False t" using start_more [OF less.prems(1) t] .
    have "opc t = OReturned \<or> starting t" using t less.prems(2) by cases (auto simp: starting_def)
    moreover have "start_measure t < start_measure s"
      using start_step_decreases [OF t elt_reachable_inv(1) [OF less.prems(1)]] .
    ultimately consider "opc t = OReturned" | u l where "(start_step tid k)\<^sup>*\<^sup>* t u" "opc u = OReturned" "loop_set u"
        "lp u = Some l" "reachable E tq (sint tid) k l" "init_ran u" using less.hyps [OF _ r] by blast
    then show ?case
    proof cases
      case 1
      have "opc s \<noteq> OReturned" using less.prems(2) by (auto simp: starting_def)
      moreover have "elt_step tid k E tq False s t" using t by (simp add: elt_step_def)
      ultimately show ?thesis using return_published [OF less.prems(1) _ _ 1] t 1 by blast
    next
      case 2
      then show ?thesis using t by (meson converse_rtranclp_into_rtranclp)
    qed
  qed
  then show ?thesis
    using bound start_step_enabled [OF assms] start_step_decreases [OF _ elt_reachable_inv(1) [OF assms(1)]] by simp
qed

theorem start_loop_returns_witness:
  "\<exists>t. (start_step 7 (0 :: nat))\<^sup>*\<^sup>* (EventLoopThread_ctor ''io'' 0 :: (nat, nat) elt) t \<and> opc t = OReturned \<and> loop_set t"
  using start_loop_returns [OF elt_made [of 7 0 counter_efd True False "''io''" 0]]
  by (auto simp: EventLoopThread_ctor_def starting_def)

section \<open>The destructor\<close>

lemma loop_runs:
  assumes "elt_reachable tid k E tq early (fresh_elt pc l)" "step E tq l m"
    "early \<or> pc \<notin> {OIdle, OSem, OTest, OWaiting, ONotified}"
  shows "elt_reachable tid k E tq early (fresh_elt pc m)"
proof -
  have "run_step E tq early (fresh_elt pc l) ((fresh_elt pc l)\<lparr>lp := Some m\<rparr>)"
    by (rule run_step.loop_step [OF _ assms(2)]) (use assms(3) in \<open>auto simp: fresh_elt_def starting_def\<close>)
  from run_more [OF assms(1) this] show ?thesis by (simp add: fresh_elt_def)
qed

text \<open>The loop after \<open>Loop\<close> has been entered, and after a quit seen by its test.\<close>

definition entered :: "'k \<Rightarrow> ('f, 'k) system" where
  "entered k = (init_system 7 k)\<lparr>el := enter_loop (el (init_system 7 k)), phase := LoopTest\<rparr>"

definition quitting :: "'k \<Rightarrow> ('f, 'k) system" where
  "quitting k = (entered k)\<lparr>el := set_quit (el (entered k)), in_flight := Suc 0\<rparr>"

definition left_loop :: "'k \<Rightarrow> ('f, 'k) system" where
  "left_loop k = (quitting k)\<lparr>el := leave_loop (el (quitting k)), phase := Exited\<rparr>"

lemma left_loop_phase [simp]: "phase (left_loop k) = Exited"
  by (simp add: left_loop_def)

lemma entered_step: "step E tq (init_system 7 k) (entered k)"
  unfolding entered_def by (rule step.enter) (simp add: init_system_def)

lemma quitting_step: "step E tq (entered k) (quitting k)"
  using step.other_quit [of 1 "entered k" E tq]
  by (simp add: quitting_def) (simp add: entered_def init_system_def enter_loop_def)

lemma left_step: "step E tq (quitting k) (left_loop k)"
  unfolding left_loop_def by (rule step.leave) (simp_all add: quitting_def entered_def set_quit_def)

lemma entered_reachable: "elt_reachable 7 k E tq early (fresh_elt OReturned (entered k))"
  using loop_runs [OF returned_reachable entered_step] by simp

text \<open>The first two steps of the destructor while the loop is published.\<close>

lemma dtor_reachable:
  assumes "elt_reachable 7 k E tq early (fresh_elt OReturned l)"
  shows "elt_reachable 7 k E tq early ((fresh_elt OQuit l)\<lparr>exiting := True\<rparr>)"
proof -
  let ?d = "(fresh_elt OReturned l)\<lparr>exiting := True, opc := ODtor\<rparr>"
  have "end_step E (fresh_elt OReturned l) ?d" by (rule end_step.dtor) (simp add: fresh_elt_def)
  from end_more [OF assms this] have r: "elt_reachable 7 k E tq early ?d" .
  have "end_step E ?d (?d\<lparr>opc := OQuit\<rparr>)" by (rule end_step.dtor_set) (simp_all add: fresh_elt_def)
  from end_more [OF r this] show ?thesis by (simp add: fresh_elt_def)
qed

definition calm :: "cint \<Rightarrow> 'k \<Rightarrow> 'k eventfd \<Rightarrow> bool \<Rightarrow> bool \<Rightarrow> ('f, 'k) elt \<Rightarrow> ('f, 'k) elt \<Rightarrow> bool" where
  "calm tid k E tq early s t \<longleftrightarrow> elt_step tid k E tq early s t \<and> (\<forall>l. lp t = Some l \<longrightarrow> \<not> quit (el l))"

definition hanging :: "('f, 'k) elt \<Rightarrow> bool" where
  "hanging s \<longleftrightarrow> opc s = OJoin \<and> cpc s = CRun \<and> (\<exists>l. lp s = Some l \<and> \<not> quit (el l) \<and> phase l \<noteq> Exited)"

lemma calm_hanging:
  assumes "calm tid k E tq early s t" "hanging s"
  shows "hanging t"
proof -
  have q: "\<forall>l. lp t = Some l \<longrightarrow> \<not> quit (el l)" using assms(1) by (simp add: calm_def)
  have "hanging t" if "start_step tid k s t" using that assms(2) by cases (simp_all add: hanging_def)
  moreover have "hanging t" if "run_step E tq early s t"
    using that
  proof cases
    case (loop_step l m)
    then show ?thesis using assms(2) q step_exited [of E tq l m] by (auto simp: hanging_def)
  qed (use assms(2) in \<open>simp add: hanging_def\<close>)
  moreover have "hanging t" if "end_step E s t" using that assms(2) by cases (simp_all add: hanging_def)
  ultimately show ?thesis using assms(1) unfolding calm_def elt_step_def by blast
qed

lemma calm_hanging_always: "(calm tid k E tq early)\<^sup>*\<^sup>* s t \<Longrightarrow> hanging s \<Longrightarrow> hanging t"
  by (induction rule: rtranclp_induct) (auto intro: calm_hanging)

text \<open>
  The destructor can wait for ever: if it runs after \<open>StartLoop\<close> has returned but before
  the new thread has entered \<open>Loop\<close>, its \<open>Quit\<close> is undone by the reset of \<open>quit_\<close> at the entry.
  From the state reached so, whatever steps follow in which no one else makes the loop quit,
  the owner stays in \<open>Join\<close> and the loop goes on.
\<close>

theorem destructor_hangs:
  fixes k :: 'k
  shows "\<exists>s :: ('f, 'k) elt. elt_reachable 7 k E tq early s \<and> exiting s \<and>
     (\<forall>t. (calm 7 k E tq early)\<^sup>*\<^sup>* s t \<longrightarrow> opc t = OJoin \<and> cpc t = CRun)"
proof -
  let ?l = "init_system 7 k :: ('f, 'k) system"
  let ?q = "(fresh_elt OQuit ?l)\<lparr>exiting := True\<rparr>"
  define l1 where "l1 = ?l\<lparr>el := set_quit (el ?l), in_flight := in_flight ?l + 1\<rparr>"
  define l2 where "l2 = l1\<lparr>el := Wakeup E (el l1), in_flight := 0\<rparr>"
  define l3 where "l3 = l2\<lparr>el := enter_loop (el l2), phase := LoopTest\<rparr>"
  have r0: "elt_reachable 7 k E tq early ?q" by (rule dtor_reachable [OF returned_reachable])
  have "end_step E ?q (?q\<lparr>lp := Some l1, opc := OWake\<rparr>)" unfolding l1_def
    by (rule end_step.dtor_quit) (simp_all add: fresh_elt_def)
  from end_more [OF r0 this] have r1: "elt_reachable 7 k E tq early (?q\<lparr>lp := Some l1, opc := OWake\<rparr>)" .
  have "end_step E (?q\<lparr>lp := Some l1, opc := OWake\<rparr>) (?q\<lparr>lp := Some l1, opc := OWake\<rparr>\<lparr>lp := Some l2, opc := OJoin\<rparr>)"
    unfolding l2_def by (rule end_step.dtor_wake) (simp_all add: l1_def init_system_def)
  from end_more [OF r1 this] have r2: "elt_reachable 7 k E tq early (?q\<lparr>lp := Some l2, opc := OJoin\<rparr>)" by simp
  have "run_step E tq early (?q\<lparr>lp := Some l2, opc := OJoin\<rparr>) (?q\<lparr>lp := Some l2, opc := OJoin\<rparr>\<lparr>lp := Some l3\<rparr>)"
    unfolding l3_def
    by (rule run_step.loop_step [OF _ step.enter])
      (simp_all add: fresh_elt_def starting_def l2_def l1_def init_system_def)
  from run_more [OF r2 this] have r3: "elt_reachable 7 k E tq early (?q\<lparr>lp := Some l3, opc := OJoin\<rparr>)" by (simp add: fresh_elt_def)
  have "hanging (?q\<lparr>lp := Some l3, opc := OJoin\<rparr>)" by (simp add: hanging_def fresh_elt_def l3_def enter_loop_def)
  then have "hanging t" if "(calm 7 k E tq early)\<^sup>*\<^sup>* (?q\<lparr>lp := Some l3, opc := OJoin\<rparr>) t" for t
    using calm_hanging_always [OF that] by simp
  then show ?thesis using r3
    by (intro exI [of _ "?q\<lparr>lp := Some l3, opc := OJoin\<rparr>"]) (simp add: hanging_def)
qed

theorem destructor_hangs_witness:
  "\<exists>s :: (nat, nat) elt. elt_reachable 7 0 counter_efd False False s \<and> exiting s \<and>
     (\<forall>t. (calm 7 0 counter_efd False False)\<^sup>*\<^sup>* s t \<longrightarrow> opc t = OJoin \<and> cpc t = CRun)"
  by (rule destructor_hangs)

text \<open>The end of the new thread once its loop has left \<open>Loop\<close>; \<open>s\<close> is where the owner is meanwhile.\<close>

lemma clear_reachable:
  assumes "elt_reachable tid k E tq early s" "cpc s = CRun" "lp s = Some l" "phase l = Exited"
  shows "elt_reachable tid k E tq early (s\<lparr>loop_set := False, cpc := CUnlock\<rparr>)"
  using end_more [OF assms(1) end_step.clear_loop [OF assms(2-4)]] .

lemma gone_reachable:
  assumes "elt_reachable tid k E tq early (s\<lparr>loop_set := False, cpc := CUnlock\<rparr>)" "opc s \<noteq> ODone"
  shows "elt_reachable tid k E tq early (s\<lparr>loop_set := False, cpc := CGone, lp := None\<rparr>)"
proof -
  let ?u = "s\<lparr>loop_set := False, cpc := CUnlock\<rparr>"
  have "end_step E ?u (?u\<lparr>cpc := (if opc ?u = ODone then CFault UseAfterFree else CDestroy)\<rparr>)"
    by (rule end_step.unlock) simp
  from end_more [OF assms(1) this] have r: "elt_reachable tid k E tq early (s\<lparr>loop_set := False, cpc := CDestroy\<rparr>)"
    using assms(2) by simp
  have "end_step E (s\<lparr>loop_set := False, cpc := CDestroy\<rparr>) (s\<lparr>loop_set := False, cpc := CDestroy\<rparr>\<lparr>lp := None, cpc := CGone\<rparr>)"
    by (rule end_step.destroy_loop) simp
  from end_more [OF r this] show ?thesis
    by (cases s) simp
qed

text \<open>
  The destructor is racy even when the loop runs: its \<open>Quit\<close> stores \<open>quit_\<close> and then writes to
  the wake-up descriptor, and between the two the new thread can leave \<open>Loop\<close> and destroy the
  loop, so that the owner uses a dead object.
\<close>

theorem destructor_use_after_free:
  fixes k :: 'k
  shows "\<exists>s :: ('f, 'k) elt. elt_reachable 7 k E tq early s \<and> opc s = OFault UseAfterFree"
proof -
  let ?e = "entered k :: ('f, 'k) system"
  let ?q = "(fresh_elt OQuit ?e)\<lparr>exiting := True\<rparr>"
  let ?w = "?q\<lparr>lp := Some (quitting k), opc := OWake\<rparr>"
  let ?x = "?w\<lparr>lp := Some (left_loop k)\<rparr>"
  have r0: "elt_reachable 7 k E tq early ?q" by (rule dtor_reachable [OF entered_reachable])
  have "end_step E ?q (?q\<lparr>lp := Some (?e\<lparr>el := set_quit (el ?e), in_flight := in_flight ?e + 1\<rparr>), opc := OWake\<rparr>)"
    by (rule end_step.dtor_quit) (simp_all add: fresh_elt_def)
  from end_more [OF r0 this] have r1: "elt_reachable 7 k E tq early ?w"
    by (simp add: quitting_def) (simp add: entered_def init_system_def)
  have "run_step E tq early ?w ?x"
    using run_step.loop_step [OF _ left_step, of ?w k] by (simp add: fresh_elt_def starting_def)
  from run_more [OF r1 this] have r2: "elt_reachable 7 k E tq early ?x" .
  have "elt_reachable 7 k E tq early (?x\<lparr>loop_set := False, cpc := CUnlock\<rparr>)"
    by (rule clear_reachable [OF r2, where l = "left_loop k"]) (simp_all add: fresh_elt_def)
  then have r3: "elt_reachable 7 k E tq early (?x\<lparr>loop_set := False, cpc := CGone, lp := None\<rparr>)"
    by (rule gone_reachable) simp
  have "end_step E (?x\<lparr>loop_set := False, cpc := CGone, lp := None\<rparr>)
      (?x\<lparr>loop_set := False, cpc := CGone, lp := None\<rparr>\<lparr>opc := OFault UseAfterFree\<rparr>)"
    by (rule end_step.dtor_wake_dead) simp_all
  from end_more [OF r3 this] show ?thesis by (intro exI conjI) (assumption, simp)
qed

text \<open>
  If someone else has made the loop quit, two more accidents are possible: \<open>loop_\<close> becomes null
  between its test and its use, or the destructor sees it null, does not join, and the
  thread unlocks a mutex that no longer exists.
\<close>

lemma destructor_null:
  fixes k :: 'k
  shows "\<exists>s :: ('f, 'k) elt. elt_reachable 7 k E tq early s \<and> opc s = OFault NullDeref"
proof -
  let ?q = "(fresh_elt OQuit (left_loop k :: ('f, 'k) system))\<lparr>exiting := True\<rparr>"
  have "elt_reachable 7 k E tq early (fresh_elt OReturned (left_loop k :: ('f, 'k) system))"
    using loop_runs [OF loop_runs [OF entered_reachable quitting_step] left_step] by simp
  from dtor_reachable [OF this] have "elt_reachable 7 k E tq early ?q" .
  then have r: "elt_reachable 7 k E tq early (?q\<lparr>loop_set := False, cpc := CUnlock\<rparr>)"
    by (rule clear_reachable [where l = "left_loop k"]) (simp_all add: fresh_elt_def)
  have "end_step E (?q\<lparr>loop_set := False, cpc := CUnlock\<rparr>) (?q\<lparr>loop_set := False, cpc := CUnlock\<rparr>\<lparr>opc := OFault NullDeref\<rparr>)"
    by (rule end_step.dtor_quit_null) (simp_all add: fresh_elt_def)
  from end_more [OF r this] show ?thesis by (intro exI conjI) (assumption, simp)
qed

text \<open>
  If the loop is made to quit before the owner has seen it, \<open>StartLoop\<close> waits for a
  notification that will not come: the condition it waits for was true once and is not kept.
\<close>

lemma start_loop_stuck:
  fixes k :: 'k
  shows "\<exists>s :: ('f, 'k) elt. elt_reachable 7 k E tq True s \<and> opc s = OWaiting \<and> cpc s = CGone \<and> \<not> loop_set s"
proof -
  let ?s = "fresh_elt OTest (left_loop k :: ('f, 'k) system)"
  let ?g = "?s\<lparr>loop_set := False, cpc := CGone, lp := None\<rparr>"
  have "elt_reachable 7 k E tq True ?s"
    by (rule loop_runs [OF loop_runs [OF loop_runs [OF started_reachable entered_step] quitting_step] left_step]) simp_all
  then have "elt_reachable 7 k E tq True (?s\<lparr>loop_set := False, cpc := CUnlock\<rparr>)"
    by (rule clear_reachable [where l = "left_loop k"]) (simp_all add: fresh_elt_def)
  then have r: "elt_reachable 7 k E tq True ?g" by (rule gone_reachable) (simp add: fresh_elt_def)
  have "start_step 7 k ?g (?g\<lparr>opc := OWaiting\<rparr>)" by (rule start_step.test_null) (simp_all add: fresh_elt_def)
  from start_more [OF r this] show ?thesis by (intro exI [of _ "?g\<lparr>opc := OWaiting\<rparr>"]) simp
qed

end
