(* ===== verification/Buffer.thy ===== *)
theory Buffer
  imports Net_Prelude
begin

text \<open>
  The growable I/O buffer of \<^verbatim>\<open>include/buffer.h\<close> and \<^verbatim>\<open>src/buffer.cc\<close>: a byte vector
  with a read and a write index. Indices and lengths are \<open>size_t\<close> words and wrap
  as in C++; copies into the vector are checked, so an access outside it is the
  fault \<open>OutOfBounds\<close> and not a silent no-op. The system calls \<open>readv\<close> and \<open>write\<close>
  are arguments of the operations that call them.

  The abstract contract is a FIFO queue of bytes (locale \<open>byte_queue\<close>): the
  abstraction function \<open>readable\<close> gives the unread bytes.
\<close>

section \<open>The class\<close>

definition kCheapPrepend :: size_t where "kCheapPrepend = 8"
definition kInitialSize :: size_t where "kInitialSize = 1024"

record buffer =
  buf :: bytes
  read_index :: size_t
  write_index :: size_t

definition buf_size :: "buffer \<Rightarrow> size_t" where
  "buf_size b = word_of_nat (length (buf b))"

definition Buffer_ctor :: "size_t \<Rightarrow> buffer res" where
  "Buffer_ctor initialSize =
     res_bind (vec_resize (kCheapPrepend + initialSize) [])
       (\<lambda>v. Inr \<lparr>buf = v, read_index = kCheapPrepend, write_index = kCheapPrepend\<rparr>)"

definition ReadableBytes :: "buffer \<Rightarrow> size_t" where
  "ReadableBytes b = write_index b - read_index b"

definition WriteableBytes :: "buffer \<Rightarrow> size_t" where
  "WriteableBytes b = buf_size b - write_index b"

definition PrependableBytes :: "buffer \<Rightarrow> size_t" where
  "PrependableBytes b = read_index b"

definition RetriveAll :: "buffer \<Rightarrow> buffer" where
  "RetriveAll b = b\<lparr>read_index := kCheapPrepend, write_index := kCheapPrepend\<rparr>"

definition Retrive :: "size_t \<Rightarrow> buffer \<Rightarrow> buffer" where
  "Retrive len b =
     (if len < ReadableBytes b then b\<lparr>read_index := read_index b + len\<rparr> else RetriveAll b)"

text \<open>
  \<open>std::string result(BeginRead(), len)\<close> reads \<open>len\<close> bytes from the read index on,
  readable or not; past the end of the vector the read is undefined.
\<close>

definition read_bytes :: "size_t \<Rightarrow> buffer \<Rightarrow> bytes res" where
  "read_bytes len b =
     (if unat (read_index b) + unat len \<le> length (buf b)
      then Inr (take (unat len) (drop (unat (read_index b)) (buf b))) else Inl OutOfBounds)"

definition RetriveAsString :: "size_t \<Rightarrow> buffer \<Rightarrow> (bytes \<times> buffer) res" where
  "RetriveAsString len b = res_bind (read_bytes len b) (\<lambda>s. Inr (s, Retrive len b))"

definition RetriveAllAsString :: "buffer \<Rightarrow> (bytes \<times> buffer) res" where
  "RetriveAllAsString b = RetriveAsString (ReadableBytes b) b"

definition MakeSpace :: "size_t \<Rightarrow> buffer \<Rightarrow> buffer res" where
  "MakeSpace len b =
     (if WriteableBytes b + PrependableBytes b < len + kCheapPrepend
      then res_bind (vec_resize (write_index b + len) (buf b)) (\<lambda>v. Inr (b\<lparr>buf := v\<rparr>))
      else let readable = ReadableBytes b in
        Inr (b\<lparr>buf := copy_within (unat (read_index b)) (unat kCheapPrepend) (unat readable) (buf b),
               read_index := kCheapPrepend,
               write_index := kCheapPrepend + readable\<rparr>))"

definition EnsureWriteableBytes :: "size_t \<Rightarrow> buffer \<Rightarrow> buffer res" where
  "EnsureWriteableBytes len b = (if WriteableBytes b < len then MakeSpace len b else Inr b)"

text \<open>\<open>Append(data, len)\<close>: \<open>data\<close> is the list of the \<open>len\<close> bytes the pointer designates.\<close>

definition Append :: "bytes \<Rightarrow> buffer \<Rightarrow> buffer res" where
  "Append data b =
     res_bind (EnsureWriteableBytes (word_of_nat (length data)) b) (\<lambda>b1.
     res_bind (vec_write (write_index b1) data (buf b1)) (\<lambda>v.
     Inr (b1\<lparr>buf := v, write_index := write_index b1 + word_of_nat (length data)\<rparr>)))"

section \<open>Reading from and writing to a descriptor\<close>

text \<open>
  \<open>readv fd iov\<close> stands for the system call: an error number, or the bytes received,
  which the kernel scatters over the buffers of \<open>iov\<close> in order; \<open>iov\<close> lists their
  lengths. \<open>readv_contract\<close> is what POSIX promises: no more bytes than fit.
  The result is the return value (\<open>-1\<close> on error), \<open>*saveErrno\<close> when it is set, and
  the buffer.
\<close>

type_synonym readv_call = "cint \<Rightarrow> size_t list \<Rightarrow> errno + bytes"
type_synonym write_call = "cint \<Rightarrow> bytes \<Rightarrow> errno + nat"

definition readv_contract :: "readv_call \<Rightarrow> bool" where
  "readv_contract readv \<longleftrightarrow>
     (\<forall>fd iov bs. readv fd iov = Inr bs \<longrightarrow> length bs \<le> sum_list (map unat iov))"

definition write_contract :: "write_call \<Rightarrow> bool" where
  "write_contract write \<longleftrightarrow> (\<forall>fd bs n. write fd bs = Inr n \<longrightarrow> n \<le> length bs)"

definition extrabuf_size :: size_t where "extrabuf_size = 65535"

definition read_iov :: "buffer \<Rightarrow> size_t list" where
  "read_iov b = (if WriteableBytes b < extrabuf_size then [WriteableBytes b, extrabuf_size]
                 else [WriteableBytes b])"

definition ReadFd :: "readv_call \<Rightarrow> cint \<Rightarrow> buffer \<Rightarrow> (int \<times> errno option \<times> buffer) res" where
  "ReadFd readv fd b =
     (let writeable = WriteableBytes b
      in case readv fd (read_iov b) of
           Inl e \<Rightarrow> Inr (- 1, Some e, b)
         | Inr bs \<Rightarrow>
             if length bs \<le> unat writeable
             then res_bind (vec_write (write_index b) bs (buf b)) (\<lambda>v.
               Inr (int (length bs), None,
                    b\<lparr>buf := v, write_index := write_index b + word_of_nat (length bs)\<rparr>))
             else res_bind (vec_write (write_index b) (take (unat writeable) bs) (buf b)) (\<lambda>v.
               res_bind (Append (drop (unat writeable) bs) (b\<lparr>buf := v, write_index := buf_size b\<rparr>))
                 (\<lambda>b'. Inr (int (length bs), None, b'))))"

definition WriteFd :: "write_call \<Rightarrow> cint \<Rightarrow> buffer \<Rightarrow> (int \<times> errno option) res" where
  "WriteFd write fd b =
     res_bind (read_bytes (ReadableBytes b) b) (\<lambda>bs.
       case write fd bs of Inl e \<Rightarrow> Inr (- 1, Some e) | Inr n \<Rightarrow> Inr (int n, None))"

section \<open>Invariant and abstraction\<close>

text \<open>The picture in the header of \<open>buffer.h\<close>: \<open>0 \<le> readerIndex \<le> writerIndex \<le> size\<close>.\<close>

definition buf_inv :: "buffer \<Rightarrow> bool" where
  "buf_inv b \<longleftrightarrow> unat kCheapPrepend \<le> unat (read_index b) \<and>
     unat (read_index b) \<le> unat (write_index b) \<and>
     unat (write_index b) \<le> length (buf b) \<and> length (buf b) \<le> vec_max_size"

definition readable :: "buffer \<Rightarrow> bytes" where
  "readable b = drop (unat (read_index b)) (take (unat (write_index b)) (buf b))"

lemma kCheapPrepend_unat [simp]: "unat kCheapPrepend = 8"
  by (simp add: kCheapPrepend_def)

lemma vec_max_size_bound [simp]: "n \<le> vec_max_size \<Longrightarrow> n < 2 ^ 64" "n \<le> vec_max_size \<Longrightarrow> n < 2 ^ 63"
  by (auto simp: vec_max_size_def)

lemma buf_inv_bounds:
  assumes "buf_inv b"
  shows "8 \<le> unat (read_index b)" "unat (read_index b) \<le> unat (write_index b)"
    "unat (write_index b) \<le> length (buf b)" "length (buf b) \<le> vec_max_size"
    "length (buf b) < 2 ^ 63"
  using assms by (auto simp: buf_inv_def vec_max_size_def)

lemma unat_buf_size [simp]: "buf_inv b \<Longrightarrow> unat (buf_size b) = length (buf b)"
  using buf_inv_bounds [of b] by (simp add: buf_size_def unat_size_of_nat)

lemma unat_ReadableBytes [simp]:
  "buf_inv b \<Longrightarrow> unat (ReadableBytes b) = unat (write_index b) - unat (read_index b)"
  by (simp add: ReadableBytes_def unat_sub_no_borrow buf_inv_bounds)

lemma unat_WriteableBytes [simp]:
  "buf_inv b \<Longrightarrow> unat (WriteableBytes b) = length (buf b) - unat (write_index b)"
  by (simp add: WriteableBytes_def unat_sub_no_borrow buf_inv_bounds)

lemma length_readable: "buf_inv b \<Longrightarrow> length (readable b) = unat (ReadableBytes b)"
  using buf_inv_bounds [of b] by (simp add: readable_def)

lemma ReadableBytes_zero: "buf_inv b \<Longrightarrow> ReadableBytes b = 0 \<longleftrightarrow> readable b = []"
  using length_readable [of b] by (metis length_0_conv unat_eq_0)

section \<open>Operations keep the invariant and act on the unread bytes\<close>

lemma Buffer_ctor_ok:
  assumes "unat n + 8 \<le> vec_max_size"
  shows "\<exists>b. Buffer_ctor n = Inr b \<and> buf_inv b \<and> readable b = [] \<and> WriteableBytes b = n
           \<and> write_index b = kCheapPrepend"
proof -
  have sz: "unat (kCheapPrepend + n) = 8 + unat n"
    using assms vec_max_size_bound(1) [OF assms] by (simp add: unat_add_no_overflow)
  let ?b = "\<lparr>buf = replicate (8 + unat n) CHR 0x00, read_index = kCheapPrepend,
              write_index = kCheapPrepend\<rparr>"
  have "Buffer_ctor n = Inr ?b" using assms sz by (simp add: Buffer_ctor_def vec_resize_def)
  moreover have inv: "buf_inv ?b" using assms by (simp add: buf_inv_def)
  moreover have "readable ?b = []" by (simp add: readable_def)
  moreover have "WriteableBytes ?b = n"
    by (rule word_unat_eq_iff [THEN iffD2]) (simp add: unat_WriteableBytes [OF inv])
  ultimately show ?thesis by auto
qed

lemma RetriveAll_ok:
  assumes "buf_inv b"
  shows "buf_inv (RetriveAll b)" "readable (RetriveAll b) = []"
  using buf_inv_bounds [OF assms] by (simp_all add: RetriveAll_def buf_inv_def readable_def)

lemma Retrive_ok:
  assumes "buf_inv b"
  shows "buf_inv (Retrive n b)" "readable (Retrive n b) = drop (unat n) (readable b)"
    "unat (write_index (Retrive n b)) \<le> unat (write_index b)"
proof -
  note bd = buf_inv_bounds [OF assms]
  have "buf_inv (Retrive n b) \<and> readable (Retrive n b) = drop (unat n) (readable b)
      \<and> unat (write_index (Retrive n b)) \<le> unat (write_index b)"
  proof (cases "n < ReadableBytes b")
    case True
    then have lt: "unat n < unat (write_index b) - unat (read_index b)"
      using assms by (simp add: word_less_nat_alt)
    then have "unat (read_index b + n) = unat (read_index b) + unat n"
      using bd by (intro unat_add_no_overflow) simp
    then show ?thesis using True lt bd
      by (simp add: Retrive_def buf_inv_def readable_def add.commute)
  next
    case False
    then have "unat (ReadableBytes b) \<le> unat n" by (simp add: word_less_nat_alt)
    then have "drop (unat n) (readable b) = []" using assms by (simp add: length_readable)
    then show ?thesis
      using False assms RetriveAll_ok bd by (simp add: Retrive_def RetriveAll_def)
  qed
  then show "buf_inv (Retrive n b)" "readable (Retrive n b) = drop (unat n) (readable b)"
    "unat (write_index (Retrive n b)) \<le> unat (write_index b)" by auto
qed

lemma read_bytes_readable:
  assumes "buf_inv b" "n \<le> ReadableBytes b"
  shows "read_bytes n b = Inr (take (unat n) (readable b))"
proof -
  have "unat n \<le> unat (write_index b) - unat (read_index b)"
    using assms by (simp add: word_le_nat_alt)
  moreover note buf_inv_bounds [OF assms(1)]
  ultimately show ?thesis by (simp add: read_bytes_def readable_def drop_take min_def)
qed

lemma RetriveAsString_ok:
  assumes "buf_inv b" "n \<le> ReadableBytes b"
  shows "RetriveAsString n b = Inr (take (unat n) (readable b), Retrive n b)"
  using assms by (simp add: RetriveAsString_def read_bytes_readable)

text \<open>Both branches of \<open>MakeSpace\<close>: growing the vector, and moving the unread bytes down.\<close>

lemma MakeSpace_grow:
  assumes "buf_inv b" "unat (write_index b) + unat len \<le> vec_max_size"
    "WriteableBytes b + PrependableBytes b < len + kCheapPrepend"
    "unat (WriteableBytes b) < unat len"
  shows "\<exists>b'. MakeSpace len b = Inr b' \<and> buf_inv b' \<and> readable b' = readable b \<and>
           WriteableBytes b' = len \<and> write_index b' = write_index b"
proof -
  note bd = buf_inv_bounds [OF assms(1)]
  have sz: "unat (write_index b + len) = unat (write_index b) + unat len"
    using assms(2) by (intro unat_add_no_overflow) (simp add: vec_max_size_def)
  let ?v = "buf b @ replicate (unat (write_index b) + unat len - length (buf b)) CHR 0x00"
  let ?b' = "b\<lparr>buf := ?v\<rparr>"
  have grow: "length (buf b) \<le> unat (write_index b) + unat len"
    using assms(1,4) bd by simp
  have eq: "MakeSpace len b = Inr ?b'"
    using assms grow sz by (simp add: MakeSpace_def vec_resize_def)
  have inv: "buf_inv ?b'" using assms bd grow by (simp add: buf_inv_def)
  have "WriteableBytes ?b' = len"
    using grow by (intro word_unat_eq_iff [THEN iffD2]) (simp add: unat_WriteableBytes [OF inv])
  then show ?thesis using eq inv bd by (auto simp: readable_def)
qed

lemma MakeSpace_compact:
  assumes "buf_inv b" "\<not> WriteableBytes b + PrependableBytes b < len + kCheapPrepend"
    "unat len \<le> vec_max_size"
  shows "\<exists>b'. MakeSpace len b = Inr b' \<and> buf_inv b' \<and> readable b' = readable b \<and>
           unat len \<le> unat (WriteableBytes b') \<and> length (buf b') = length (buf b) \<and>
           unat (write_index b') \<le> unat (write_index b)"
proof -
  note bd = buf_inv_bounds [OF assms(1)]
  let ?r = "unat (read_index b)" and ?w = "unat (write_index b)"
  have "unat (WriteableBytes b + PrependableBytes b) = length (buf b) - ?w + ?r"
    using assms(1) bd by (subst unat_add_no_overflow) (auto simp: PrependableBytes_def)
  moreover have "unat (len + kCheapPrepend) = unat len + 8"
    using assms(3) by (subst unat_add_no_overflow) (auto simp: vec_max_size_def)
  ultimately have room: "unat len + 8 \<le> length (buf b) - ?w + ?r"
    using assms(2) by (simp add: word_less_nat_alt)
  have w': "unat (kCheapPrepend + ReadableBytes b) = 8 + (?w - ?r)"
    using assms(1) bd by (subst unat_add_no_overflow) auto
  let ?v = "blit 8 (take (?w - ?r) (drop ?r (buf b))) (buf b)"
  let ?b' = "b\<lparr>buf := ?v, read_index := kCheapPrepend, write_index := kCheapPrepend + ReadableBytes b\<rparr>"
  have eq: "MakeSpace len b = Inr ?b'"
    using assms bd by (simp add: MakeSpace_def Let_def copy_within_left)
  have len_v: "length ?v = length (buf b)" using bd by (subst length_blit) auto
  have inv: "buf_inv ?b'" using bd w' len_v by (simp add: buf_inv_def) linarith
  have "readable ?b' = take (?w - ?r) (drop ?r (buf b))"
    using slice_blit [of 8 "take (?w - ?r) (drop ?r (buf b))" "buf b" 8] bd w'
    by (simp add: readable_def drop_take)
  then have "readable ?b' = readable b" by (simp add: readable_def drop_take)
  moreover have "unat len \<le> unat (WriteableBytes ?b')"
    using room w' len_v bd by (simp add: unat_WriteableBytes [OF inv])
  ultimately show ?thesis using eq inv len_v w' bd by auto
qed

lemma EnsureWriteableBytes_ok:
  assumes "buf_inv b" "unat len \<le> vec_max_size"
  shows "(\<exists>b'. EnsureWriteableBytes len b = Inr b' \<and> buf_inv b' \<and> readable b' = readable b \<and>
            unat len \<le> unat (WriteableBytes b') \<and> unat (write_index b') \<le> unat (write_index b)) \<or>
         (EnsureWriteableBytes len b = Inl LengthError \<and>
            vec_max_size < unat (write_index b) + unat len)"
proof (cases "WriteableBytes b < len")
  case False
  then show ?thesis using assms by (simp add: EnsureWriteableBytes_def word_less_nat_alt)
next
  case True
  then have lt: "unat (WriteableBytes b) < unat len" by (simp add: word_less_nat_alt)
  have ens: "EnsureWriteableBytes len b = MakeSpace len b"
    using True by (simp add: EnsureWriteableBytes_def)
  consider (compact) "\<not> WriteableBytes b + PrependableBytes b < len + kCheapPrepend"
    | (grow) "WriteableBytes b + PrependableBytes b < len + kCheapPrepend"
        "unat (write_index b) + unat len \<le> vec_max_size"
    | (too_long) "WriteableBytes b + PrependableBytes b < len + kCheapPrepend"
        "vec_max_size < unat (write_index b) + unat len"
    by linarith
  then show ?thesis
  proof cases
    case compact
    then show ?thesis using MakeSpace_compact [OF assms(1) compact assms(2)] ens by auto
  next
    case grow
    then show ?thesis using MakeSpace_grow [OF assms(1) grow(2,1) lt] ens by fastforce
  next
    case too_long
    have "unat (write_index b + len) = unat (write_index b) + unat len"
      using assms buf_inv_bounds [OF assms(1)]
      by (intro unat_add_no_overflow) (simp add: vec_max_size_def)
    then show ?thesis using too_long ens by (simp add: MakeSpace_def vec_resize_def)
  qed
qed

text \<open>Writing bytes into room that is there, as \<open>Append\<close> and \<open>readv\<close> do.\<close>

lemma fill_ok:
  assumes "buf_inv b" "length data \<le> unat (WriteableBytes b)"
  shows "\<exists>v. vec_write (write_index b) data (buf b) = Inr v \<and> length v = length (buf b) \<and>
    (let b' = b\<lparr>buf := v, write_index := write_index b + word_of_nat (length data)\<rparr> in
      buf_inv b' \<and> readable b' = readable b @ data \<and>
      unat (write_index b') = unat (write_index b) + length data)"
proof -
  note bd = buf_inv_bounds [OF assms(1)]
  let ?w = "unat (write_index b)"
  have fits: "?w + length data \<le> length (buf b)" using assms bd by simp
  have w': "unat (write_index b + word_of_nat (length data)) = ?w + length data"
    using fits bd by (subst unat_add_no_overflow) (auto simp: unat_size_of_nat)
  let ?v = "blit ?w data (buf b)"
  let ?b' = "b\<lparr>buf := ?v, write_index := write_index b + word_of_nat (length data)\<rparr>"
  have "buf_inv ?b'" using bd w' fits by (simp add: buf_inv_def)
  moreover have "readable ?b' = readable b @ data"
    using slice_blit [OF fits bd(2)] w' by (simp add: readable_def drop_take)
  ultimately show ?thesis using fits w' by (auto simp: vec_write_def Let_def)
qed

lemma Append_ok:
  assumes "buf_inv b" "length data \<le> vec_max_size"
  shows "(\<exists>b'. Append data b = Inr b' \<and> buf_inv b' \<and> readable b' = readable b @ data \<and>
            unat (write_index b') \<le> unat (write_index b) + length data) \<or>
         (Append data b = Inl LengthError \<and> vec_max_size < unat (write_index b) + length data)"
proof -
  let ?len = "word_of_nat (length data) :: size_t"
  have len: "unat ?len = length data" using assms(2) by (simp add: unat_size_of_nat vec_max_size_def)
  from EnsureWriteableBytes_ok [OF assms(1), of ?len] assms(2) len
  consider (ok) b1 where "EnsureWriteableBytes ?len b = Inr b1" "buf_inv b1" "readable b1 = readable b"
      "length data \<le> unat (WriteableBytes b1)" "unat (write_index b1) \<le> unat (write_index b)"
    | (err) "EnsureWriteableBytes ?len b = Inl LengthError"
      "vec_max_size < unat (write_index b) + length data" by auto
  then show ?thesis
  proof cases
    case ok
    with fill_ok [OF ok(2,4)] show ?thesis by (auto simp: Append_def Let_def)
  next
    case err
    then show ?thesis by (simp add: Append_def)
  qed
qed

lemma ReadFd_ok:
  assumes "buf_inv b" "readv_contract readv" "unat (write_index b) + 131070 \<le> vec_max_size"
  shows "case readv fd (read_iov b) of
      Inl e \<Rightarrow> ReadFd readv fd b = Inr (- 1, Some e, b)
    | Inr bs \<Rightarrow> \<exists>b'. ReadFd readv fd b = Inr (int (length bs), None, b') \<and> buf_inv b' \<and>
        readable b' = readable b @ bs"
proof -
  let ?wr = "WriteableBytes b"
  let ?iov = "read_iov b"
  note bd = buf_inv_bounds [OF assms(1)]
  show ?thesis
  proof (cases "readv fd ?iov")
    case (Inl e)
    then show ?thesis by (simp add: ReadFd_def Let_def)
  next
    case (Inr bs)
    then have bound: "length bs \<le> sum_list (map unat ?iov)"
      using assms(2) unfolding readv_contract_def by blast
    show ?thesis
    proof (cases "length bs \<le> unat ?wr")
      case True
      with fill_ok [OF assms(1) True] Inr show ?thesis
        by (auto simp: ReadFd_def Let_def)
    next
      case False
      let ?bs1 = "take (unat ?wr) bs" and ?bs2 = "drop (unat ?wr) bs"
      have l1: "length ?bs1 = unat ?wr" using False by simp
      from bound False have l2: "length ?bs2 \<le> 65535" and small: "unat ?wr < 65535"
        by (auto simp: read_iov_def extrabuf_size_def word_less_nat_alt split: if_splits)
      have full: "write_index b + word_of_nat (length ?bs1) = buf_size b"
        unfolding l1 by (simp add: WriteableBytes_def)
      obtain v where v: "vec_write (write_index b) ?bs1 (buf b) = Inr v"
        and inv1: "buf_inv (b\<lparr>buf := v, write_index := buf_size b\<rparr>)"
        and rd1: "readable (b\<lparr>buf := v, write_index := buf_size b\<rparr>) = readable b @ ?bs1"
        using fill_ok [OF assms(1), of ?bs1] full by (auto simp: Let_def)
      have "unat (write_index (b\<lparr>buf := v, write_index := buf_size b\<rparr>)) + length ?bs2 \<le> vec_max_size"
        using assms(1,3) l2 small bd by simp
      moreover have "length ?bs2 \<le> vec_max_size" using l2 by (simp add: vec_max_size_def)
      ultimately obtain b' where "Append ?bs2 (b\<lparr>buf := v, write_index := buf_size b\<rparr>) = Inr b'"
        "buf_inv b'" "readable b' = (readable b @ ?bs1) @ ?bs2"
        using Append_ok [OF inv1, of ?bs2] rd1 by fastforce
      then show ?thesis using Inr False v by (auto simp: ReadFd_def Let_def)
    qed
  qed
qed

section \<open>The buffer as a FIFO queue of bytes\<close>

text \<open>
  The contract the connections rely on: the calls by which bytes enter and leave, and the queue they
  stand for. Asking for more bytes than there are is outside the contract (\<open>fifo\<close> is \<open>None\<close>), because
  \<open>RetriveAsString\<close> does not check it; discarding more than there are is not. \<open>pos\<close> is the storage
  already used, which bounds what can still be stored.
\<close>

datatype queue_op = Put bytes | Get size_t | Get_all | Discard size_t

fun puts :: "queue_op list \<Rightarrow> bytes" where
  "puts [] = []"
| "puts (Put d # ops) = d @ puts ops"
| "puts (_ # ops) = puts ops"

fun fifo :: "queue_op list \<Rightarrow> bytes \<Rightarrow> (bytes list \<times> bytes) option" where
  "fifo [] q = Some ([], q)"
| "fifo (Put d # ops) q = fifo ops (q @ d)"
| "fifo (Get n # ops) q =
     (if unat n \<le> length q then map_option (apfst (Cons (take (unat n) q))) (fifo ops (drop (unat n) q)) else None)"
| "fifo (Get_all # ops) q = map_option (apfst (Cons q)) (fifo ops [])"
| "fifo (Discard n # ops) q = fifo ops (drop (unat n) q)"

text \<open>The calls on an implementation, with the strings returned.\<close>

fun queue_run ::
  "(bytes \<Rightarrow> 'b \<Rightarrow> 'b res) \<Rightarrow> (size_t \<Rightarrow> 'b \<Rightarrow> (bytes \<times> 'b) res) \<Rightarrow> ('b \<Rightarrow> (bytes \<times> 'b) res) \<Rightarrow>
   (size_t \<Rightarrow> 'b \<Rightarrow> 'b) \<Rightarrow> queue_op list \<Rightarrow> 'b \<Rightarrow> (bytes list \<times> 'b) res" where
  "queue_run enq deq deq_all skip [] b = Inr ([], b)"
| "queue_run enq deq deq_all skip (Put d # ops) b = res_bind (enq d b) (queue_run enq deq deq_all skip ops)"
| "queue_run enq deq deq_all skip (Get n # ops) b =
     res_bind (deq n b) (\<lambda>(s, b1). res_bind (queue_run enq deq deq_all skip ops b1) (\<lambda>(out, b2). Inr (s # out, b2)))"
| "queue_run enq deq deq_all skip (Get_all # ops) b =
     res_bind (deq_all b) (\<lambda>(s, b1). res_bind (queue_run enq deq deq_all skip ops b1) (\<lambda>(out, b2). Inr (s # out, b2)))"
| "queue_run enq deq deq_all skip (Discard n # ops) b = queue_run enq deq deq_all skip ops (skip n b)"

lemma fifo_stream:
  assumes "fifo ops q = Some (out, r)" "\<forall>n. Discard n \<notin> set ops"
  shows "concat out @ r = q @ puts ops"
  using assms
proof (induction ops arbitrary: q out r)
  case (Cons op ops)
  then have "\<forall>n. Discard n \<notin> set ops" by simp
  note IH = Cons.IH [OF _ this]
  show ?case
  proof (cases op)
    case (Put d)
    then show ?thesis using Cons.prems IH [of "q @ d" out r] by simp
  next
    case (Get n)
    then obtain out' where o: "out = take (unat n) q # out'" "fifo ops (drop (unat n) q) = Some (out', r)"
      using Cons.prems by (auto split: if_splits)
    from IH [OF o(2)] show ?thesis using Get o(1) by (metis append.assoc append_take_drop_id concat.simps(2) puts.simps(3))
  next
    case Get_all
    then show ?thesis using Cons.prems IH [of "[]"] by auto
  next
    case (Discard n)
    then show ?thesis using Cons.prems(2) by auto
  qed
qed simp

locale byte_queue =
  fixes inv :: "'b \<Rightarrow> bool"
    and content :: "'b \<Rightarrow> bytes"
    and pos :: "'b \<Rightarrow> nat"
    and enq :: "bytes \<Rightarrow> 'b \<Rightarrow> 'b res"
    and deq :: "size_t \<Rightarrow> 'b \<Rightarrow> (bytes \<times> 'b) res"
    and deq_all :: "'b \<Rightarrow> (bytes \<times> 'b) res"
    and skip :: "size_t \<Rightarrow> 'b \<Rightarrow> 'b"
  assumes enq_law: "inv b \<Longrightarrow> pos b + length d \<le> vec_max_size \<Longrightarrow>
      \<exists>b'. enq d b = Inr b' \<and> inv b' \<and> content b' = content b @ d \<and> pos b' \<le> pos b + length d"
    and deq_law: "inv b \<Longrightarrow> unat n \<le> length (content b) \<Longrightarrow>
      \<exists>b'. deq n b = Inr (take (unat n) (content b), b') \<and> inv b' \<and>
           content b' = drop (unat n) (content b) \<and> pos b' \<le> pos b"
    and deq_all_law: "inv b \<Longrightarrow> \<exists>b'. deq_all b = Inr (content b, b') \<and> inv b' \<and> content b' = [] \<and> pos b' \<le> pos b"
    and skip_law: "inv b \<Longrightarrow> inv (skip n b) \<and> content (skip n b) = drop (unat n) (content b) \<and> pos (skip n b) \<le> pos b"
begin

lemma queue_refines:
  assumes "inv b" "pos b + length (puts ops) \<le> vec_max_size" "fifo ops (content b) = Some (out, r)"
  shows "\<exists>b'. queue_run enq deq deq_all skip ops b = Inr (out, b') \<and> inv b' \<and> content b' = r"
  using assms
proof (induction ops arbitrary: b out)
  case (Cons op ops)
  show ?case
  proof (cases op)
    case (Put d)
    with Cons.prems obtain b1 where "enq d b = Inr b1" "inv b1" "content b1 = content b @ d"
      "pos b1 \<le> pos b + length d" using enq_law [of b d] by auto
    with Cons.IH [of b1] Cons.prems Put show ?thesis by auto
  next
    case (Get n)
    with Cons.prems obtain b1 out' where "deq n b = Inr (take (unat n) (content b), b1)"
      "inv b1" "content b1 = drop (unat n) (content b)" "pos b1 \<le> pos b" "out = take (unat n) (content b) # out'"
      "fifo ops (content b1) = Some (out', r)"
      using deq_law [of b n] by (auto split: if_splits)
    with Cons.IH [of b1 out'] Cons.prems(2) Get show ?thesis by auto
  next
    case Get_all
    with Cons.prems obtain b1 out' where "deq_all b = Inr (content b, b1)" "inv b1" "content b1 = []" "pos b1 \<le> pos b"
      "out = content b # out'" "fifo ops (content b1) = Some (out', r)"
      using deq_all_law [of b] by auto
    with Cons.IH [of b1 out'] Cons.prems(2) Get_all show ?thesis by auto
  next
    case (Discard n)
    with Cons.IH [of "skip n b" out] Cons.prems skip_law [of b n] show ?thesis by auto
  qed
qed simp

end

interpretation bufq: byte_queue buf_inv readable "\<lambda>b. unat (write_index b)"
  Append RetriveAsString RetriveAllAsString Retrive
proof unfold_locales
  fix b :: buffer and d :: bytes
  assume "buf_inv b" "unat (write_index b) + length d \<le> vec_max_size"
  with Append_ok [of b d]
  show "\<exists>b'. Append d b = Inr b' \<and> buf_inv b' \<and> readable b' = readable b @ d \<and>
      unat (write_index b') \<le> unat (write_index b) + length d" by force
next
  fix b and n :: size_t
  assume "buf_inv b" "unat n \<le> length (readable b)"
  then show "\<exists>b'. RetriveAsString n b = Inr (take (unat n) (readable b), b') \<and> buf_inv b' \<and>
      readable b' = drop (unat n) (readable b) \<and> unat (write_index b') \<le> unat (write_index b)"
    using RetriveAsString_ok [of b n] Retrive_ok [of b n] length_readable [of b] by (auto simp: word_le_nat_alt)
next
  fix b assume "buf_inv b"
  then show "\<exists>b'. RetriveAllAsString b = Inr (readable b, b') \<and> buf_inv b' \<and> readable b' = [] \<and>
      unat (write_index b') \<le> unat (write_index b)"
    using RetriveAsString_ok [of b "ReadableBytes b"] Retrive_ok [of b "ReadableBytes b"] length_readable [of b]
    by (auto simp: RetriveAllAsString_def)
next
  fix b and n :: size_t assume "buf_inv b"
  then show "buf_inv (Retrive n b) \<and> readable (Retrive n b) = drop (unat n) (readable b) \<and>
      unat (write_index (Retrive n b)) \<le> unat (write_index b)" using Retrive_ok [of b n] by simp
qed

section \<open>Properties\<close>

text \<open>
  C11. The buffer is a queue of bytes: from a fresh buffer, every sequence of \<open>Append\<close>,
  \<open>RetriveAsString\<close>, \<open>RetriveAllAsString\<close> and \<open>Retrive\<close> calls that stores fewer bytes than a vector can hold
  and never asks \<open>RetriveAsString\<close> for more bytes than are unread runs without a fault, returns the
  strings that a FIFO queue returns and leaves the bytes it holds. If nothing is discarded, the
  strings handed out followed by the bytes still unread are exactly the bytes appended, in order,
  whichever mix of growing and compacting \<open>MakeSpace\<close> chose.
\<close>

theorem buffer_stream_integrity:
  assumes "Buffer_ctor n = Inr b" "unat n + 8 \<le> vec_max_size"
    and "8 + length (puts ops) \<le> vec_max_size" "fifo ops [] = Some (out, r)"
  shows "\<exists>b'. queue_run Append RetriveAsString RetriveAllAsString Retrive ops b = Inr (out, b') \<and>
           buf_inv b' \<and> readable b' = r \<and> ((\<forall>n. Discard n \<notin> set ops) \<longrightarrow> concat out @ readable b' = puts ops)"
proof -
  from Buffer_ctor_ok [OF assms(2)] assms(1)
  have b: "buf_inv b" "readable b = []" "write_index b = kCheapPrepend" by auto
  then obtain b' where "queue_run Append RetriveAsString RetriveAllAsString Retrive ops b = Inr (out, b')" "buf_inv b'" "readable b' = r"
    using bufq.queue_refines [of b ops out r] assms(3,4) by auto
  then show ?thesis using fifo_stream [OF assms(4)] by auto
qed

definition small_buffer :: buffer where
  "small_buffer = \<lparr>buf = replicate 12 CHR 0x00, read_index = 8, write_index = 8\<rparr>"

lemma small_buffer_ctor: "Buffer_ctor 4 = Inr small_buffer"
  by (simp add: Buffer_ctor_def vec_resize_def small_buffer_def kCheapPrepend_def
      vec_max_size_def)

theorem buffer_stream_integrity_witness:
  "\<exists>b'. queue_run Append RetriveAsString RetriveAllAsString Retrive [Put ''hello'', Get 2, Put ''!'', Get_all] small_buffer
      = Inr ([''he'', ''llo!''], b') \<and> buf_inv b' \<and> readable b' = []"
  using buffer_stream_integrity [OF small_buffer_ctor, of "[Put ''hello'', Get 2, Put ''!'', Get_all]" "[''he'', ''llo!'']" "[]"]
  by (simp add: vec_max_size_def)

text \<open>
  Outside the contract: asked for more than is unread, \<open>RetriveAsString\<close> returns the unread bytes
  followed by whatever the vector holds behind them, or reads past its end.
\<close>

lemma RetriveAsString_beyond:
  assumes "buf_inv b" "length (readable b) < unat n"
  shows "RetriveAsString n b =
    (if unat (read_index b) + unat n \<le> length (buf b)
     then Inr (readable b @ take (unat n - length (readable b)) (drop (unat (write_index b)) (buf b)), RetriveAll b)
     else Inl OutOfBounds)"
proof -
  note bd = buf_inv_bounds [OF assms(1)]
  have "\<not> n < ReadableBytes b" using assms length_readable [OF assms(1)] by (simp add: word_less_nat_alt)
  then have r: "Retrive n b = RetriveAll b" by (simp add: Retrive_def)
  have "take (unat n) (drop (unat (read_index b)) (buf b)) =
      readable b @ take (unat n - length (readable b)) (drop (unat (write_index b)) (buf b))"
    using take_add [of "length (readable b)" "unat n - length (readable b)" "drop (unat (read_index b)) (buf b)"] assms bd
    by (simp add: readable_def drop_take)
  then show ?thesis by (simp add: RetriveAsString_def read_bytes_def r)
qed

text \<open>
  \<open>Append\<close> on every branch: with the invariant and any amount of data that can
  exist, it either stores the data after the unread bytes and keeps the invariant, or
  raises \<open>std::length_error\<close>, and then only because the vector's maximal size would be
  exceeded. It never writes outside the vector.
\<close>

theorem Append_spec:
  assumes "buf_inv b" "length data \<le> vec_max_size"
  shows "case Append data b of
      Inr b' \<Rightarrow> buf_inv b' \<and> readable b' = readable b @ data
    | Inl f \<Rightarrow> f = LengthError \<and> vec_max_size < unat (write_index b) + length data"
  using Append_ok [OF assms] by auto

theorem Append_spec_witness:
  "case Append ''hello'' small_buffer of
      Inr b' \<Rightarrow> buf_inv b' \<and> readable b' = readable small_buffer @ ''hello''
    | Inl f \<Rightarrow> f = LengthError \<and> vec_max_size < unat (write_index small_buffer) + length ''hello''"
proof -
  have "buf_inv small_buffer" by (simp add: small_buffer_def buf_inv_def vec_max_size_def)
  then show ?thesis using Append_spec [of small_buffer "''hello''"] by (simp add: vec_max_size_def)
qed

text \<open>
  C15. \<open>ReadFd\<close> with its scatter read: on an error of \<open>readv\<close> the buffer is unchanged, the
  error number is saved and \<open>-1\<close> is returned; otherwise the bytes received are appended
  to the unread bytes in order and counted, whether they fit the buffer's own space or
  were split over the 64k stack area.
\<close>

theorem ReadFd_spec:
  assumes "buf_inv b" "readv_contract readv" "unat (write_index b) + 131070 \<le> vec_max_size"
  shows "case readv fd (read_iov b) of
      Inl e \<Rightarrow> ReadFd readv fd b = Inr (- 1, Some e, b)
    | Inr bs \<Rightarrow> \<exists>b'. ReadFd readv fd b = Inr (int (length bs), None, b') \<and> buf_inv b' \<and>
        readable b' = readable b @ bs"
  using assms by (rule ReadFd_ok)

definition readv_sample :: readv_call where
  "readv_sample fd iov = Inr (take (sum_list (map unat iov)) ''scattered'')"

theorem ReadFd_spec_witness:
  "\<exists>b'. ReadFd readv_sample 5 small_buffer = Inr (9, None, b') \<and> buf_inv b' \<and>
        readable b' = ''scattered''"
proof -
  have inv: "buf_inv small_buffer" by (simp add: small_buffer_def buf_inv_def vec_max_size_def)
  have con: "readv_contract readv_sample" by (simp add: readv_contract_def readv_sample_def)
  have sz: "unat (write_index small_buffer) + 131070 \<le> vec_max_size"
    by (simp add: small_buffer_def vec_max_size_def)
  have "readv_sample 5 (read_iov small_buffer) = Inr ''scattered''"
    by (simp add: readv_sample_def read_iov_def WriteableBytes_def buf_size_def small_buffer_def
        extrabuf_size_def)
  moreover have "readable small_buffer = []" by (simp add: readable_def small_buffer_def)
  ultimately show ?thesis using ReadFd_spec [OF inv con sz, of 5] by simp
qed

text \<open>
  Space is reused: when the free space before and after the unread bytes (less the
  8 reserved ones) is enough, \<open>Append\<close> succeeds without growing the vector.
\<close>

theorem Append_reuses_space:
  assumes "buf_inv b" "length data + 8 \<le> unat (WriteableBytes b) + unat (PrependableBytes b)"
  shows "\<exists>b'. Append data b = Inr b' \<and> length (buf b') = length (buf b) \<and>
           readable b' = readable b @ data"
proof -
  note bd = buf_inv_bounds [OF assms(1)]
  let ?len = "word_of_nat (length data) :: size_t"
  have lim: "length data \<le> vec_max_size" using assms bd by (simp add: PrependableBytes_def)
  then have len: "unat ?len = length data" by (simp add: unat_size_of_nat vec_max_size_def)
  have sum: "unat (WriteableBytes b + PrependableBytes b)
      = unat (WriteableBytes b) + unat (PrependableBytes b)"
    using assms(1) bd by (intro unat_add_no_overflow) (simp add: PrependableBytes_def)
  have "unat (?len + kCheapPrepend) = length data + 8"
    using len lim by (subst unat_add_no_overflow) (auto simp: vec_max_size_def)
  then have "\<not> WriteableBytes b + PrependableBytes b < ?len + kCheapPrepend"
    using assms(2) sum by (simp add: word_less_nat_alt)
  then obtain b1 where "EnsureWriteableBytes ?len b = Inr b1" "buf_inv b1" "readable b1 = readable b"
      "length data \<le> unat (WriteableBytes b1)" "length (buf b1) = length (buf b)"
  proof (cases "WriteableBytes b < ?len")
    case True
    then have "EnsureWriteableBytes ?len b = MakeSpace ?len b" by (simp add: EnsureWriteableBytes_def)
    moreover assume "\<not> WriteableBytes b + PrependableBytes b < ?len + kCheapPrepend"
    ultimately show ?thesis using MakeSpace_compact [OF assms(1), of ?len] len lim that by metis
  next
    case False
    then have "unat ?len \<le> unat (WriteableBytes b)" by (simp add: word_less_nat_alt)
    then show ?thesis
      using that [of b] False assms(1) len by (simp add: EnsureWriteableBytes_def)
  qed
  with fill_ok [of b1 data] show ?thesis by (auto simp: Append_def Let_def)
qed

definition drained_buffer :: buffer where
  "drained_buffer = \<lparr>buf = replicate 16 CHR 0x00, read_index = 15, write_index = 16\<rparr>"

theorem Append_reuses_space_witness:
  "\<exists>b'. Append ''abcd'' drained_buffer = Inr b' \<and> length (buf b') = 16 \<and>
        readable b' = readable drained_buffer @ ''abcd''"
proof -
  have "buf_inv drained_buffer" by (simp add: drained_buffer_def buf_inv_def vec_max_size_def)
  moreover have "length ''abcd'' + 8
      \<le> unat (WriteableBytes drained_buffer) + unat (PrependableBytes drained_buffer)"
    by (simp add: drained_buffer_def WriteableBytes_def PrependableBytes_def buf_size_def)
  ultimately show ?thesis using Append_reuses_space [of drained_buffer "''abcd''"]
    by (simp add: drained_buffer_def)
qed

text \<open>
  The public \<open>EnsureWriteableBytes\<close> computes \<open>len + kCheapPrepend\<close> in \<open>size_t\<close>: for a
  request within 8 bytes of the type's maximum the sum wraps, the buffer is only
  compacted, and the call returns normally with far less room than was asked for.
\<close>

theorem EnsureWriteableBytes_wraps:
  "EnsureWriteableBytes (- 8) small_buffer = Inr small_buffer \<and>
   WriteableBytes small_buffer = 4 \<and> WriteableBytes small_buffer < - 8"
  by (simp add: EnsureWriteableBytes_def MakeSpace_def WriteableBytes_def ReadableBytes_def
      PrependableBytes_def buf_size_def small_buffer_def kCheapPrepend_def)

end
