(* ===== verification/Tcp_Connection.thy ===== *)
theory Tcp_Connection
  imports Buffer Epoll_Poller "HOL-Library.Sublist"
begin

text \<open>
  \<open>TcpConnection\<close> (\<^verbatim>\<open>include/tcp_connection.h\<close>, \<^verbatim>\<open>src/tcp_connection.cc\<close>): sending, half-close,
  and the four handlers its channel calls. The state is one record with the connection's
  members, the poller of its loop (reached through \<open>poller_ops\<close>), the functors it has queued
  on the loop, and what the socket has taken.

  System calls are arguments: one outcome function per call. The user's callbacks are the
  argument \<open>cb\<close>, which may act on the connection (an echo server sends from its message
  callback); the theorems ask of it that it keeps the connection's invariant, does not take
  back bytes, does not move the state backwards and leaves the channel in the poller (\<open>cb_ok\<close>).
\<close>

section \<open>The class\<close>

datatype conn_state = kConnecting | kConnected | kDisconnecting | kDisconnected

datatype conn_event = ConnectionCallback | MessageCallback | WriteCompleteCallback | CloseCallback

text \<open>
  A functor on the loop: \<open>SendInLoop\<close> bound to a \<open>char*\<close> and a length, \<open>ShutdownInLoop\<close>, or the
  write-complete callback.
\<close>

datatype task = SendTask ptr nat | ShutdownTask | WriteCompleteTask

text \<open>
  \<open>strings\<close> is the memory behind the \<open>char*\<close> arguments: the live character arrays.
  \<open>sock_out\<close> is what \<open>write\<close> has taken, \<open>shut_wr\<close> that \<open>shutdown(SHUT_WR)\<close> was called, \<open>error_log\<close>
  what \<open>HandleError\<close> logged.
\<close>

record 's connection =
  state :: conn_state
  conn_chan :: ptr
  input_buffer :: buffer
  output_buffer :: buffer
  write_complete_set :: bool
  poller_of :: 's
  tasks :: "task list"
  strings :: "ptr \<rightharpoonup> bytes"
  sock_out :: bytes
  shut_wr :: bool
  error_log :: "errno list"

type_synonym 's callbacks = "conn_event \<Rightarrow> 's connection \<Rightarrow> 's connection res"

definition CheckLoopNotNull :: "'s option \<Rightarrow> 's res" where
  "CheckLoopNotNull l = (case l of None \<Rightarrow> Inl Fatal | Some s \<Rightarrow> Inr s)"

text \<open>The constructor; \<open>p\<close> is where the new channel is allocated.\<close>

definition TcpConnection_ctor ::
  "'s poller_ops \<Rightarrow> 's option \<Rightarrow> ptr \<Rightarrow> cint \<Rightarrow> 's connection res" where
  "TcpConnection_ctor P l p fd =
     res_bind (CheckLoopNotNull l) (\<lambda>s.
     res_bind (Buffer_ctor kInitialSize) (\<lambda>inb.
     res_bind (Buffer_ctor kInitialSize) (\<lambda>outb.
       Inr \<lparr>state = kConnecting, conn_chan = p, input_buffer = inb, output_buffer = outb,
            write_complete_set = False,
            poller_of = po_set P p ((Channel_ctor fd)\<lparr>has_read_cb := True, has_write_cb := True,
              has_error_cb := True, has_close_cb := True\<rparr>) s,
            tasks = [], strings = Map.empty, sock_out = [], shut_wr = False, error_log = []\<rparr>)))"

definition Connected :: "'s connection \<Rightarrow> bool" where
  "Connected c \<longleftrightarrow> state c = kConnected"

definition own_channel :: "'s poller_ops \<Rightarrow> 's connection \<Rightarrow> channel res" where
  "own_channel P c =
     (case po_chans P (poller_of c) (conn_chan c) of None \<Rightarrow> Inl UseAfterFree | Some ch \<Rightarrow> Inr ch)"

definition conn_set :: "'s poller_ops \<Rightarrow> (channel \<Rightarrow> channel) \<Rightarrow> 's connection \<Rightarrow> 's connection res" where
  "conn_set P f c =
     res_bind (channel_set P f (conn_chan c) (poller_of c)) (\<lambda>s. Inr (c\<lparr>poller_of := s\<rparr>))"

section \<open>Sending\<close>

definition EWOULDBLOCK :: errno where "EWOULDBLOCK = 11"
definition EPIPE :: errno where "EPIPE = 32"
definition ECONNRESET :: errno where "ECONNRESET = 104"

text \<open>
  The direct write of \<open>SendInLoop\<close>: \<open>nwrote\<close>, \<open>faultError\<close> and the connection. \<open>RunInLoop\<close>
  runs the write-complete callback at once, since \<open>SendInLoop\<close> is in the loop thread.
\<close>

definition send_direct ::
  "'s callbacks \<Rightarrow> write_call \<Rightarrow> cint \<Rightarrow> bytes \<Rightarrow> 's connection \<Rightarrow> (nat \<times> bool \<times> 's connection) res" where
  "send_direct cb write fd data c =
     (case write fd data of
        Inr n \<Rightarrow>
          let c1 = c\<lparr>sock_out := sock_out c @ take n data\<rparr> in
          if length data - n = 0 \<and> write_complete_set c
          then res_bind (cb WriteCompleteCallback c1) (\<lambda>c2. Inr (n, False, c2))
          else Inr (n, False, c1)
      | Inl e \<Rightarrow> Inr (0, e \<noteq> EWOULDBLOCK \<and> (e = EPIPE \<or> e = ECONNRESET), c))"

text \<open>The rest: keep what was not written and ask for writability.\<close>

definition send_queue :: "'s poller_ops \<Rightarrow> bytes \<Rightarrow> 's connection \<Rightarrow> 's connection res" where
  "send_queue P data c =
     res_bind (Append data (output_buffer c)) (\<lambda>b.
     res_bind (own_channel P c) (\<lambda>ch.
       if \<not> IsWriting ch then conn_set P enable_write (c\<lparr>output_buffer := b\<rparr>)
       else Inr (c\<lparr>output_buffer := b\<rparr>)))"

definition SendInLoop ::
  "'s poller_ops \<Rightarrow> 's callbacks \<Rightarrow> write_call \<Rightarrow> bytes \<Rightarrow> 's connection \<Rightarrow> 's connection res" where
  "SendInLoop P cb write data c =
     (if state c = kDisconnected then Inr c
      else res_bind (own_channel P c) (\<lambda>ch.
        res_bind
          (if \<not> IsWriting ch \<and> ReadableBytes (output_buffer c) = 0
           then send_direct cb write (ch_fd ch) data c
           else Inr (0, False, c))
          (\<lambda>(nwrote, faultError, c1).
            if \<not> faultError \<and> 0 < length data - nwrote then send_queue P (drop nwrote data) c1
            else Inr c1)))"

text \<open>\<open>n\<close> bytes from the pointer \<open>p\<close>.\<close>

definition read_chars :: "ptr \<Rightarrow> nat \<Rightarrow> 's connection \<Rightarrow> bytes res" where
  "read_chars p n c =
     (case strings c p of
        None \<Rightarrow> Inl UseAfterFree
      | Some d \<Rightarrow> if n \<le> length d then Inr (take n d) else Inl OutOfBounds)"

definition queue_task :: "task \<Rightarrow> 's connection \<Rightarrow> 's connection" where
  "queue_task t c = c\<lparr>tasks := tasks c @ [t]\<rparr>"

text \<open>
  The three overloads of \<open>Send\<close>; \<open>in_loop\<close> is \<open>loop_->IsInLoopThread()\<close>. A \<open>std::string\<close> is given by
  the address of its characters. The last one binds \<open>c_str()\<close> of a temporary, allocated at
  \<open>tmp\<close>, which is destroyed at the end of the statement.
\<close>

definition Send_string ::
  "'s poller_ops \<Rightarrow> 's callbacks \<Rightarrow> write_call \<Rightarrow> bool \<Rightarrow> ptr \<Rightarrow> 's connection \<Rightarrow> 's connection res" where
  "Send_string P cb write in_loop p c =
     (if state c = kConnected
      then case strings c p of
          None \<Rightarrow> Inl UseAfterFree
        | Some d \<Rightarrow> if in_loop then SendInLoop P cb write d c
                    else Inr (queue_task (SendTask p (length d)) c)
      else Inr c)"

definition Send_chars ::
  "'s poller_ops \<Rightarrow> 's callbacks \<Rightarrow> write_call \<Rightarrow> bool \<Rightarrow> ptr \<Rightarrow> cint \<Rightarrow> 's connection \<Rightarrow> 's connection res" where
  "Send_chars P cb write in_loop p len c =
     (if state c = kConnected
      then let n = unat (scast len :: size_t) in
        if in_loop then res_bind (read_chars p n c) (\<lambda>d. SendInLoop P cb write d c)
        else Inr (queue_task (SendTask p n) c)
      else Inr c)"

definition Send_Buffer ::
  "'s poller_ops \<Rightarrow> 's callbacks \<Rightarrow> write_call \<Rightarrow> bool \<Rightarrow> ptr \<Rightarrow> buffer \<Rightarrow> 's connection \<Rightarrow>
   (buffer \<times> 's connection) res" where
  "Send_Buffer P cb write in_loop tmp b c =
     (if state c = kConnected
      then if in_loop
        then res_bind (read_bytes (ReadableBytes b) b) (\<lambda>d.
          res_bind (SendInLoop P cb write d c) (\<lambda>c1. Inr (RetriveAll b, c1)))
        else let len = ReadableBytes b in
          res_bind (RetriveAllAsString b) (\<lambda>(s, b1).
            let c1 = c\<lparr>strings := (strings c)(tmp \<mapsto> s)\<rparr>;
                c2 = queue_task (SendTask tmp (unat len)) c1
            in Inr (b1, c2\<lparr>strings := (strings c2)(tmp := None)\<rparr>))
      else Inr (b, c))"

section \<open>Closing\<close>

definition ShutdownWrite :: "'s connection \<Rightarrow> 's connection" where
  "ShutdownWrite c = c\<lparr>shut_wr := True\<rparr>"

definition ShutdownInLoop :: "'s poller_ops \<Rightarrow> 's connection \<Rightarrow> 's connection res" where
  "ShutdownInLoop P c =
     res_bind (own_channel P c) (\<lambda>ch. if \<not> IsWriting ch then Inr (ShutdownWrite c) else Inr c)"

definition ShutDown :: "'s poller_ops \<Rightarrow> bool \<Rightarrow> 's connection \<Rightarrow> 's connection res" where
  "ShutDown P in_loop c =
     (if state c = kConnected
      then let c1 = c\<lparr>state := kDisconnecting\<rparr> in
        if in_loop then ShutdownInLoop P c1 else Inr (queue_task ShutdownTask c1)
      else Inr c)"

text \<open>The loop runs the oldest functor of the connection.\<close>

definition run_task ::
  "'s poller_ops \<Rightarrow> 's callbacks \<Rightarrow> write_call \<Rightarrow> task \<Rightarrow> 's connection \<Rightarrow> 's connection res" where
  "run_task P cb write t c =
     (case t of
        SendTask p n \<Rightarrow> res_bind (read_chars p n c) (\<lambda>d. SendInLoop P cb write d c)
      | ShutdownTask \<Rightarrow> ShutdownInLoop P c
      | WriteCompleteTask \<Rightarrow> cb WriteCompleteCallback c)"

definition ConnectionEstablished :: "'s poller_ops \<Rightarrow> 's callbacks \<Rightarrow> ptr \<Rightarrow> 's connection \<Rightarrow> 's connection res" where
  "ConnectionEstablished P cb self c =
     (let c1 = c\<lparr>state := kConnected\<rparr> in
      res_bind (own_channel P c1) (\<lambda>ch.
      res_bind (conn_set P enable_read (c1\<lparr>poller_of := po_set P (conn_chan c1) (Tie self ch) (poller_of c1)\<rparr>))
        (cb ConnectionCallback)))"

definition conn_remove :: "'s poller_ops \<Rightarrow> 's connection \<Rightarrow> 's connection res" where
  "conn_remove P c = res_bind (po_remove P (conn_chan c) (poller_of c)) (\<lambda>s. Inr (c\<lparr>poller_of := s\<rparr>))"

definition ConnectionDestroyed :: "'s poller_ops \<Rightarrow> 's callbacks \<Rightarrow> 's connection \<Rightarrow> 's connection res" where
  "ConnectionDestroyed P cb c =
     res_bind
       (if state c = kConnected
        then res_bind (conn_set P disable_all (c\<lparr>state := kDisconnected\<rparr>)) (cb ConnectionCallback)
        else Inr c)
       (conn_remove P)"

section \<open>Handlers\<close>

definition conn_HandleClose :: "'s poller_ops \<Rightarrow> 's callbacks \<Rightarrow> 's connection \<Rightarrow> 's connection res" where
  "conn_HandleClose P cb c =
     res_bind (conn_set P disable_all (c\<lparr>state := kDisconnected\<rparr>)) (\<lambda>c1.
     res_bind (cb ConnectionCallback c1) (cb CloseCallback))"

text \<open>\<open>so\<close> is the outcome of \<open>getsockopt(SO_ERROR)\<close>: its error number, or the value it returns.\<close>

definition conn_HandleError :: "errno + errno \<Rightarrow> 's connection \<Rightarrow> 's connection" where
  "conn_HandleError so c = c\<lparr>error_log := error_log c @ [case so of Inl e \<Rightarrow> e | Inr v \<Rightarrow> v]\<rparr>"

definition conn_HandleRead ::
  "'s poller_ops \<Rightarrow> 's callbacks \<Rightarrow> readv_call \<Rightarrow> errno + errno \<Rightarrow> 's connection \<Rightarrow> 's connection res" where
  "conn_HandleRead P cb readv so c =
     res_bind (own_channel P c) (\<lambda>ch.
     res_bind (ReadFd readv (ch_fd ch) (input_buffer c)) (\<lambda>(n, save_errno, b).
       let c1 = c\<lparr>input_buffer := b\<rparr> in
       if 0 < n then cb MessageCallback c1
       else if n = 0 then conn_HandleClose P cb c1
       else Inr (conn_HandleError so c1)))"

definition conn_HandleWrite :: "'s poller_ops \<Rightarrow> write_call \<Rightarrow> 's connection \<Rightarrow> 's connection res" where
  "conn_HandleWrite P write c =
     res_bind (own_channel P c) (\<lambda>ch.
       if IsWriting ch
       then res_bind (WriteFd write (ch_fd ch) (output_buffer c)) (\<lambda>(n, save_errno).
         if 0 < n
         then let c1 = c\<lparr>sock_out := sock_out c @ take (nat n) (readable (output_buffer c)),
                         output_buffer := Retrive (word_of_int n) (output_buffer c)\<rparr> in
           if ReadableBytes (output_buffer c1) = 0
           then res_bind (conn_set P disable_write c1) (\<lambda>c2.
             let c3 = (if write_complete_set c2 then queue_task WriteCompleteTask c2 else c2) in
             if state c3 = kDisconnecting then ShutdownInLoop P c3 else Inr c3)
           else Inr c1
         else Inr c)
       else Inr c)"

text \<open>What the channel's dispatch calls, and the dispatch of one reported event.\<close>

fun conn_handler ::
  "'s poller_ops \<Rightarrow> 's callbacks \<Rightarrow> readv_call \<Rightarrow> write_call \<Rightarrow> errno + errno \<Rightarrow> handler \<Rightarrow>
   's connection \<Rightarrow> 's connection res" where
  "conn_handler P cb readv write so OnClose c = conn_HandleClose P cb c"
| "conn_handler P cb readv write so OnError c = Inr (conn_HandleError so c)"
| "conn_handler P cb readv write so OnRead c = conn_HandleRead P cb readv so c"
| "conn_handler P cb readv write so OnWrite c = conn_HandleWrite P write c"

fun conn_dispatch ::
  "'s poller_ops \<Rightarrow> 's callbacks \<Rightarrow> readv_call \<Rightarrow> write_call \<Rightarrow> errno + errno \<Rightarrow> handler list \<Rightarrow>
   's connection \<Rightarrow> 's connection res" where
  "conn_dispatch P cb readv write so [] c = Inr c"
| "conn_dispatch P cb readv write so (h # hs) c =
     res_bind (conn_handler P cb readv write so h c) (conn_dispatch P cb readv write so hs)"

definition conn_HandleEvent ::
  "'s poller_ops \<Rightarrow> 's callbacks \<Rightarrow> readv_call \<Rightarrow> write_call \<Rightarrow> errno + errno \<Rightarrow> (ptr \<Rightarrow> bool) \<Rightarrow>
   's connection \<Rightarrow> 's connection res" where
  "conn_HandleEvent P cb readv write so alive c =
     res_bind (own_channel P c) (\<lambda>ch. conn_dispatch P cb readv write so (HandleEvent alive ch) c)"

section \<open>Invariant\<close>

text \<open>How the poller is observed: the parameters of the locale \<open>poller\<close> that are not code.\<close>

record 's poller_view =
  pv_inv :: "'s \<Rightarrow> bool"
  pv_registered :: "'s \<Rightarrow> ptr \<Rightarrow> bool"
  pv_fd_free :: "'s \<Rightarrow> cint \<Rightarrow> bool"
  pv_watch :: "'s \<Rightarrow> cint \<Rightarrow> cint"

text \<open>
  An open connection is registered and reads, and asks for writability exactly while its
  output buffer holds bytes; a closed one asks for nothing; what the kernel watches for a
  registered connection is its mask.
\<close>

definition open_state :: "conn_state \<Rightarrow> bool" where
  "open_state st \<longleftrightarrow> st = kConnected \<or> st = kDisconnecting"

definition conn_state_ok :: "'s poller_view \<Rightarrow> 's connection \<Rightarrow> channel \<Rightarrow> bool" where
  "conn_state_ok V c ch \<longleftrightarrow>
     (case state c of
        kConnecting \<Rightarrow> index ch = - 1 \<and> pv_fd_free V (poller_of c) (ch_fd ch) \<and>
          \<not> pv_registered V (poller_of c) (conn_chan c) \<and> events ch = 0 \<and> readable (output_buffer c) = []
      | kDisconnected \<Rightarrow> events ch = 0
      | _ \<Rightarrow> pv_registered V (poller_of c) (conn_chan c) \<and> IsReading ch \<and>
          (IsWriting ch \<longleftrightarrow> readable (output_buffer c) \<noteq> []))"

definition conn_inv :: "'s poller_ops \<Rightarrow> 's poller_view \<Rightarrow> 's connection \<Rightarrow> bool" where
  "conn_inv P V c \<longleftrightarrow> pv_inv V (poller_of c) \<and> buf_inv (input_buffer c) \<and> buf_inv (output_buffer c) \<and>
     (\<exists>ch. po_chans P (poller_of c) (conn_chan c) = Some ch \<and> events_ok ch \<and>
        (pv_registered V (poller_of c) (conn_chan c) \<longrightarrow> pv_watch V (poller_of c) (ch_fd ch) = events ch) \<and>
        conn_state_ok V c ch)"

text \<open>All bytes accepted from the user, in order: taken by the socket, then waiting.\<close>

definition stream :: "'s connection \<Rightarrow> bytes" where
  "stream c = sock_out c @ readable (output_buffer c)"

fun rank :: "conn_state \<Rightarrow> nat" where
  "rank kConnecting = 0" | "rank kConnected = 1" | "rank kDisconnecting = 2" | "rank kDisconnected = 3"

definition cb_ok :: "'s poller_ops \<Rightarrow> 's poller_view \<Rightarrow> 's callbacks \<Rightarrow> bool" where
  "cb_ok P V cb \<longleftrightarrow> (\<forall>e c. conn_inv P V c \<longrightarrow>
     (\<exists>c'. cb e c = Inr c' \<and> conn_inv P V c' \<and> prefix (stream c) (stream c') \<and>
           rank (state c) \<le> rank (state c') \<and> conn_chan c' = conn_chan c \<and>
           (pv_registered V (poller_of c) (conn_chan c) \<longrightarrow> pv_registered V (poller_of c') (conn_chan c))))"

lemma rank_closed: "rank kDisconnected \<le> rank st \<longleftrightarrow> st = kDisconnected"
  by (cases st) simp_all

lemma IsReading_setters:
  assumes "events_ok c"
  shows "IsReading (enable_read c)" "IsReading (enable_write c) = IsReading c"
    "IsReading (disable_write c) = IsReading c" "\<not> IsReading (disable_all c)"
    "IsWriting (enable_read c) = IsWriting c"
  using assms
  by (auto simp: events_ok_def IsReading_def IsWriting_def channel_setters event_flags)

lemma IsWriting_none: "events c = 0 \<Longrightarrow> \<not> IsWriting c"
  by (simp add: IsWriting_def)

lemma conn_inv_frame [simp]:
  "conn_inv P V (c\<lparr>sock_out := x\<rparr>) = conn_inv P V c"
  "conn_inv P V (c\<lparr>tasks := ts\<rparr>) = conn_inv P V c"
  "conn_inv P V (c\<lparr>strings := m\<rparr>) = conn_inv P V c"
  "conn_inv P V (c\<lparr>shut_wr := w\<rparr>) = conn_inv P V c"
  "conn_inv P V (c\<lparr>error_log := l\<rparr>) = conn_inv P V c"
  by (simp_all add: conn_inv_def conn_state_ok_def cong: conn_state.case_cong)

lemma queue_task_frame [simp]:
  "conn_inv P V (queue_task t c) = conn_inv P V c" "stream (queue_task t c) = stream c"
  "state (queue_task t c) = state c"
  by (simp_all add: queue_task_def stream_def)

lemma conn_inv_openD:
  assumes "conn_inv P V c" "open_state (state c)"
  obtains ch where "own_channel P c = Inr ch" "po_chans P (poller_of c) (conn_chan c) = Some ch"
    "events_ok ch" "pv_inv V (poller_of c)" "pv_registered V (poller_of c) (conn_chan c)"
    "pv_watch V (poller_of c) (ch_fd ch) = events ch" "IsReading ch"
    "IsWriting ch \<longleftrightarrow> readable (output_buffer c) \<noteq> []"
    "buf_inv (input_buffer c)" "buf_inv (output_buffer c)"
  using assms by (auto simp: conn_inv_def conn_state_ok_def open_state_def own_channel_def)

lemma conn_inv_openI:
  assumes "po_chans P (poller_of c) (conn_chan c) = Some ch" "events_ok ch" "pv_inv V (poller_of c)"
    "pv_registered V (poller_of c) (conn_chan c)" "pv_watch V (poller_of c) (ch_fd ch) = events ch"
    "IsReading ch" "IsWriting ch \<longleftrightarrow> readable (output_buffer c) \<noteq> []"
    "buf_inv (input_buffer c)" "buf_inv (output_buffer c)" "open_state (state c)"
  shows "conn_inv P V c"
  using assms by (auto simp: conn_inv_def conn_state_ok_def open_state_def)

lemma cb_okD:
  assumes "cb_ok P V cb" "conn_inv P V c"
  obtains c' where "cb e c = Inr c'" "conn_inv P V c'" "prefix (stream c) (stream c')"
    "rank (state c) \<le> rank (state c')" "conn_chan c' = conn_chan c"
    "pv_registered V (poller_of c) (conn_chan c) \<longrightarrow> pv_registered V (poller_of c') (conn_chan c)"
  using assms unfolding cb_ok_def by blast

section \<open>The connection over any poller\<close>

locale conn_loop = poller "pv_inv V" "po_chans P" "po_set P" "pv_registered V" "pv_fd_free V" "pv_watch V"
    "po_update P" "po_remove P" for P :: "'s poller_ops" and V :: "'s poller_view"
begin

lemma conn_set_ok:
  assumes "pv_inv V (poller_of c)" "po_chans P (poller_of c) (conn_chan c) = Some ch" "events_ok ch"
    and "pv_registered V (poller_of c) (conn_chan c) \<or> index ch = - 1 \<and> pv_fd_free V (poller_of c) (ch_fd ch)"
    and "f \<in> {enable_read, disable_read, enable_write, disable_write, disable_all}"
  obtains s' ch' where "conn_set P f c = Inr (c\<lparr>poller_of := s'\<rparr>)" "pv_inv V s'"
    "pv_registered V s' (conn_chan c)" "po_chans P s' (conn_chan c) = Some ch'" "events ch' = events (f ch)"
    "ch_fd ch' = ch_fd ch" "pv_watch V s' = (pv_watch V (poller_of c))(ch_fd ch := events (f ch))"
    "events_ok ch'"
proof -
  have "\<exists>e. f ch = ch\<lparr>events := e\<rparr>" using assms(5) by (auto simp: channel_setters)
  then obtain e where e: "f ch = ch\<lparr>events := e\<rparr>" by blast
  have ok: "events_ok (f ch)" using assms(3,5) events_ok_setters by auto
  from set_events_then_update [OF assms(1,2,4) e ok] that ok assms(2)
  show thesis by (auto simp: conn_set_def channel_set_def events_ok_def)
qed

lemma send_queue_ok:
  assumes "conn_inv P V c" "open_state (state c)" "data \<noteq> []"
    "unat (write_index (output_buffer c)) + length data \<le> vec_max_size"
  shows "\<exists>b s. send_queue P data c = Inr (c\<lparr>output_buffer := b, poller_of := s\<rparr>) \<and>
    conn_inv P V (c\<lparr>output_buffer := b, poller_of := s\<rparr>) \<and> readable b = readable (output_buffer c) @ data"
proof -
  from conn_inv_openD [OF assms(1,2)] obtain ch where ch: "own_channel P c = Inr ch"
    "po_chans P (poller_of c) (conn_chan c) = Some ch"
    "events_ok ch" "pv_inv V (poller_of c)" "pv_registered V (poller_of c) (conn_chan c)"
    "pv_watch V (poller_of c) (ch_fd ch) = events ch" "IsReading ch"
    "IsWriting ch \<longleftrightarrow> readable (output_buffer c) \<noteq> []"
    "buf_inv (input_buffer c)" "buf_inv (output_buffer c)" .
  from Append_ok [OF ch(10), of data] assms(4) obtain b where
    b: "Append data (output_buffer c) = Inr b" "buf_inv b" "readable b = readable (output_buffer c) @ data"
    by fastforce
  let ?c = "c\<lparr>output_buffer := b\<rparr>"
  show ?thesis
  proof (cases "IsWriting ch")
    case True
    have "conn_inv P V ?c"
      by (rule conn_inv_openI [of P ?c ch V]) (use ch b assms True in simp_all)
    then show ?thesis using True ch(1) b by (intro exI [of _ b] exI [of _ "poller_of c"])
        (simp add: send_queue_def)
  next
    case False
    obtain s' ch' where s: "conn_set P enable_write ?c = Inr (?c\<lparr>poller_of := s'\<rparr>)" "pv_inv V s'"
      "pv_registered V s' (conn_chan c)" "po_chans P s' (conn_chan c) = Some ch'"
      "events ch' = events (enable_write ch)" "ch_fd ch' = ch_fd ch"
      "pv_watch V s' = (pv_watch V (poller_of c))(ch_fd ch := events (enable_write ch))" "events_ok ch'"
      using conn_set_ok [of ?c ch enable_write] ch by auto
    have w: "IsWriting ch'" "IsReading ch'"
      using s(5) IsWriting_setters(1) [of ch] IsReading_setters(2) [OF ch(3)] ch(7)
      by (simp_all add: IsWriting_def IsReading_def)
    have "conn_inv P V (?c\<lparr>poller_of := s'\<rparr>)"
      by (rule conn_inv_openI [of P _ ch']) (use ch b s w assms in simp_all)
    then show ?thesis using False ch(1) b s(1) by (intro exI [of _ b] exI [of _ s'])
        (simp add: send_queue_def)
  qed
qed

end

section \<open>Every operation keeps the invariant\<close>

text \<open>
  The direct write fails for good: the connection is idle and the peer is gone. This is the
  one case in which \<open>SendInLoop\<close> drops data on an open connection.
\<close>

definition write_fails :: "'s poller_ops \<Rightarrow> write_call \<Rightarrow> bytes \<Rightarrow> 's connection \<Rightarrow> bool" where
  "write_fails P write data c \<longleftrightarrow> readable (output_buffer c) = [] \<and>
     (\<exists>ch e. own_channel P c = Inr ch \<and> write (ch_fd ch) data = Inl e \<and> e \<in> {EPIPE, ECONNRESET})"

lemma stream_simps [simp]:
  "stream (c\<lparr>poller_of := s\<rparr>) = stream c" "stream (c\<lparr>strings := m\<rparr>) = stream c"
  "stream (c\<lparr>shut_wr := w\<rparr>) = stream c" "stream (c\<lparr>error_log := l\<rparr>) = stream c"
  "stream (c\<lparr>state := st\<rparr>) = stream c" "stream (c\<lparr>input_buffer := b\<rparr>) = stream c"
  by (simp_all add: stream_def)

context conn_loop
begin

lemma send_rest:
  assumes "conn_inv P V c" "open_state (state c)"
    "unat (write_index (output_buffer c)) + length data \<le> vec_max_size"
  shows "\<exists>c'. (if 0 < length data then send_queue P data c else Inr c) = Inr c' \<and> conn_inv P V c' \<and>
    state c' = state c \<and> stream c' = stream c @ data"
  using send_queue_ok [OF assms(1,2) _ assms(3)] assms(1)
  by (cases "data = []") (auto simp: stream_def)

lemma send_direct_ok:
  assumes "conn_inv P V c" "write_contract write" "cb_ok P V cb" "readable (output_buffer c) = []"
  shows "case write fd data of
      Inl e \<Rightarrow> send_direct cb write fd data c = Inr (0, e \<in> {EPIPE, ECONNRESET}, c)
    | Inr n \<Rightarrow> n \<le> length data \<and>
        (let c1 = c\<lparr>sock_out := sock_out c @ take n data\<rparr> in
         if n = length data \<and> write_complete_set c
         then \<exists>c2. send_direct cb write fd data c = Inr (n, False, c2) \<and> conn_inv P V c2 \<and>
              prefix (stream c @ data) (stream c2) \<and> rank (state c) \<le> rank (state c2)
         else send_direct cb write fd data c = Inr (n, False, c1) \<and> conn_inv P V c1)"
proof (cases "write fd data")
  case (Inl e)
  then show ?thesis by (auto simp: send_direct_def EWOULDBLOCK_def EPIPE_def ECONNRESET_def)
next
  case (Inr n)
  let ?c1 = "c\<lparr>sock_out := sock_out c @ take n data\<rparr>"
  have n: "n \<le> length data" using assms(2) Inr by (auto simp: write_contract_def)
  have inv: "conn_inv P V ?c1" using assms(1) by simp
  show ?thesis
  proof (cases "n = length data \<and> write_complete_set c")
    case True
    from cb_okD [OF assms(3) inv] obtain c2 where "cb WriteCompleteCallback ?c1 = Inr c2"
      "conn_inv P V c2" "prefix (stream ?c1) (stream c2)" "rank (state ?c1) \<le> rank (state c2)" .
    then show ?thesis using Inr True assms(4) by (simp add: send_direct_def Let_def stream_def)
  next
    case False
    then show ?thesis using Inr inv n by (auto simp: send_direct_def Let_def)
  qed
qed

lemma SendInLoop_ok:
  assumes "conn_inv P V c" "open_state (state c)" "write_contract write" "cb_ok P V cb"
    "unat (write_index (output_buffer c)) + length data \<le> vec_max_size"
  shows "\<exists>c'. SendInLoop P cb write data c = Inr c' \<and> conn_inv P V c' \<and> rank (state c) \<le> rank (state c') \<and>
    (if write_fails P write data c then c' = c
     else prefix (stream c @ data) (stream c') \<and>
          (\<not> write_complete_set c \<longrightarrow> stream c' = stream c @ data))"
proof -
  from conn_inv_openD [OF assms(1,2)] obtain ch where ch: "own_channel P c = Inr ch"
    "IsWriting ch \<longleftrightarrow> readable (output_buffer c) \<noteq> []" "buf_inv (output_buffer c)" .
  have st: "state c \<noteq> kDisconnected" using assms(2) by (auto simp: open_state_def)
  have empty: "ReadableBytes (output_buffer c) = 0 \<longleftrightarrow> readable (output_buffer c) = []"
    using ch(3) by (rule ReadableBytes_zero)
  show ?thesis
  proof (cases "readable (output_buffer c) = []")
    case False
    then have "\<not> write_fails P write data c" by (simp add: write_fails_def)
    moreover have "SendInLoop P cb write data c = (if 0 < length data then send_queue P data c else Inr c)"
      using False ch st by (simp add: SendInLoop_def)
    ultimately show ?thesis using send_rest [OF assms(1,2,5)] by auto
  next
    case idle: True
    have S: "SendInLoop P cb write data c =
        res_bind (send_direct cb write (ch_fd ch) data c) (\<lambda>(nwrote, faultError, c1).
          if \<not> faultError \<and> 0 < length data - nwrote then send_queue P (drop nwrote data) c1 else Inr c1)"
      using idle ch st empty by (simp add: SendInLoop_def)
    note D = send_direct_ok [OF assms(1,3,4) idle, of "ch_fd ch" data]
    show ?thesis
    proof (cases "write (ch_fd ch) data")
      case (Inl e)
      then have wf: "write_fails P write data c \<longleftrightarrow> e \<in> {EPIPE, ECONNRESET}"
        using idle ch(1) by (auto simp: write_fails_def)
      show ?thesis using S D Inl wf send_rest [OF assms(1,2,5)] assms(1) by auto
    next
      case (Inr n)
      then have wf: "\<not> write_fails P write data c" using ch(1) by (auto simp: write_fails_def)
      show ?thesis
      proof (cases "n = length data \<and> write_complete_set c")
        case True
        then show ?thesis using S D Inr wf by auto
      next
        case False
        let ?c1 = "c\<lparr>sock_out := sock_out c @ take n data\<rparr>"
        have c1: "send_direct cb write (ch_fd ch) data c = Inr (n, False, ?c1)" "conn_inv P V ?c1" "n \<le> length data"
          using D Inr False by (auto simp: Let_def)
        have "unat (write_index (output_buffer ?c1)) + length (drop n data) \<le> vec_max_size"
          using assms(5) by simp
        from send_rest [OF c1(2) _ this] assms(2) obtain c' where
          c': "(if 0 < length (drop n data) then send_queue P (drop n data) ?c1 else Inr ?c1) = Inr c'"
          "conn_inv P V c'" "state c' = state c" "stream c' = stream ?c1 @ drop n data" by auto
        have "stream c' = stream c @ data" using c'(4) idle by (simp add: stream_def)
        moreover have "SendInLoop P cb write data c = Inr c'" using S c1(1) c'(1) by simp
        ultimately show ?thesis using wf c' by auto
      qed
    qed
  qed
qed

end

lemma unat_word_of_len: "buf_inv b \<Longrightarrow> n \<le> length (readable b) \<Longrightarrow> unat (word_of_int (int n) :: size_t) = n"
proof -
  assume b: "buf_inv b" "n \<le> length (readable b)"
  have "length (readable b) \<le> length (buf b)" by (simp add: readable_def)
  then have "n < 2 ^ 64" using b(2) buf_inv_bounds(5) [OF b(1)] by simp
  then show ?thesis by (simp add: unat_size_of_nat)
qed

text \<open>What \<open>HandleWrite\<close> does once \<open>n\<close> bytes were taken: the record before the loop is told.\<close>

definition after_write :: "nat \<Rightarrow> 's connection \<Rightarrow> 's connection" where
  "after_write n c = c\<lparr>sock_out := sock_out c @ take n (readable (output_buffer c)),
     output_buffer := Retrive (word_of_int (int n)) (output_buffer c)\<rparr>"

lemma after_write_stream:
  assumes "buf_inv (output_buffer c)" "n \<le> length (readable (output_buffer c))"
  shows "stream (after_write n c) = stream c" "buf_inv (output_buffer (after_write n c))"
    "readable (output_buffer (after_write n c)) = drop n (readable (output_buffer c))"
  using Retrive_ok [OF assms(1), of "word_of_int (int n)"] unat_word_of_len [OF assms]
  by (simp_all add: after_write_def stream_def)

context conn_loop
begin

lemma ShutdownInLoop_ok:
  assumes "conn_inv P V c"
  shows "\<exists>ch. own_channel P c = Inr ch \<and> ShutdownInLoop P c = Inr (if IsWriting ch then c else ShutdownWrite c)"
  using assms by (auto simp: conn_inv_def ShutdownInLoop_def own_channel_def)

lemma drained:
  assumes "conn_inv P V c" "open_state (state c)" "c1 = after_write (length (readable (output_buffer c))) c"
    "readable (output_buffer c) \<noteq> []"
  shows "\<exists>s. conn_set P disable_write c1 = Inr (c1\<lparr>poller_of := s\<rparr>) \<and> conn_inv P V (c1\<lparr>poller_of := s\<rparr>) \<and>
    (\<exists>ch. own_channel P (c1\<lparr>poller_of := s\<rparr>) = Inr ch \<and> \<not> IsWriting ch)"
proof -
  from conn_inv_openD [OF assms(1,2)] obtain ch where ch:
    "po_chans P (poller_of c) (conn_chan c) = Some ch"
    "events_ok ch" "pv_inv V (poller_of c)" "pv_registered V (poller_of c) (conn_chan c)"
    "pv_watch V (poller_of c) (ch_fd ch) = events ch" "IsReading ch"
    "buf_inv (input_buffer c)" "buf_inv (output_buffer c)" .
  note aw = after_write_stream [OF ch(8) order_refl]
  have c1: "poller_of c1 = poller_of c" "conn_chan c1 = conn_chan c" "state c1 = state c"
      "input_buffer c1 = input_buffer c" by (simp_all add: assms(3) after_write_def)
  obtain s ch' where s: "conn_set P disable_write c1 = Inr (c1\<lparr>poller_of := s\<rparr>)" "pv_inv V s"
      "pv_registered V s (conn_chan c)" "po_chans P s (conn_chan c) = Some ch'"
      "events ch' = events (disable_write ch)" "ch_fd ch' = ch_fd ch"
      "pv_watch V s = (pv_watch V (poller_of c))(ch_fd ch := events (disable_write ch))" "events_ok ch'"
    using conn_set_ok [of c1 ch disable_write] ch c1 by auto
  have w: "\<not> IsWriting ch'" "IsReading ch'"
    using s(5) IsWriting_setters(2) [of ch] IsReading_setters(3) [OF ch(2)] ch(6)
    by (simp_all add: IsWriting_def IsReading_def)
  have "conn_inv P V (c1\<lparr>poller_of := s\<rparr>)"
    by (rule conn_inv_openI [of P _ ch']) (use ch c1 aw s w assms(2,3) in simp_all)
  then show ?thesis using s w c1 by (auto simp: own_channel_def)
qed

lemma HandleWrite_ok:
  assumes "conn_inv P V c" "open_state (state c)" "write_contract write" "own_channel P c = Inr ch"
    "readable (output_buffer c) = bs" "bs \<noteq> []"
  shows "case write (ch_fd ch) bs of
      Inl e \<Rightarrow> conn_HandleWrite P write c = Inr c
    | Inr n \<Rightarrow> \<exists>c'. conn_HandleWrite P write c = Inr c' \<and> conn_inv P V c' \<and> state c' = state c \<and>
        stream c' = stream c \<and> sock_out c' = sock_out c @ take n bs \<and>
        shut_wr c' = (shut_wr c \<or> n = length bs \<and> state c = kDisconnecting) \<and>
        tasks c' = (if n = length bs \<and> write_complete_set c then tasks c @ [WriteCompleteTask] else tasks c)"
proof -
  from conn_inv_openD [OF assms(1,2)] assms(4,5,6) have ch:
    "po_chans P (poller_of c) (conn_chan c) = Some ch"
    "events_ok ch" "pv_inv V (poller_of c)" "pv_registered V (poller_of c) (conn_chan c)"
    "pv_watch V (poller_of c) (ch_fd ch) = events ch" "IsReading ch" "IsWriting ch"
    "buf_inv (input_buffer c)" "buf_inv (output_buffer c)" by (metis Inr_inject)+
  have rb: "read_bytes (ReadableBytes (output_buffer c)) (output_buffer c) = Inr bs"
    using read_bytes_readable [OF ch(9)] length_readable [OF ch(9)] assms(5) by simp
  show ?thesis
  proof (cases "write (ch_fd ch) bs")
    case (Inl e)
    then show ?thesis using ch(7) rb assms(4) by (simp add: conn_HandleWrite_def WriteFd_def)
  next
    case (Inr n)
    have n: "n \<le> length bs" using assms(3) Inr by (auto simp: write_contract_def)
    note aw = after_write_stream [OF ch(9), unfolded assms(5), OF n]
    have zero: "ReadableBytes (output_buffer (after_write n c)) = 0 \<longleftrightarrow> n = length bs"
      using ReadableBytes_zero [OF aw(2)] aw(3) n by auto
    have H: "conn_HandleWrite P write c = (if 0 < n then
        (if n = length bs then res_bind (conn_set P disable_write (after_write n c)) (\<lambda>c2.
             let c3 = (if write_complete_set c2 then queue_task WriteCompleteTask c2 else c2) in
             if state c3 = kDisconnecting then ShutdownInLoop P c3 else Inr c3)
         else Inr (after_write n c)) else Inr c)"
      using ch(7) rb assms(4) Inr zero
      by (simp add: conn_HandleWrite_def WriteFd_def Let_def after_write_def)
    consider "n = 0" | "0 < n" "n \<noteq> length bs" | "n = length bs" "0 < n" using assms(6) by fastforce
    then show ?thesis
    proof cases
      case 1
      then show ?thesis using H Inr assms(1,6) by simp
    next
      case 2
      have "conn_inv P V (after_write n c)"
        by (rule conn_inv_openI [of P _ ch]) (use ch aw 2 n assms(2) in \<open>simp_all add: after_write_def\<close>)
      then show ?thesis using H Inr 2 aw assms(5) by (simp add: after_write_def)
    next
      case 3
      obtain s ch' where s: "conn_set P disable_write (after_write n c) = Inr ((after_write n c)\<lparr>poller_of := s\<rparr>)"
        "conn_inv P V ((after_write n c)\<lparr>poller_of := s\<rparr>)"
        "own_channel P ((after_write n c)\<lparr>poller_of := s\<rparr>) = Inr ch'" "\<not> IsWriting ch'"
        using drained [OF assms(1,2)] assms(5,6) 3 by auto
      then have "ShutdownInLoop P ((after_write n c)\<lparr>poller_of := s\<rparr>)
          = Inr (ShutdownWrite ((after_write n c)\<lparr>poller_of := s\<rparr>))" by (simp add: ShutdownInLoop_def)
      moreover have "ShutdownInLoop P (queue_task t ((after_write n c)\<lparr>poller_of := s\<rparr>))
          = Inr (ShutdownWrite (queue_task t ((after_write n c)\<lparr>poller_of := s\<rparr>)))" for t
        using s by (simp add: ShutdownInLoop_def own_channel_def queue_task_def)
      ultimately show ?thesis
        using H Inr 3 s aw(1) assms(5)
        by (auto simp: Let_def ShutdownWrite_def queue_task_def after_write_def stream_def)
    qed
  qed
qed

end

lemma conn_inv_closedI:
  assumes "po_chans P (poller_of c) (conn_chan c) = Some ch" "events ch = 0" "pv_inv V (poller_of c)"
    "pv_registered V (poller_of c) (conn_chan c) \<Longrightarrow> pv_watch V (poller_of c) (ch_fd ch) = 0"
    "buf_inv (input_buffer c)" "buf_inv (output_buffer c)" "state c = kDisconnected"
  shows "conn_inv P V c"
  using assms by (auto simp: conn_inv_def conn_state_ok_def events_ok_def)

lemma conn_inv_input:
  "conn_inv P V c \<Longrightarrow> buf_inv b \<Longrightarrow> conn_inv P V (c\<lparr>input_buffer := b\<rparr>)"
  by (auto simp: conn_inv_def conn_state_ok_def cong: conn_state.case_cong)

lemma conn_invD:
  assumes "conn_inv P V c"
  obtains ch where "po_chans P (poller_of c) (conn_chan c) = Some ch" "own_channel P c = Inr ch" "events_ok ch"
    "pv_inv V (poller_of c)" "buf_inv (input_buffer c)" "buf_inv (output_buffer c)"
  using assms by (auto simp: conn_inv_def own_channel_def)

context conn_loop
begin

text \<open>Both ways of closing start alike: the state is set and all interest dropped.\<close>

lemma close_channel:
  assumes "conn_inv P V c" "pv_registered V (poller_of c) (conn_chan c)"
  obtains s where "conn_set P disable_all (c\<lparr>state := kDisconnected\<rparr>) = Inr (c\<lparr>state := kDisconnected, poller_of := s\<rparr>)"
    "conn_inv P V (c\<lparr>state := kDisconnected, poller_of := s\<rparr>)" "pv_registered V s (conn_chan c)"
    "\<exists>ch. own_channel P c = Inr ch \<and> pv_watch V s (ch_fd ch) = 0"
proof -
  obtain ch where ch: "po_chans P (poller_of c) (conn_chan c) = Some ch" "own_channel P c = Inr ch"
    "events_ok ch" "pv_inv V (poller_of c)" "buf_inv (input_buffer c)" "buf_inv (output_buffer c)"
    using conn_invD [OF assms(1)] .
  let ?c = "c\<lparr>state := kDisconnected\<rparr>"
  obtain s ch' where s: "conn_set P disable_all ?c = Inr (?c\<lparr>poller_of := s\<rparr>)" "pv_inv V s"
      "pv_registered V s (conn_chan c)" "po_chans P s (conn_chan c) = Some ch'"
      "events ch' = events (disable_all ch)" "ch_fd ch' = ch_fd ch"
      "pv_watch V s = (pv_watch V (poller_of c))(ch_fd ch := events (disable_all ch))" "events_ok ch'"
    using conn_set_ok [of ?c ch disable_all] ch assms(2) by auto
  have e: "events (disable_all ch) = 0" by (simp add: disable_all_def kNoneEvent_def)
  have "conn_inv P V (?c\<lparr>poller_of := s\<rparr>)"
    by (rule conn_inv_closedI [of P _ ch']) (use s e ch in simp_all)
  then show thesis using that [of s] s e ch(2) by simp
qed

lemma HandleClose_ok:
  assumes "conn_inv P V c" "pv_registered V (poller_of c) (conn_chan c)" "cb_ok P V cb"
  shows "\<exists>c'. conn_HandleClose P cb c = Inr c' \<and> conn_inv P V c' \<and> state c' = kDisconnected \<and>
    prefix (stream c) (stream c')"
proof -
  obtain s where s: "conn_set P disable_all (c\<lparr>state := kDisconnected\<rparr>) = Inr (c\<lparr>state := kDisconnected, poller_of := s\<rparr>)"
    "conn_inv P V (c\<lparr>state := kDisconnected, poller_of := s\<rparr>)"
    using close_channel [OF assms(1,2)] .
  let ?c1 = "c\<lparr>state := kDisconnected, poller_of := s\<rparr>"
  obtain c2 where c2: "cb ConnectionCallback ?c1 = Inr c2" "conn_inv P V c2"
    "prefix (stream ?c1) (stream c2)" "rank (state ?c1) \<le> rank (state c2)"
    using cb_okD [OF assms(3) s(2)] .
  obtain c3 where c3: "cb CloseCallback c2 = Inr c3" "conn_inv P V c3"
    "prefix (stream c2) (stream c3)" "rank (state c2) \<le> rank (state c3)"
    using cb_okD [OF assms(3) c2(2)] .
  have "state c3 = kDisconnected" using c2(4) c3(4) rank_closed [of "state c2"] rank_closed [of "state c3"] by simp
  moreover have "prefix (stream c) (stream c3)" using c2(3) c3(3) by (auto intro: prefix_order.order_trans)
  ultimately show ?thesis using s(1) c2(1) c3 by (simp add: conn_HandleClose_def)
qed

lemma HandleRead_ok:
  assumes "conn_inv P V c" "own_channel P c = Inr ch"
    "readv_contract readv" "unat (write_index (input_buffer c)) + 131070 \<le> vec_max_size"
  shows "case readv (ch_fd ch) (read_iov (input_buffer c)) of
      Inl e \<Rightarrow> conn_HandleRead P cb readv so c = Inr (conn_HandleError so c)
    | Inr bs \<Rightarrow> \<exists>b. buf_inv b \<and> readable b = readable (input_buffer c) @ bs \<and> conn_inv P V (c\<lparr>input_buffer := b\<rparr>) \<and>
        conn_HandleRead P cb readv so c =
          (if bs = [] then conn_HandleClose P cb (c\<lparr>input_buffer := b\<rparr>)
           else cb MessageCallback (c\<lparr>input_buffer := b\<rparr>))"
proof -
  have b: "buf_inv (input_buffer c)" using conn_invD [OF assms(1)] .
  show ?thesis
  proof (cases "readv (ch_fd ch) (read_iov (input_buffer c))")
    case (Inl e)
    then have "ReadFd readv (ch_fd ch) (input_buffer c) = Inr (- 1, Some e, input_buffer c)"
      using ReadFd_ok [OF b assms(3,4), of "ch_fd ch"] by simp
    then show ?thesis using Inl assms(2) by (simp add: conn_HandleRead_def Let_def)
  next
    case (Inr bs)
    then obtain b' where "ReadFd readv (ch_fd ch) (input_buffer c) = Inr (int (length bs), None, b')"
      "buf_inv b'" "readable b' = readable (input_buffer c) @ bs"
      using ReadFd_ok [OF b assms(3,4), of "ch_fd ch"] by auto
    then show ?thesis using Inr assms(1,2) conn_inv_input [OF assms(1)]
      by (simp add: conn_HandleRead_def Let_def) (intro conjI impI exI [of _ b'], simp_all)
  qed
qed

lemma ConnectionEstablished_ok:
  assumes "conn_inv P V c" "state c = kConnecting"
  shows "\<exists>c1. conn_inv P V c1 \<and> state c1 = kConnected \<and> stream c1 = stream c \<and> input_buffer c1 = input_buffer c \<and>
    output_buffer c1 = output_buffer c \<and> tasks c1 = tasks c \<and>
    ConnectionEstablished P cb self c = cb ConnectionCallback c1"
proof -
  from assms(1,2) obtain ch where ch: "po_chans P (poller_of c) (conn_chan c) = Some ch" "events_ok ch"
    "pv_inv V (poller_of c)" "buf_inv (input_buffer c)" "buf_inv (output_buffer c)"
    "index ch = - 1" "pv_fd_free V (poller_of c) (ch_fd ch)" "events ch = 0" "readable (output_buffer c) = []"
    by (auto simp: conn_inv_def conn_state_ok_def)
  let ?t = "Tie self ch"
  let ?s = "po_set P (conn_chan c) ?t (poller_of c)"
  let ?c = "c\<lparr>state := kConnected, poller_of := ?s\<rparr>"
  have t: "ch_fd ?t = ch_fd ch" "index ?t = index ch" "events ?t = 0" "events_ok ?t"
    using ch by (simp_all add: Tie_def events_ok_def)
  note law = set_chan_law [OF ch(3,1) t(1,2)]
  obtain s ch' where s: "conn_set P enable_read ?c = Inr (?c\<lparr>poller_of := s\<rparr>)" "pv_inv V s"
      "pv_registered V s (conn_chan c)" "po_chans P s (conn_chan c) = Some ch'"
      "events ch' = events (enable_read ?t)" "ch_fd ch' = ch_fd ?t"
      "pv_watch V s = (pv_watch V ?s)(ch_fd ?t := events (enable_read ?t))" "events_ok ch'"
    using conn_set_ok [of ?c ?t enable_read] law ch t by auto
  have w: "\<not> IsWriting ch'" "IsReading ch'"
    using s(5) t(3) by (simp_all add: IsWriting_def IsReading_def enable_read_def event_flags)
  have "conn_inv P V (?c\<lparr>poller_of := s\<rparr>)"
    by (rule conn_inv_openI [of P _ ch']) (use ch s w t in \<open>simp_all add: open_state_def\<close>)
  moreover have "ConnectionEstablished P cb self c = cb ConnectionCallback (?c\<lparr>poller_of := s\<rparr>)"
    using ch(1) s(1) by (simp add: ConnectionEstablished_def own_channel_def Let_def)
  ultimately show ?thesis by (intro exI [of _ "?c\<lparr>poller_of := s\<rparr>"]) simp
qed

end

lemma conn_inv_disconnecting:
  "conn_inv P V c \<Longrightarrow> state c = kConnected \<Longrightarrow> conn_inv P V (c\<lparr>state := kDisconnecting\<rparr>)"
  by (auto simp: conn_inv_def conn_state_ok_def)

context conn_loop
begin

lemma ctor_ok:
  assumes "pv_inv V s" "po_chans P s p = None" "pv_fd_free V s fd"
  shows "\<exists>c. TcpConnection_ctor P (Some s) p fd = Inr c \<and> conn_inv P V c \<and> state c = kConnecting \<and> stream c = [] \<and>
    readable (input_buffer c) = [] \<and> tasks c = []"
proof -
  obtain b where b: "Buffer_ctor kInitialSize = Inr b" "buf_inv b" "readable b = []"
    using Buffer_ctor_ok [of kInitialSize] by (auto simp: kInitialSize_def vec_max_size_def)
  let ?ch = "(Channel_ctor fd)\<lparr>has_read_cb := True, has_write_cb := True,
              has_error_cb := True, has_close_cb := True\<rparr>"
  have ch: "index ?ch = - 1" "ch_fd ?ch = fd" "events ?ch = 0" by (simp_all add: Channel_ctor_def)
  note law = new_chan_law [OF assms(1,2) ch(1)]
  show ?thesis using b assms(3) law ch
    by (auto simp: TcpConnection_ctor_def CheckLoopNotNull_def conn_inv_def conn_state_ok_def stream_def
        events_ok_def)
qed

lemma conn_remove_ok:
  assumes "conn_inv P V c" "state c = kDisconnected" "pv_registered V (poller_of c) (conn_chan c)"
  shows "\<exists>c'. conn_remove P c = Inr c' \<and> conn_inv P V c' \<and> state c' = kDisconnected \<and> stream c' = stream c \<and>
    \<not> pv_registered V (poller_of c') (conn_chan c') \<and>
    (\<exists>ch. own_channel P c' = Inr ch \<and> pv_watch V (poller_of c') (ch_fd ch) = 0)"
proof -
  from assms(1,2) obtain ch where ch: "po_chans P (poller_of c) (conn_chan c) = Some ch" "events ch = 0"
    "pv_inv V (poller_of c)" "buf_inv (input_buffer c)" "buf_inv (output_buffer c)"
    by (auto simp: conn_inv_def conn_state_ok_def)
  from remove_law [OF ch(3,1) assms(3)] obtain s where s: "po_remove P (conn_chan c) (poller_of c) = Inr s"
    "pv_inv V s" "\<not> pv_registered V s (conn_chan c)" "pv_watch V s = (pv_watch V (poller_of c))(ch_fd ch := 0)"
    "same_channels (po_chans P (poller_of c)) (po_chans P s)" by blast
  from same_channelsD [OF s(5) ch(1)] obtain ch' where c': "po_chans P s (conn_chan c) = Some ch'" "same_channel ch ch'"
    by blast
  have "conn_inv P V (c\<lparr>poller_of := s\<rparr>)"
    by (rule conn_inv_closedI [of P _ ch']) (use ch s c' assms(2) same_channelD [OF c'(2)] in simp_all)
  then show ?thesis using s c' assms(2) same_channelD [OF c'(2)]
    by (intro exI [of _ "c\<lparr>poller_of := s\<rparr>"]) (simp add: conn_remove_def own_channel_def)
qed

lemma ConnectionDestroyed_ok:
  assumes "conn_inv P V c" "state c = kConnected \<or> state c = kDisconnected"
    "pv_registered V (poller_of c) (conn_chan c)" "cb_ok P V cb"
  shows "\<exists>c'. ConnectionDestroyed P cb c = Inr c' \<and> conn_inv P V c' \<and> state c' = kDisconnected \<and>
    prefix (stream c) (stream c') \<and> \<not> pv_registered V (poller_of c') (conn_chan c') \<and>
    (\<exists>ch. own_channel P c' = Inr ch \<and> pv_watch V (poller_of c') (ch_fd ch) = 0)"
proof -
  show ?thesis
  proof (cases "state c = kConnected")
    case False
    then show ?thesis using assms(2) conn_remove_ok [OF assms(1) _ assms(3)] by (auto simp: ConnectionDestroyed_def)
  next
    case True
    obtain s where s: "conn_set P disable_all (c\<lparr>state := kDisconnected\<rparr>) = Inr (c\<lparr>state := kDisconnected, poller_of := s\<rparr>)"
      "conn_inv P V (c\<lparr>state := kDisconnected, poller_of := s\<rparr>)" "pv_registered V s (conn_chan c)"
      using close_channel [OF assms(1,3)] .
    let ?c1 = "c\<lparr>state := kDisconnected, poller_of := s\<rparr>"
    obtain c2 where c2: "cb ConnectionCallback ?c1 = Inr c2" "conn_inv P V c2" "prefix (stream ?c1) (stream c2)"
      "rank (state ?c1) \<le> rank (state c2)" "conn_chan c2 = conn_chan ?c1"
      "pv_registered V (poller_of ?c1) (conn_chan ?c1) \<longrightarrow> pv_registered V (poller_of c2) (conn_chan ?c1)"
      using cb_okD [OF assms(4) s(2)] .
    have "state c2 = kDisconnected" using c2(4) rank_closed [of "state c2"] by simp
    then have "\<exists>c'. conn_remove P c2 = Inr c' \<and> conn_inv P V c' \<and> state c' = kDisconnected \<and>
      stream c' = stream c2 \<and> \<not> pv_registered V (poller_of c') (conn_chan c') \<and>
      (\<exists>ch. own_channel P c' = Inr ch \<and> pv_watch V (poller_of c') (ch_fd ch) = 0)"
      using conn_remove_ok [of c2] c2 s(3) by simp
    moreover have "ConnectionDestroyed P cb c = conn_remove P c2"
      using True s(1) c2(1) by (simp add: ConnectionDestroyed_def)
    moreover have "prefix (stream c) (stream c2)" using c2(3) by simp
    ultimately show ?thesis by (metis (no_types, lifting))
  qed
qed

lemma ShutDown_ok:
  assumes "conn_inv P V c"
  shows "\<exists>c'. ShutDown P in_loop c = Inr c' \<and> conn_inv P V c' \<and> stream c' = stream c \<and>
    state c' = (if state c = kConnected then kDisconnecting else state c)"
proof (cases "state c = kConnected")
  case True
  have i: "conn_inv P V (c\<lparr>state := kDisconnecting\<rparr>)" using assms True by (rule conn_inv_disconnecting)
  show ?thesis using True i ShutdownInLoop_ok [OF i]
    by (auto simp: ShutDown_def Let_def ShutdownWrite_def)
next
  case False
  then show ?thesis using assms by (simp add: ShutDown_def)
qed

end

section \<open>The connection on the epoll poller\<close>

definition epoll_ops :: "'k epoll_kernel \<Rightarrow> 'k epoller poller_ops" where
  "epoll_ops K = \<lparr>po_chans = ep_chans, po_set = ep_set_chan, po_update = ep_UpdateChannel K,
     po_remove = ep_RemoveChannel K\<rparr>"

definition epoll_view :: "'k epoll_kernel \<Rightarrow> 'k epoller poller_view" where
  "epoll_view K = \<lparr>pv_inv = ep_inv K, pv_registered = ep_registered, pv_fd_free = ep_fd_free,
     pv_watch = ep_watch K\<rparr>"

interpretation epoll_conn: conn_loop "epoll_ops K" "epoll_view K" for K :: "'k epoll_kernel"
  unfolding conn_loop_def using epoll.poller_axioms [of K] by (simp add: epoll_ops_def epoll_view_def)

lemma epoll_view_simps [simp]:
  "pv_inv (epoll_view K) = ep_inv K" "pv_registered (epoll_view K) = ep_registered"
  "pv_fd_free (epoll_view K) = ep_fd_free" "pv_watch (epoll_view K) = ep_watch K"
  "po_chans (epoll_ops K) = ep_chans"
  by (simp_all add: epoll_ops_def epoll_view_def)

text \<open>
  The life of a connection, as the acceptor's loop, the I/O loop and the user drive it. The
  premises on room say that a buffer stays below the largest vector; the handlers run only
  for a registered channel, which is what the poller reports.
\<close>

definition room :: "nat \<Rightarrow> buffer \<Rightarrow> bool" where
  "room n b \<longleftrightarrow> unat (write_index b) + n \<le> vec_max_size"

inductive conn_op :: "'k epoll_kernel \<Rightarrow> 'k epoller callbacks \<Rightarrow> 'k epoller connection \<Rightarrow> 'k epoller connection \<Rightarrow> bool"
  for K cb where
  user_string: "conn_op K cb c (c\<lparr>strings := m\<rparr>)"
| send_here: "write_contract write \<Longrightarrow>
    (\<forall>d. strings c p = Some d \<longrightarrow> room (length d) (output_buffer c)) \<Longrightarrow>
    Send_string (epoll_ops K) cb write True p c = Inr c' \<Longrightarrow> conn_op K cb c c'"
| send_elsewhere: "Send_string (epoll_ops K) cb write False p c = Inr c' \<Longrightarrow> conn_op K cb c c'"
| send_chars: "write_contract write \<Longrightarrow> room (unat (scast len :: size_t)) (output_buffer c) \<Longrightarrow>
    Send_chars (epoll_ops K) cb write in_loop p len c = Inr c' \<Longrightarrow> conn_op K cb c c'"
| send_buffer: "write_contract write \<Longrightarrow> room (unat (ReadableBytes b)) (output_buffer c) \<Longrightarrow>
    Send_Buffer (epoll_ops K) cb write in_loop tmp b c = Inr (b', c') \<Longrightarrow> conn_op K cb c c'"
| shut_down: "ShutDown (epoll_ops K) in_loop c = Inr c' \<Longrightarrow> conn_op K cb c c'"
| run: "tasks c = t # ts \<Longrightarrow> state c \<noteq> kConnecting \<Longrightarrow> write_contract write \<Longrightarrow>
    (\<forall>p n. t = SendTask p n \<longrightarrow> room n (output_buffer c)) \<Longrightarrow>
    run_task (epoll_ops K) cb write t (c\<lparr>tasks := ts\<rparr>) = Inr c' \<Longrightarrow> conn_op K cb c c'"
| event_read: "ep_registered (poller_of c) (conn_chan c) \<Longrightarrow> readv_contract readv \<Longrightarrow>
    room 131070 (input_buffer c) \<Longrightarrow> own_channel (epoll_ops K) c = Inr ch \<Longrightarrow>
    readv (ch_fd ch) (read_iov (input_buffer c)) \<noteq> Inr [] \<Longrightarrow>
    conn_HandleRead (epoll_ops K) cb readv so c = Inr c' \<Longrightarrow> conn_op K cb c c'"
| event_write: "ep_registered (poller_of c) (conn_chan c) \<Longrightarrow> write_contract write \<Longrightarrow>
    conn_HandleWrite (epoll_ops K) write c = Inr c' \<Longrightarrow> conn_op K cb c c'"
| event_error: "conn_op K cb c (conn_HandleError so c)"

inductive conn_step :: "'k epoll_kernel \<Rightarrow> 'k epoller callbacks \<Rightarrow> 'k epoller connection \<Rightarrow> 'k epoller connection \<Rightarrow> bool"
  for K cb where
  established: "state c = kConnecting \<Longrightarrow>
    ConnectionEstablished (epoll_ops K) cb self c = Inr c' \<Longrightarrow> conn_step K cb c c'"
| op: "conn_op K cb c c' \<Longrightarrow> conn_step K cb c c'"
| event_end: "ep_registered (poller_of c) (conn_chan c) \<Longrightarrow> readv_contract readv \<Longrightarrow>
    room 131070 (input_buffer c) \<Longrightarrow> own_channel (epoll_ops K) c = Inr ch \<Longrightarrow>
    readv (ch_fd ch) (read_iov (input_buffer c)) = Inr [] \<Longrightarrow>
    conn_HandleRead (epoll_ops K) cb readv so c = Inr c' \<Longrightarrow> conn_step K cb c c'"
| event_close: "ep_registered (poller_of c) (conn_chan c) \<Longrightarrow>
    conn_HandleClose (epoll_ops K) cb c = Inr c' \<Longrightarrow> conn_step K cb c c'"
| destroyed: "ep_registered (poller_of c) (conn_chan c) \<Longrightarrow>
    state c \<noteq> kDisconnecting \<Longrightarrow> ConnectionDestroyed (epoll_ops K) cb c = Inr c' \<Longrightarrow> conn_step K cb c c'"

inductive conn_reachable :: "'k epoll_kernel \<Rightarrow> 'k epoller callbacks \<Rightarrow> 'k epoller connection \<Rightarrow> bool" for K cb where
  made: "ep_inv K s \<Longrightarrow> ep_chans s p = None \<Longrightarrow> ep_fd_free s fd \<Longrightarrow>
    TcpConnection_ctor (epoll_ops K) (Some s) p fd = Inr c \<Longrightarrow> conn_reachable K cb c"
| step: "conn_reachable K cb c \<Longrightarrow> conn_step K cb c c' \<Longrightarrow> conn_reachable K cb c'"

lemma registered_state:
  "conn_inv (epoll_ops K) (epoll_view K) c \<Longrightarrow> ep_registered (poller_of c) (conn_chan c) \<Longrightarrow> state c \<noteq> kConnecting"
  by (auto simp: conn_inv_def conn_state_ok_def)

lemma not_open: "\<not> open_state st \<Longrightarrow> st \<noteq> kConnecting \<Longrightarrow> st = kDisconnected"
  by (cases st) (simp_all add: open_state_def)

lemma SendInLoop_inv:
  assumes "conn_inv (epoll_ops K) (epoll_view K) c" "cb_ok (epoll_ops K) (epoll_view K) cb" "state c \<noteq> kConnecting"
    "write_contract write" "room (length d) (output_buffer c)" "SendInLoop (epoll_ops K) cb write d c = Inr c'"
  shows "conn_inv (epoll_ops K) (epoll_view K) c'"
proof (cases "open_state (state c)")
  case True
  from epoll_conn.SendInLoop_ok [OF assms(1) this assms(4,2) assms(5) [unfolded room_def]] assms(6)
  show ?thesis by auto
next
  case False
  then have "state c = kDisconnected" using assms(3) by (rule not_open)
  then show ?thesis using assms(1,6) by (simp add: SendInLoop_def)
qed

lemma HandleWrite_inv:
  assumes inv: "conn_inv (epoll_ops K) (epoll_view K) c" and "state c \<noteq> kConnecting" "write_contract write"
    "conn_HandleWrite (epoll_ops K) write c = Inr c'"
  shows "conn_inv (epoll_ops K) (epoll_view K) c'"
proof -
  obtain ch where ch: "own_channel (epoll_ops K) c = Inr ch" using conn_invD [OF inv] .
  show ?thesis
  proof (cases "open_state (state c) \<and> readable (output_buffer c) \<noteq> []")
    case True
    then show ?thesis
      using epoll_conn.HandleWrite_ok [OF inv _ assms(3) ch, of "readable (output_buffer c)"] assms(4) inv
      by (auto split: sum.splits)
  next
    case False
    then have "\<not> IsWriting ch" using assms(2) inv ch
      by (cases "state c")
        (auto simp: conn_inv_def conn_state_ok_def open_state_def own_channel_def IsWriting_none)
    then show ?thesis using assms(4) ch inv by (simp add: conn_HandleWrite_def)
  qed
qed

lemma HandleRead_inv:
  assumes inv: "conn_inv (epoll_ops K) (epoll_view K) c" and cb: "cb_ok (epoll_ops K) (epoll_view K) cb"
    and r: "ep_registered (poller_of c) (conn_chan c)" "readv_contract readv" "room 131070 (input_buffer c)"
    "conn_HandleRead (epoll_ops K) cb readv so c = Inr c'"
  shows "conn_inv (epoll_ops K) (epoll_view K) c'"
proof -
  obtain ch where ch: "own_channel (epoll_ops K) c = Inr ch" using conn_invD [OF inv] .
  have reg: "pv_registered (epoll_view K) (poller_of c) (conn_chan c)" using r(1) by simp
  note R = epoll_conn.HandleRead_ok [OF inv ch r(2) r(3) [unfolded room_def], of cb so]
  show ?thesis
  proof (cases "readv (ch_fd ch) (read_iov (input_buffer c))")
    case (Inl e)
    then show ?thesis using R r(4) inv by (auto simp: conn_HandleError_def)
  next
    case (Inr bs)
    then obtain b where b: "conn_inv (epoll_ops K) (epoll_view K) (c\<lparr>input_buffer := b\<rparr>)"
      "conn_HandleRead (epoll_ops K) cb readv so c = (if bs = [] then conn_HandleClose (epoll_ops K) cb (c\<lparr>input_buffer := b\<rparr>)
         else cb MessageCallback (c\<lparr>input_buffer := b\<rparr>))" using R by auto
    obtain c1 where "cb MessageCallback (c\<lparr>input_buffer := b\<rparr>) = Inr c1" "conn_inv (epoll_ops K) (epoll_view K) c1"
      using cb_okD [OF cb b(1)] .
    moreover have "pv_registered (epoll_view K) (poller_of (c\<lparr>input_buffer := b\<rparr>)) (conn_chan (c\<lparr>input_buffer := b\<rparr>))"
      using reg by simp
    ultimately show ?thesis using b(2) r(4) epoll_conn.HandleClose_ok [OF b(1) _ cb]
      by (cases "bs = []") fastforce+
  qed
qed

lemma run_task_inv:
  assumes "conn_inv (epoll_ops K) (epoll_view K) c" "cb_ok (epoll_ops K) (epoll_view K) cb" "state c \<noteq> kConnecting"
    "write_contract write" "\<forall>p n. t = SendTask p n \<longrightarrow> room n (output_buffer c)"
    "run_task (epoll_ops K) cb write t c = Inr c'"
  shows "conn_inv (epoll_ops K) (epoll_view K) c'"
proof (cases t)
  case (SendTask p n)
  then obtain d where d: "read_chars p n c = Inr d" "SendInLoop (epoll_ops K) cb write d c = Inr c'"
    using assms(6) by (cases "read_chars p n c") (auto simp: run_task_def)
  have "length d = n" using d(1) by (auto simp: read_chars_def split: option.splits if_splits)
  then show ?thesis using SendInLoop_inv [OF assms(1-4) _ d(2)] assms(5) SendTask by simp
next
  case ShutdownTask
  then show ?thesis using epoll_conn.ShutdownInLoop_ok [OF assms(1)] assms(1,6)
    by (auto simp: run_task_def ShutdownWrite_def split: if_splits)
next
  case WriteCompleteTask
  then show ?thesis using cb_okD [OF assms(2,1), of WriteCompleteCallback] assms(6) by (auto simp: run_task_def)
qed

lemma Send_string_inv:
  assumes "conn_inv (epoll_ops K) (epoll_view K) c" "cb_ok (epoll_ops K) (epoll_view K) cb"
    "in_loop \<longrightarrow> write_contract write \<and> (\<forall>d. strings c p = Some d \<longrightarrow> room (length d) (output_buffer c))"
    "Send_string (epoll_ops K) cb write in_loop p c = Inr c'"
  shows "conn_inv (epoll_ops K) (epoll_view K) c'"
proof (cases "state c = kConnected \<and> in_loop")
  case True
  then show ?thesis using assms SendInLoop_inv [OF assms(1,2)]
    by (auto simp: Send_string_def split: option.splits)
next
  case False
  then show ?thesis using assms(1,4) by (auto simp: Send_string_def split: if_splits option.splits)
qed

lemma Send_chars_inv:
  assumes inv: "conn_inv (epoll_ops K) (epoll_view K) c" and cb: "cb_ok (epoll_ops K) (epoll_view K) cb"
    and s: "write_contract write" "room (unat (scast len :: size_t)) (output_buffer c)"
    "Send_chars (epoll_ops K) cb write in_loop p len c = Inr c'"
  shows "conn_inv (epoll_ops K) (epoll_view K) c'"
proof (cases "state c = kConnected \<and> in_loop")
  case True
  then obtain d where d: "read_chars p (unat (scast len :: size_t)) c = Inr d"
    "SendInLoop (epoll_ops K) cb write d c = Inr c'"
    using s(3) by (auto simp: Send_chars_def Let_def res_bind_eq_Inr)
  have "length d = unat (scast len :: size_t)"
    using d(1) by (auto simp: read_chars_def split: option.splits if_splits)
  then show ?thesis using SendInLoop_inv [OF inv cb _ s(1) _ d(2)] True s(2) by simp
next
  case False
  then show ?thesis using inv s(3) by (auto simp: Send_chars_def Let_def split: if_splits)
qed

lemma Send_Buffer_inv:
  assumes inv: "conn_inv (epoll_ops K) (epoll_view K) c" and cb: "cb_ok (epoll_ops K) (epoll_view K) cb"
    and s: "write_contract write" "room (unat (ReadableBytes b)) (output_buffer c)"
    "Send_Buffer (epoll_ops K) cb write in_loop tmp b c = Inr (b', c')"
  shows "conn_inv (epoll_ops K) (epoll_view K) c'"
proof (cases "state c = kConnected \<and> in_loop")
  case True
  then obtain d where d: "read_bytes (ReadableBytes b) b = Inr d"
    "SendInLoop (epoll_ops K) cb write d c = Inr c'"
    using s(3) by (auto simp: Send_Buffer_def res_bind_eq_Inr)
  have "length d = unat (ReadableBytes b)" using d(1)
    by (auto simp: read_bytes_def split: if_splits)
  then show ?thesis using SendInLoop_inv [OF inv cb _ s(1) _ d(2)] True s(2) by simp
next
  case False
  then show ?thesis using inv s(3)
    by (auto simp: Send_Buffer_def Let_def res_bind_eq_Inr queue_task_def split: if_splits)
qed

lemma conn_op_inv:
  assumes "conn_op K cb c c'" and inv: "conn_inv (epoll_ops K) (epoll_view K) c"
    and cb: "cb_ok (epoll_ops K) (epoll_view K) cb"
  shows "conn_inv (epoll_ops K) (epoll_view K) c'"
  using assms(1)
proof cases
  case (run t ts wr)
  then show ?thesis using run_task_inv [of K "c\<lparr>tasks := ts\<rparr>" cb wr t c'] cb inv by simp
next
  case (event_write wr)
  then show ?thesis using HandleWrite_inv [OF inv] registered_state [OF inv] by blast
next
  case (shut_down in_loop)
  then show ?thesis using epoll_conn.ShutDown_ok [OF inv, of in_loop] by auto
next
  case (event_read readv ch so)
  then show ?thesis using HandleRead_inv [OF inv cb] by blast
next
  case (event_error so)
  then show ?thesis using inv by (simp add: conn_HandleError_def)
next
  case (send_here wr p)
  then show ?thesis using Send_string_inv [OF inv cb, of True wr p] by blast
next
  case (send_elsewhere wr p)
  then show ?thesis using Send_string_inv [OF inv cb, of False wr p] by blast
next
  case (send_chars wr len in_loop p)
  then show ?thesis using Send_chars_inv [OF inv cb] by blast
next
  case (send_buffer wr b in_loop tmp b')
  then show ?thesis using Send_Buffer_inv [OF inv cb] by blast
next
  case (user_string m)
  then show ?thesis using inv by simp
qed

lemma conn_step_inv:
  assumes "conn_step K cb c c'" and inv: "conn_inv (epoll_ops K) (epoll_view K) c"
    and cb: "cb_ok (epoll_ops K) (epoll_view K) cb"
  shows "conn_inv (epoll_ops K) (epoll_view K) c'"
  using assms(1)
proof cases
  case (established self)
  obtain c1 where "conn_inv (epoll_ops K) (epoll_view K) c1" "cb ConnectionCallback c1 = Inr c'"
    using epoll_conn.ConnectionEstablished_ok [OF inv established(1)] established(2) by metis
  then show ?thesis using cb_okD [OF cb, of c1 ConnectionCallback] by auto
next
  case op
  then show ?thesis using inv cb by (rule conn_op_inv)
next
  case destroyed
  have "state c = kConnected \<or> state c = kDisconnected"
    using destroyed(2) registered_state [OF inv destroyed(1)] by (cases "state c") auto
  then show ?thesis using epoll_conn.ConnectionDestroyed_ok [OF inv _ _ cb] destroyed by auto
next
  case event_close
  then show ?thesis using epoll_conn.HandleClose_ok [OF inv _ cb] by auto
next
  case (event_end readv ch so)
  then show ?thesis using HandleRead_inv [OF inv cb] by blast
qed

lemma conn_reachable_inv:
  assumes "conn_reachable K cb c" and cb: "cb_ok (epoll_ops K) (epoll_view K) cb"
  shows "conn_inv (epoll_ops K) (epoll_view K) c"
  using assms(1)
proof (induction rule: conn_reachable.induct)
  case (made s p fd c)
  then show ?case using epoll_conn.ctor_ok [of K s p fd] by auto
next
  case (step c c')
  from step.hyps(2) step.IH cb show ?case by (rule conn_step_inv)
qed

section \<open>Properties\<close>

text \<open>For the witnesses: callbacks that do nothing, and an established connection on descriptor 5.\<close>

definition quiet_cb :: "'s callbacks" where "quiet_cb e c = Inr c"

lemma quiet_cb_ok: "cb_ok P V quiet_cb"
  by (simp add: cb_ok_def quiet_cb_def)

definition new_conn :: "(cint \<rightharpoonup> cint \<times> ptr) epoller connection" where
  "new_conn = projr (TcpConnection_ctor (epoll_ops map_kernel) (Some (epoller_init Map.empty Map.empty)) 0 5)"

definition live_conn :: "(cint \<rightharpoonup> cint \<times> ptr) epoller connection" where
  "live_conn = projr (ConnectionEstablished (epoll_ops map_kernel) quiet_cb 1 new_conn)"

lemma init_epoller_inv: "ep_inv map_kernel (epoller_init Map.empty Map.empty)"
  using map_kernel_contract by (simp add: ep_inv_def epoller_init_def map_kernel_def)

lemma new_conn_ctor:
  "TcpConnection_ctor (epoll_ops map_kernel) (Some (epoller_init Map.empty Map.empty)) 0 5 = Inr new_conn"
  using epoll_conn.ctor_ok [of map_kernel "epoller_init Map.empty Map.empty" 0 5] init_epoller_inv
  by (auto simp: new_conn_def ep_fd_free_def epoller_init_def)

lemma new_conn_reachable: "conn_reachable map_kernel quiet_cb new_conn"
  by (rule conn_reachable.made [OF init_epoller_inv _ _ new_conn_ctor])
    (simp_all add: epoller_init_def ep_fd_free_def)

lemma new_conn_eq:
  "state new_conn = kConnecting" "conn_chan new_conn = 0" "write_complete_set new_conn = False"
  "tasks new_conn = []" "strings new_conn = Map.empty" "sock_out new_conn = []"
  "shut_wr new_conn = False" "Buffer_ctor kInitialSize = Inr (output_buffer new_conn)"
  "Buffer_ctor kInitialSize = Inr (input_buffer new_conn)"
  "ep_chans (poller_of new_conn) 0 = Some ((Channel_ctor 5)\<lparr>has_read_cb := True, has_write_cb := True,
              has_error_cb := True, has_close_cb := True\<rparr>)"
proof -
  obtain b where b: "Buffer_ctor kInitialSize = Inr b"
    using Buffer_ctor_ok [of kInitialSize] by (auto simp: kInitialSize_def vec_max_size_def)
  note e = new_conn_ctor [unfolded TcpConnection_ctor_def CheckLoopNotNull_def b, simplified, symmetric]
  show "state new_conn = kConnecting" "conn_chan new_conn = 0" "write_complete_set new_conn = False"
    "tasks new_conn = []" "strings new_conn = Map.empty" "sock_out new_conn = []" "shut_wr new_conn = False"
    "Buffer_ctor kInitialSize = Inr (output_buffer new_conn)" "Buffer_ctor kInitialSize = Inr (input_buffer new_conn)"
    "ep_chans (poller_of new_conn) 0 = Some ((Channel_ctor 5)\<lparr>has_read_cb := True, has_write_cb := True,
              has_error_cb := True, has_close_cb := True\<rparr>)"
    by (simp_all add: e b epoll_ops_def ep_set_chan_def)
qed

lemma live_conn_eq:
  "ConnectionEstablished (epoll_ops map_kernel) quiet_cb 1 new_conn = Inr live_conn"
  "\<exists>s. live_conn = new_conn\<lparr>state := kConnected, poller_of := s\<rparr>"
proof -
  let ?P = "epoll_ops map_kernel"
  obtain c1 where c1: "ConnectionEstablished ?P quiet_cb 1 new_conn = Inr c1"
    using epoll_conn.ConnectionEstablished_ok [OF conn_reachable_inv [OF new_conn_reachable quiet_cb_ok]
        new_conn_eq(1), of quiet_cb 1] by (auto simp: quiet_cb_def)
  then have l: "live_conn = c1" by (simp add: live_conn_def)
  show "ConnectionEstablished ?P quiet_cb 1 new_conn = Inr live_conn" using c1 l by simp
  show "\<exists>s. live_conn = new_conn\<lparr>state := kConnected, poller_of := s\<rparr>"
    using c1 unfolding l ConnectionEstablished_def Let_def conn_set_def own_channel_def
    by (auto simp: quiet_cb_def res_bind_eq_Inr split: option.splits)
qed

lemma live_conn_reachable: "conn_reachable map_kernel quiet_cb live_conn"
  using new_conn_reachable conn_step.established [OF new_conn_eq(1) live_conn_eq(1)]
  by (rule conn_reachable.step)

lemma live_conn_simps:
  "state live_conn = kConnected" "conn_chan live_conn = 0" "readable (output_buffer live_conn) = []"
  "room (length ''hi'') (output_buffer live_conn)" "room 131070 (input_buffer live_conn)"
  "sock_out live_conn = []" "write_complete_set live_conn = False" "shut_wr live_conn = False"
  "tasks live_conn = []"
proof -
  obtain s where s: "live_conn = new_conn\<lparr>state := kConnected, poller_of := s\<rparr>" using live_conn_eq(2) by blast
  have b: "\<exists>b. Buffer_ctor kInitialSize = Inr b \<and> readable b = [] \<and> write_index b = kCheapPrepend"
    using Buffer_ctor_ok [of kInitialSize] by (auto simp: kInitialSize_def vec_max_size_def)
  show "state live_conn = kConnected" "conn_chan live_conn = 0" "readable (output_buffer live_conn) = []"
    "room (length ''hi'') (output_buffer live_conn)" "room 131070 (input_buffer live_conn)"
    "sock_out live_conn = []" "write_complete_set live_conn = False" "shut_wr live_conn = False"
    "tasks live_conn = []"
    using b new_conn_eq by (simp_all add: s room_def vec_max_size_def)
qed

lemma live_conn_inv: "conn_inv (epoll_ops map_kernel) (epoll_view map_kernel) live_conn"
  using live_conn_reachable quiet_cb_ok by (rule conn_reachable_inv)

lemma live_conn_open: "open_state (state live_conn)"
  by (simp add: open_state_def live_conn_simps)

text \<open>
  In every reachable state of an open connection the kernel watches its descriptor for
  input, and for writability exactly when bytes are waiting in the output buffer: no output
  is ever stuck and no idle connection spins on writability. A closed but still registered
  connection is watched for nothing.
\<close>

theorem conn_watch_mask:
  assumes "conn_reachable K cb c" "cb_ok (epoll_ops K) (epoll_view K) cb" "state c \<noteq> kConnecting"
    "ep_registered (poller_of c) (conn_chan c)"
  shows "\<exists>ch. own_channel (epoll_ops K) c = Inr ch \<and> ep_watch K (poller_of c) (ch_fd ch) =
    (if state c = kDisconnected then 0
     else if readable (output_buffer c) = [] then kReadEvent else kReadEvent OR kWriteEvent)"
proof -
  note inv = conn_reachable_inv [OF assms(1,2)]
  show ?thesis
  proof (cases "state c = kDisconnected")
    case True
    then show ?thesis using inv assms(4) by (auto simp: conn_inv_def conn_state_ok_def own_channel_def)
  next
    case False
    then have "open_state (state c)" using assms(3) by (cases "state c") (simp_all add: open_state_def)
    from conn_inv_openD [OF inv this] obtain ch where ch: "own_channel (epoll_ops K) c = Inr ch" "events_ok ch"
      "pv_watch (epoll_view K) (poller_of c) (ch_fd ch) = events ch" "IsReading ch"
      "IsWriting ch \<longleftrightarrow> readable (output_buffer c) \<noteq> []" .
    then have "events ch = (if readable (output_buffer c) = [] then kReadEvent else kReadEvent OR kWriteEvent)"
      by (auto simp: events_ok_def IsReading_def IsWriting_def event_flags)
    then show ?thesis using ch False by auto
  qed
qed

lemma live_conn_registered: "ep_registered (poller_of live_conn) (conn_chan live_conn)"
  using live_conn_inv live_conn_simps(1) by (auto simp: conn_inv_def conn_state_ok_def)

theorem conn_watch_mask_witness:
  "\<exists>ch. own_channel (epoll_ops map_kernel) live_conn = Inr ch \<and>
    ep_watch map_kernel (poller_of live_conn) (ch_fd ch) = kReadEvent"
  using conn_watch_mask [OF live_conn_reachable quiet_cb_ok _ live_conn_registered]
  by (simp add: live_conn_simps)

text \<open>
  C1. \<open>SendInLoop\<close> on an open connection never faults and keeps the byte stream: what the
  socket took followed by what waits is extended by exactly the new data, whatever part the
  socket accepts and whatever was waiting before (plus what a write-complete callback sends
  afterwards). The one exception is an idle connection whose \<open>write\<close> fails with \<open>EPIPE\<close> or
  \<open>ECONNRESET\<close>: then nothing changes.
\<close>

theorem SendInLoop_spec:
  assumes "conn_inv (epoll_ops K) (epoll_view K) c" "open_state (state c)" "write_contract write"
    "cb_ok (epoll_ops K) (epoll_view K) cb" "room (length data) (output_buffer c)"
  shows "\<exists>c'. SendInLoop (epoll_ops K) cb write data c = Inr c' \<and> conn_inv (epoll_ops K) (epoll_view K) c' \<and>
    (if write_fails (epoll_ops K) write data c then c' = c
     else prefix (stream c @ data) (stream c') \<and>
          (\<not> write_complete_set c \<longrightarrow> stream c' = stream c @ data))"
  using epoll_conn.SendInLoop_ok [OF assms(1-4) assms(5) [unfolded room_def]] by blast

text \<open>A socket that takes one byte at a time.\<close>

definition one_byte :: write_call where "one_byte fd bs = Inr (min 1 (length bs))"

lemma one_byte_contract: "write_contract one_byte"
  by (simp add: write_contract_def one_byte_def)

theorem SendInLoop_spec_witness:
  "\<exists>c'. SendInLoop (epoll_ops map_kernel) quiet_cb one_byte ''hi'' live_conn = Inr c' \<and>
    conn_inv (epoll_ops map_kernel) (epoll_view map_kernel) c' \<and> stream c' = ''hi''"
proof -
  have "\<not> write_fails (epoll_ops map_kernel) one_byte ''hi'' live_conn" by (simp add: write_fails_def one_byte_def)
  moreover have "stream live_conn = []" by (simp add: stream_def live_conn_simps)
  ultimately show ?thesis
    using SendInLoop_spec [OF live_conn_inv live_conn_open one_byte_contract quiet_cb_ok live_conn_simps(4)]
    by (auto simp: live_conn_simps)
qed

text \<open>
  C14. \<open>HandleWrite\<close> moves a prefix of the waiting bytes to the socket, in order and without
  loss; an error changes nothing. When the last byte goes, and only then, the write-complete
  callback is queued (if one is set) and, on a connection being shut down, the socket's write
  side is closed: the half-close waits for the output.
\<close>

theorem HandleWrite_spec:
  assumes "conn_inv (epoll_ops K) (epoll_view K) c" "open_state (state c)" "write_contract write"
    "own_channel (epoll_ops K) c = Inr ch" "readable (output_buffer c) = bs" "bs \<noteq> []"
  shows "case write (ch_fd ch) bs of
      Inl e \<Rightarrow> conn_HandleWrite (epoll_ops K) write c = Inr c
    | Inr n \<Rightarrow> \<exists>c'. conn_HandleWrite (epoll_ops K) write c = Inr c' \<and>
        conn_inv (epoll_ops K) (epoll_view K) c' \<and> state c' = state c \<and>
        stream c' = stream c \<and> sock_out c' = sock_out c @ take n bs \<and>
        shut_wr c' = (shut_wr c \<or> n = length bs \<and> state c = kDisconnecting) \<and>
        tasks c' = (if n = length bs \<and> write_complete_set c then tasks c @ [WriteCompleteTask] else tasks c)"
  using assms by (rule epoll_conn.HandleWrite_ok)

text \<open>The sample connection after a partial send: one byte is waiting.\<close>

definition busy_conn :: "(cint \<rightharpoonup> cint \<times> ptr) epoller connection" where
  "busy_conn = projr (SendInLoop (epoll_ops map_kernel) quiet_cb one_byte ''hi'' live_conn)"

lemma busy_conn_facts:
  "conn_inv (epoll_ops map_kernel) (epoll_view map_kernel) busy_conn" "open_state (state busy_conn)"
  "readable (output_buffer busy_conn) = ''i''" "sock_out busy_conn = ''h''" "state busy_conn = kConnected"
proof -
  obtain ch where ch: "own_channel (epoll_ops map_kernel) live_conn = Inr ch" "buf_inv (output_buffer live_conn)"
      "IsWriting ch \<longleftrightarrow> readable (output_buffer live_conn) \<noteq> []"
    using conn_inv_openD [OF live_conn_inv live_conn_open] .
  let ?c = "live_conn\<lparr>sock_out := ''h''\<rparr>"
  have i: "conn_inv (epoll_ops map_kernel) (epoll_view map_kernel) ?c" "open_state (state ?c)"
      "unat (write_index (output_buffer ?c)) + length ''i'' \<le> vec_max_size"
    using live_conn_inv live_conn_open live_conn_simps(4) by (simp_all add: room_def)
  obtain b s where q: "send_queue (epoll_ops map_kernel) ''i'' ?c = Inr (?c\<lparr>output_buffer := b, poller_of := s\<rparr>)"
    "conn_inv (epoll_ops map_kernel) (epoll_view map_kernel) (?c\<lparr>output_buffer := b, poller_of := s\<rparr>)"
    "readable b = readable (output_buffer ?c) @ ''i''"
    using epoll_conn.send_queue_ok [OF i(1,2) _ i(3)] by blast
  have "SendInLoop (epoll_ops map_kernel) quiet_cb one_byte ''hi'' live_conn = send_queue (epoll_ops map_kernel) ''i'' ?c"
    using ch ReadableBytes_zero [OF ch(2)] live_conn_simps
    by (simp add: SendInLoop_def send_direct_def one_byte_def)
  then have e: "busy_conn = ?c\<lparr>output_buffer := b, poller_of := s\<rparr>" using q(1) by (simp add: busy_conn_def)
  show "conn_inv (epoll_ops map_kernel) (epoll_view map_kernel) busy_conn" "open_state (state busy_conn)"
    "readable (output_buffer busy_conn) = ''i''" "sock_out busy_conn = ''h''" "state busy_conn = kConnected"
    unfolding e using q(2,3) live_conn_open live_conn_simps by simp_all
qed

theorem HandleWrite_spec_witness:
  "\<exists>c'. conn_HandleWrite (epoll_ops map_kernel) one_byte busy_conn = Inr c' \<and> sock_out c' = ''hi'' \<and>
    stream c' = ''hi''"
proof -
  obtain ch where ch: "own_channel (epoll_ops map_kernel) busy_conn = Inr ch"
    using conn_invD [OF busy_conn_facts(1)] .
  show ?thesis
    using HandleWrite_spec [OF busy_conn_facts(1,2) one_byte_contract ch busy_conn_facts(3)] busy_conn_facts(3,4)
    by (auto simp: one_byte_def stream_def)
qed

text \<open>
  C22. \<open>HandleRead\<close>: received bytes are appended to the input buffer and the message
  callback sees them there; end of file closes the connection (state, interest, both
  callbacks); a failed read only logs the socket's error.
\<close>

theorem conn_HandleRead_spec:
  assumes "conn_inv (epoll_ops K) (epoll_view K) c" "ep_registered (poller_of c) (conn_chan c)"
    "cb_ok (epoll_ops K) (epoll_view K) cb" "own_channel (epoll_ops K) c = Inr ch" "readv_contract readv"
    "room 131070 (input_buffer c)"
  shows "case readv (ch_fd ch) (read_iov (input_buffer c)) of
      Inl e \<Rightarrow> conn_HandleRead (epoll_ops K) cb readv so c = Inr (conn_HandleError so c)
    | Inr bs \<Rightarrow> \<exists>c'. conn_HandleRead (epoll_ops K) cb readv so c = Inr c' \<and>
        conn_inv (epoll_ops K) (epoll_view K) c' \<and>
        (if bs = [] then state c' = kDisconnected
         else \<exists>b. readable b = readable (input_buffer c) @ bs \<and>
              cb MessageCallback (c\<lparr>input_buffer := b\<rparr>) = Inr c')"
proof (cases "readv (ch_fd ch) (read_iov (input_buffer c))")
  case (Inl e)
  then show ?thesis
    using epoll_conn.HandleRead_ok [OF assms(1,4,5) assms(6) [unfolded room_def], of cb so] by simp
next
  case (Inr bs)
  then obtain b where b: "readable b = readable (input_buffer c) @ bs"
      "conn_inv (epoll_ops K) (epoll_view K) (c\<lparr>input_buffer := b\<rparr>)"
      "conn_HandleRead (epoll_ops K) cb readv so c =
          (if bs = [] then conn_HandleClose (epoll_ops K) cb (c\<lparr>input_buffer := b\<rparr>)
           else cb MessageCallback (c\<lparr>input_buffer := b\<rparr>))"
    using epoll_conn.HandleRead_ok [OF assms(1,4,5) assms(6) [unfolded room_def], of cb so] by auto
  obtain c1 where c1: "cb MessageCallback (c\<lparr>input_buffer := b\<rparr>) = Inr c1" "conn_inv (epoll_ops K) (epoll_view K) c1"
    using cb_okD [OF assms(3) b(2)] .
  show ?thesis
  proof (cases "bs = []")
    case True
    then show ?thesis using Inr b(3) epoll_conn.HandleClose_ok [OF b(2) _ assms(3)] assms(2) by auto
  next
    case False
    then show ?thesis using Inr b(1,3) c1 by auto
  qed
qed

theorem conn_HandleRead_spec_witness:
  "\<exists>c'. conn_HandleRead (epoll_ops map_kernel) quiet_cb (\<lambda>fd iov. Inr []) (Inr 0) live_conn = Inr c' \<and>
     state c' = kDisconnected"
proof -
  obtain ch where ch: "own_channel (epoll_ops map_kernel) live_conn = Inr ch"
    using conn_invD [OF live_conn_inv] .
  have "readv_contract (\<lambda>fd iov. Inr [])" by (simp add: readv_contract_def)
  from conn_HandleRead_spec [OF live_conn_inv live_conn_registered quiet_cb_ok ch this live_conn_simps(5), of "Inr 0"]
  show ?thesis by auto
qed

text \<open>
  C23. \<open>ShutDown\<close> acts once, on a connected connection: it stops accepting data (the state is
  \<open>kDisconnecting\<close>, in which every overload of \<open>Send\<close> returns without effect), loses nothing
  that was sent, and closes the write side at once only if nothing is waiting.
\<close>

theorem ShutDown_spec:
  assumes "conn_inv (epoll_ops K) (epoll_view K) c" "state c = kConnected"
  shows "\<exists>c'. ShutDown (epoll_ops K) in_loop c = Inr c' \<and> conn_inv (epoll_ops K) (epoll_view K) c' \<and>
    state c' = kDisconnecting \<and> stream c' = stream c \<and>
    shut_wr c' = (shut_wr c \<or> in_loop \<and> readable (output_buffer c) = []) \<and>
    tasks c' = (if in_loop then tasks c else tasks c @ [ShutdownTask]) \<and>
    ShutDown (epoll_ops K) in_loop c' = Inr c' \<and> Send_string (epoll_ops K) cb write in_loop p c' = Inr c'"
proof -
  let ?c = "c\<lparr>state := kDisconnecting\<rparr>"
  have i: "conn_inv (epoll_ops K) (epoll_view K) ?c" using assms by (rule conn_inv_disconnecting)
  obtain ch where ch: "own_channel (epoll_ops K) ?c = Inr ch" "IsWriting ch \<longleftrightarrow> readable (output_buffer ?c) \<noteq> []"
    using conn_inv_openD [OF i] by (auto simp: open_state_def)
  have s: "ShutdownInLoop (epoll_ops K) ?c = Inr (if readable (output_buffer c) = [] then ShutdownWrite ?c else ?c)"
    using ch by (simp add: ShutdownInLoop_def)
  show ?thesis
    using assms(2) i s by (cases in_loop; cases "readable (output_buffer c) = []")
      (simp_all add: ShutDown_def Let_def Send_string_def ShutdownWrite_def queue_task_def stream_def)
qed

theorem ShutDown_spec_witness:
  "\<exists>c'. ShutDown (epoll_ops map_kernel) True busy_conn = Inr c' \<and> state c' = kDisconnecting \<and>
     stream c' = ''hi'' \<and> shut_wr c' = shut_wr busy_conn"
  using ShutDown_spec [OF busy_conn_facts(1,5), of True quiet_cb one_byte 0] busy_conn_facts
  by (auto simp: stream_def)

text \<open>
  \<open>ConnectionDestroyed\<close> of a connected or closed connection ends it: the state is
  \<open>kDisconnected\<close>, the channel is out of the poller and the kernel watches nothing for it.
\<close>

theorem ConnectionDestroyed_spec:
  assumes "conn_inv (epoll_ops K) (epoll_view K) c" "state c = kConnected \<or> state c = kDisconnected"
    "ep_registered (poller_of c) (conn_chan c)" "cb_ok (epoll_ops K) (epoll_view K) cb"
  shows "\<exists>c' ch. ConnectionDestroyed (epoll_ops K) cb c = Inr c' \<and> state c' = kDisconnected \<and>
    \<not> ep_registered (poller_of c') (conn_chan c') \<and> own_channel (epoll_ops K) c' = Inr ch \<and>
    ep_watch K (poller_of c') (ch_fd ch) = 0"
  using epoll_conn.ConnectionDestroyed_ok [OF assms(1,2) _ assms(4)] assms(3) by auto

theorem ConnectionDestroyed_spec_witness:
  "\<exists>c' ch. ConnectionDestroyed (epoll_ops map_kernel) quiet_cb live_conn = Inr c' \<and> state c' = kDisconnected \<and>
    \<not> ep_registered (poller_of c') (conn_chan c') \<and> own_channel (epoll_ops map_kernel) c' = Inr ch \<and>
    ep_watch map_kernel (poller_of c') (ch_fd ch) = 0"
  by (rule ConnectionDestroyed_spec [OF live_conn_inv _ live_conn_registered quiet_cb_ok])
    (simp add: live_conn_simps)

text \<open>
  C40. \<open>Send(Buffer*)\<close> from another thread always leaves a dangling pointer behind: it binds
  \<open>c_str()\<close> of a temporary string, so the functor it queues reads freed memory when the loop
  runs it (unless something else has been allocated there by then).
\<close>

theorem cross_thread_Send_Buffer_dangles:
  assumes "buf_inv b" "state c = kConnected"
  shows "\<exists>b' c' n. Send_Buffer P cb write False tmp b c = Inr (b', c') \<and> readable b' = [] \<and>
    tasks c' = tasks c @ [SendTask tmp n] \<and>
    run_task P cb write' (SendTask tmp n) c' = Inl UseAfterFree"
proof -
  have "RetriveAllAsString b = Inr (readable b, Retrive (ReadableBytes b) b)"
    "readable (Retrive (ReadableBytes b) b) = []"
    using RetriveAsString_ok [OF assms(1) order_refl] Retrive_ok(2) [OF assms(1), of "ReadableBytes b"]
      length_readable [OF assms(1)] by (simp_all add: RetriveAllAsString_def)
  then show ?thesis using assms
    by (auto simp: Send_Buffer_def Let_def queue_task_def run_task_def read_chars_def)
qed

theorem cross_thread_Send_Buffer_dangles_witness:
  "\<exists>b' c' n. Send_Buffer (epoll_ops map_kernel) quiet_cb one_byte False 9 (output_buffer busy_conn) live_conn = Inr (b', c') \<and>
    readable b' = [] \<and> tasks c' = tasks live_conn @ [SendTask 9 n] \<and>
    run_task (epoll_ops map_kernel) quiet_cb one_byte (SendTask 9 n) c' = Inl UseAfterFree"
proof -
  have "buf_inv (output_buffer busy_conn)" using conn_invD [OF busy_conn_facts(1)] .
  then show ?thesis by (rule cross_thread_Send_Buffer_dangles) (simp add: live_conn_simps)
qed

text \<open>
  \<open>ConnectionDestroyed\<close> does not treat \<open>kDisconnecting\<close>: such a connection is removed from
  the poller, but its state stays \<open>kDisconnecting\<close>, and \<open>SendInLoop\<close> refuses only
  \<open>kDisconnected\<close>. A functor queued earlier whose write would block then puts the removed
  channel back into the poller.
\<close>

theorem destroyed_disconnecting_reregisters:
  assumes "conn_inv (epoll_ops K) (epoll_view K) c" "state c = kDisconnecting" "readable (output_buffer c) = []"
    "own_channel (epoll_ops K) c = Inr ch" "write (ch_fd ch) data = Inl EWOULDBLOCK" "data \<noteq> []"
    "room (length data) (output_buffer c)"
  shows "\<exists>c' c''. ConnectionDestroyed (epoll_ops K) cb c = Inr c' \<and>
    \<not> ep_registered (poller_of c') (conn_chan c') \<and>
    SendInLoop (epoll_ops K) cb write data c' = Inr c'' \<and> ep_registered (poller_of c'') (conn_chan c'')"
proof -
  have ch: "ep_chans (poller_of c) (conn_chan c) = Some ch"
    "ep_inv K (poller_of c)" "ep_registered (poller_of c) (conn_chan c)" "\<not> IsWriting ch" "events_ok ch"
    "buf_inv (output_buffer c)"
    using assms(1-4) by (auto simp: conn_inv_def conn_state_ok_def own_channel_def)
  from ep_RemoveChannel_ok [OF ch(2,1,3)] obtain s where s: "ep_RemoveChannel K (conn_chan c) (poller_of c) = Inr s"
    "ep_inv K s" "ep_chans s = (ep_chans (poller_of c))(conn_chan c \<mapsto> Set_Index kNew ch)"
    "channel_maps s = (channel_maps (poller_of c))(ch_fd ch := None)" by blast
  let ?c = "c\<lparr>poller_of := s\<rparr>"
  let ?ch = "Set_Index kNew ch"
  have d: "ConnectionDestroyed (epoll_ops K) cb c = Inr ?c"
    using assms(2) s(1) by (simp add: ConnectionDestroyed_def conn_remove_def epoll_ops_def)
  have nr: "\<not> ep_registered s (conn_chan c)" using s(3) by (simp add: ep_registered_def Set_Index_def)
  have own: "own_channel (epoll_ops K) ?c = Inr ?ch" "\<not> IsWriting ?ch" "ch_fd ?ch = ch_fd ch"
    using s(3) ch(4) by (simp_all add: own_channel_def IsWriting_def Set_Index_def)
  obtain b where b: "Append data (output_buffer c) = Inr b"
    using Append_ok [OF ch(6), of data] assms(7) by (auto simp: room_def)
  have free: "index ?ch = - 1 \<and> ep_fd_free s (ch_fd ?ch)" "events_ok ?ch"
    using s(4) ch(5) by (simp_all add: Set_Index_def kNew_def ep_fd_free_def events_ok_def)
  obtain s' where s': "conn_set (epoll_ops K) enable_write (?c\<lparr>output_buffer := b\<rparr>)
      = Inr (?c\<lparr>output_buffer := b, poller_of := s'\<rparr>)" "ep_registered s' (conn_chan c)"
    using epoll_conn.conn_set_ok [of K "?c\<lparr>output_buffer := b\<rparr>" ?ch enable_write] s(2,3) free by auto
  have "send_queue (epoll_ops K) data ?c = Inr (?c\<lparr>output_buffer := b, poller_of := s'\<rparr>)"
    using b own s'(1) by (simp add: send_queue_def)
  then have "SendInLoop (epoll_ops K) cb write data ?c = Inr (?c\<lparr>output_buffer := b, poller_of := s'\<rparr>)"
    using own assms(2,3,5,6) ReadableBytes_zero [OF ch(6)]
    by (simp add: SendInLoop_def send_direct_def EWOULDBLOCK_def)
  then show ?thesis using d nr s'(2) by auto
qed

definition full_socket :: write_call where "full_socket fd bs = Inl EWOULDBLOCK"

theorem destroyed_disconnecting_reregisters_witness:
  "\<exists>c' c''. ConnectionDestroyed (epoll_ops map_kernel) quiet_cb (live_conn\<lparr>state := kDisconnecting\<rparr>) = Inr c' \<and>
    \<not> ep_registered (poller_of c') (conn_chan c') \<and>
    SendInLoop (epoll_ops map_kernel) quiet_cb full_socket ''hi'' c' = Inr c'' \<and>
    ep_registered (poller_of c'') (conn_chan c'')"
proof -
  let ?c = "live_conn\<lparr>state := kDisconnecting\<rparr>"
  have i: "conn_inv (epoll_ops map_kernel) (epoll_view map_kernel) ?c"
    using live_conn_inv live_conn_simps(1) by (rule conn_inv_disconnecting)
  obtain ch where ch: "own_channel (epoll_ops map_kernel) ?c = Inr ch" using conn_invD [OF i] .
  show ?thesis
    by (rule destroyed_disconnecting_reregisters [OF i _ _ ch])
      (use live_conn_simps in \<open>simp_all add: full_socket_def\<close>)
qed

text \<open>
  A hang-up reported together with \<open>POLLPRI\<close> but without \<open>POLLIN\<close> is handled twice: the close
  callback runs, and then the read callback, which finds the end of the stream and closes
  again. By then the channel is marked \<open>kDeleted\<close>, so its second \<open>DisableAll\<close> adds it to the kernel's
  list again, with an empty mask, for which hang-ups are still reported.
\<close>

lemma disable_all_epoll:
  assumes "ep_inv K (poller_of c)" "ep_chans (poller_of c) (conn_chan c) = Some ch" "index ch \<noteq> kNew"
    "conn_set (epoll_ops K) disable_all c = Inr c'"
  shows "\<exists>ch'. ep_chans (poller_of c') (conn_chan c) = Some ch' \<and> ch_fd ch' = ch_fd ch \<and>
    (if index ch = kAdded then index ch' = kDeleted else interest K (kern (poller_of c')) (ch_fd ch) = Some (0, conn_chan c))"
proof -
  let ?s = "poller_of c" and ?p = "conn_chan c"
  let ?d = "disable_all ch"
  let ?s1 = "ep_set_chan ?p ?d ?s"
  note inv = ep_invD [OF assms(1)] and con = epoll_contractD [OF ep_invD(1) [OF assms(1)]]
  have d: "index ?d = index ch" "ch_fd ?d = ch_fd ch" "events ?d = 0" by (simp_all add: channel_setters event_flags)
  obtain t where t: "ep_UpdateChannel K ?p ?s1 = Inr t" "c' = c\<lparr>poller_of := t\<rparr>"
    using assms(2,4) by (auto simp: conn_set_def channel_set_def epoll_ops_def res_bind_eq_Inr)
  show ?thesis
  proof (cases "index ch = kAdded")
    case True
    then have n: "index ch \<noteq> kNew \<and> index ch \<noteq> kDeleted" by (simp add: epoll_index)
    have "IsNoneEvent ?d" using d(3) by (simp add: IsNoneEvent_def kNoneEvent_def)
    then obtain u where "t = ep_set_index ?p kDeleted u" "ep_chans u = ep_chans ?s1"
      using t(1) n d by (auto simp: ep_UpdateChannel_def ep_set_chan_def ep_Update_def res_bind_eq_Inr split: sum.splits)
    then show ?thesis using True t(2) d by (simp add: ep_set_index_def ep_set_chan_def Set_Index_def)
  next
    case False
    then have k: "index ch = kDeleted" using inv(3) [OF assms(2)] assms(3) by auto
    obtain k' where k': "epoll_ctl K EPOLL_CTL_ADD (ch_fd ch) (0, ?p) (kern ?s) = Inr k'"
      "interest K k' = (interest K (kern ?s))(ch_fd ch \<mapsto> (0, ?p))"
      using con(1) [OF inv(6) [OF assms(2) k]] by blast
    have "t = (ep_set_index ?p kAdded ?s1)\<lparr>kern := k'\<rparr>"
      using t(1) k d k'(1)
      by (simp add: ep_UpdateChannel_def ep_set_chan_def ep_set_index_def ep_Update_def Set_Index_def epoll_index Let_def)
    then show ?thesis using False t(2) d k'(2) by (simp add: ep_set_index_def ep_set_chan_def Set_Index_def)
  qed
qed

lemma open_added:
  assumes "conn_inv (epoll_ops K) (epoll_view K) c" "open_state (state c)"
  shows "\<exists>ch. ep_chans (poller_of c) (conn_chan c) = Some ch \<and> ep_inv K (poller_of c) \<and>
    ep_registered (poller_of c) (conn_chan c) \<and> index ch = kAdded \<and>
    interest K (kern (poller_of c)) (ch_fd ch) =
      Some (if readable (output_buffer c) = [] then kReadEvent else kReadEvent OR kWriteEvent, conn_chan c)"
proof -
  obtain ch where o: "po_chans (epoll_ops K) (poller_of c) (conn_chan c) = Some ch" "events_ok ch"
    "pv_registered (epoll_view K) (poller_of c) (conn_chan c)" "pv_inv (epoll_view K) (poller_of c)"
    "pv_watch (epoll_view K) (poller_of c) (ch_fd ch) = events ch" "IsReading ch"
    "IsWriting ch \<longleftrightarrow> readable (output_buffer c) \<noteq> []"
    using conn_inv_openD [OF assms] .
  have d: "ep_chans (poller_of c) (conn_chan c) = Some ch" "ep_inv K (poller_of c)" using o(1,4) by simp_all
  have ev: "events ch = (if readable (output_buffer c) = [] then kReadEvent else kReadEvent OR kWriteEvent)"
    using o(2,6,7) by (auto simp: events_ok_def IsReading_def IsWriting_def event_flags)
  then have "events ch \<noteq> 0" by (auto simp: event_flags)
  then obtain e q where e: "interest K (kern (poller_of c)) (ch_fd ch) = Some (e, q)" "e = events ch"
    using o(5) by (auto simp: ep_watch_def split: option.splits)
  have a: "index ch = kAdded" using ep_invD(3,6) [OF d(2,1)] o(3) d e(1) by (auto simp: ep_registered_def)
  then have "q = conn_chan c" using ep_invD(5) [OF d(2,1)] e(1) by auto
  then show ?thesis using d e ev a o(3) by simp
qed

theorem hang_up_closes_twice:
  assumes "conn_inv (epoll_ops K) (epoll_view K) c" "open_state (state c)" "own_channel (epoll_ops K) c = Inr ch"
    "revents ch = POLLHUP OR POLLPRI" "has_close_cb ch" "has_read_cb ch" "\<forall>obj. tie ch = Some obj \<longrightarrow> alive obj"
    "readv_contract readv" "room 131070 (input_buffer c)" "readv (ch_fd ch) (read_iov (input_buffer c)) = Inr []"
  shows "HandleEvent alive ch = [OnClose, OnRead] \<and>
    (\<exists>c'. conn_HandleEvent (epoll_ops K) quiet_cb readv write so alive c = Inr c' \<and>
       interest K (kern (poller_of c')) (ch_fd ch) = Some (0, conn_chan c))"
proof -
  let ?P = "epoll_ops K" and ?V = "epoll_view K"
  have h: "HandleEvent alive ch = [OnClose, OnRead]"
    using assms(4-7) by (auto simp: HandleEvent_def HandleEventWithGuard_def event_flags split: option.split)
  have o: "ep_chans (poller_of c) (conn_chan c) = Some ch" "ep_inv K (poller_of c)" "ep_registered (poller_of c) (conn_chan c)"
    "index ch = kAdded" using open_added [OF assms(1,2)] assms(3) by (auto simp: own_channel_def)
  obtain s where s: "conn_set ?P disable_all (c\<lparr>state := kDisconnected\<rparr>) = Inr (c\<lparr>state := kDisconnected, poller_of := s\<rparr>)"
    "conn_inv ?P ?V (c\<lparr>state := kDisconnected, poller_of := s\<rparr>)" "pv_registered ?V s (conn_chan c)"
    using epoll_conn.close_channel [OF assms(1), of thesis] o(3) by auto
  let ?c1 = "c\<lparr>state := kDisconnected, poller_of := s\<rparr>"
  have close1: "conn_HandleClose ?P quiet_cb c = Inr ?c1" using s(1) by (simp add: conn_HandleClose_def quiet_cb_def)
  obtain ch1 where ch1: "ep_chans s (conn_chan c) = Some ch1" "ch_fd ch1 = ch_fd ch" "index ch1 = kDeleted"
    using disable_all_epoll [of K "c\<lparr>state := kDisconnected\<rparr>" ch, OF _ _ _ s(1)] o by (auto simp: epoll_index)
  have own1: "own_channel ?P ?c1 = Inr ch1" using ch1(1) by (simp add: own_channel_def)
  obtain b where b: "conn_inv ?P ?V (?c1\<lparr>input_buffer := b\<rparr>)"
    "conn_HandleRead ?P quiet_cb readv so ?c1 = conn_HandleClose ?P quiet_cb (?c1\<lparr>input_buffer := b\<rparr>)"
    using epoll_conn.HandleRead_ok [OF s(2) own1 assms(8), of quiet_cb so] assms(9,10) ch1(2) by (auto simp: room_def)
  let ?c2 = "?c1\<lparr>input_buffer := b\<rparr>"
  obtain s2 where s2: "conn_set ?P disable_all (?c2\<lparr>state := kDisconnected\<rparr>) = Inr (?c2\<lparr>state := kDisconnected, poller_of := s2\<rparr>)"
    using epoll_conn.close_channel [OF b(1), of thesis] s(3) by auto
  have e: "ep_inv K s" using s(2) by (simp add: conn_inv_def)
  have "interest K (kern s2) (ch_fd ch) = Some (0, conn_chan c)"
    using disable_all_epoll [of K "?c2\<lparr>state := kDisconnected\<rparr>" ch1, OF _ _ _ s2] ch1 e by (auto simp: epoll_index)
  moreover have "conn_HandleClose ?P quiet_cb ?c2 = Inr (?c2\<lparr>state := kDisconnected, poller_of := s2\<rparr>)"
    using s2 by (simp add: conn_HandleClose_def quiet_cb_def)
  ultimately show ?thesis using h close1 b(2) assms(3) by (simp add: conn_HandleEvent_def)
qed

end
