(* ===== verification/Poll_Poller.thy ===== *)
theory Poll_Poller
  imports Tcp_Connection
begin

text \<open>
  \<open>PollPoller\<close> (\<^verbatim>\<open>include/poll_poller.h\<close>, \<^verbatim>\<open>src/poll_poller.cc\<close>): the second implementation of
  the \<open>Poller\<close> interface, an array of \<open>pollfd\<close> in which a channel's index is its position.
  It meets the same contract (interpretation \<open>poll\<close>), so everything proved of connections
  over any poller holds on it too (interpretation \<open>poll_conn\<close>). Indexing outside the array is the
  fault \<open>OutOfBounds\<close>; \<open>poll\<close> itself is an argument.
\<close>

section \<open>The class\<close>

type_synonym cshort = "16 word"

record pollfd =
  pfd :: cint
  pevents :: cshort
  prevents :: cshort

record ppoller =
  pp_chans :: "ptr \<rightharpoonup> channel"
  pp_maps :: "cint \<rightharpoonup> ptr"
  poll_list :: "pollfd list"

definition PollPoller_ctor :: "(ptr \<rightharpoonup> channel) \<Rightarrow> ppoller" where
  "PollPoller_ctor m = \<lparr>pp_chans = m, pp_maps = Map.empty, poll_list = []\<rparr>"

definition to_pollfd :: "channel \<Rightarrow> pollfd" where
  "to_pollfd c = \<lparr>pfd = ch_fd c, pevents = ucast (events c), prevents = 0\<rparr>"

definition pp_set_index :: "ptr \<Rightarrow> int \<Rightarrow> ppoller \<Rightarrow> ppoller" where
  "pp_set_index p i s = s\<lparr>pp_chans := (pp_chans s)(p := map_option (Set_Index i) (pp_chans s p))\<rparr>"

definition pp_UpdateChannel :: "ptr \<Rightarrow> ppoller \<Rightarrow> ppoller res" where
  "pp_UpdateChannel p s =
     (case pp_chans s p of
        None \<Rightarrow> Inl UseAfterFree
      | Some c \<Rightarrow>
        if index c < 0
        then let s1 = s\<lparr>poll_list := poll_list s @ [to_pollfd c]\<rparr>;
                 s2 = pp_set_index p (int (length (poll_list s1)) - 1) s1
             in Inr (s2\<lparr>pp_maps := (pp_maps s2)(ch_fd c \<mapsto> p)\<rparr>)
        else if nat (index c) < length (poll_list s)
        then Inr (s\<lparr>poll_list := (poll_list s)[nat (index c) := to_pollfd c]\<rparr>)
        else Inl OutOfBounds)"

text \<open>
  \<open>idx == poll_list_.size() - 1\<close> compares as \<open>size_t\<close>: on an empty list with index \<open>-1\<close> it holds and
  \<open>pop_back\<close> is called on an empty vector. \<open>channel_maps_[fd]\<close> inserts a null pointer for a
  missing key.
\<close>

definition pp_RemoveChannel :: "ptr \<Rightarrow> ppoller \<Rightarrow> ppoller res" where
  "pp_RemoveChannel p s =
     (case pp_chans s p of
        None \<Rightarrow> Inl UseAfterFree
      | Some c \<Rightarrow>
        if poll_list s = [] then Inl OutOfBounds
        else if index c = int (length (poll_list s)) - 1 then Inr (s\<lparr>poll_list := butlast (poll_list s)\<rparr>)
        else if index c < 0 \<or> int (length (poll_list s)) \<le> index c then Inl OutOfBounds
        else let i = nat (index c); e = last (poll_list s); l = (poll_list s)[i := e] in
          (case pp_maps s (pfd e) of
             None \<Rightarrow> Inl NullDeref
           | Some q \<Rightarrow>
             (case pp_chans s q of
                None \<Rightarrow> Inl UseAfterFree
              | Some d \<Rightarrow> Inr ((pp_set_index q (index c) s)\<lparr>poll_list := butlast l\<rparr>))))"

text \<open>
  \<open>FillActiveChannnels\<close>: the first \<open>nready\<close> entries with events whose descriptor is in the map.
  \<open>revents > 0\<close> is on a signed short.
\<close>

fun pp_FillActiveChannels :: "int \<Rightarrow> pollfd list \<Rightarrow> ppoller \<Rightarrow> ptr list \<Rightarrow> (ppoller \<times> ptr list) res" where
  "pp_FillActiveChannels nready [] s active = Inr (s, active)"
| "pp_FillActiveChannels nready (e # es) s active =
     (if nready \<le> 0 then Inr (s, active)
      else if 0 < sint (prevents e)
      then (case pp_maps s (pfd e) of
              None \<Rightarrow> pp_FillActiveChannels nready es s active
            | Some p \<Rightarrow>
              (case pp_chans s p of
                 None \<Rightarrow> Inl UseAfterFree
               | Some c \<Rightarrow> pp_FillActiveChannels (nready - 1) es
                   (s\<lparr>pp_chans := (pp_chans s)(p \<mapsto> Set_Revents (scast (prevents e)) c)\<rparr>) (active @ [p])))
      else pp_FillActiveChannels nready es s active)"

text \<open>
  \<open>poll\<close> gets the array and the timeout and returns an error number, or the count and the
  received events of each entry. Every error is fatal: for \<open>EINTR\<close> too the code falls
  through to \<open>LOG_FATAL\<close>.
\<close>

definition pp_Polling ::
  "(pollfd list \<Rightarrow> cint \<Rightarrow> errno + int \<times> cshort list) \<Rightarrow> cint \<Rightarrow> ppoller \<Rightarrow> ptr list \<Rightarrow> (ppoller \<times> ptr list) res" where
  "pp_Polling poll timeout_ms s active =
     (case poll (poll_list s) timeout_ms of
        Inl e \<Rightarrow> Inl Fatal
      | Inr (nready, rs) \<Rightarrow>
        let s1 = s\<lparr>poll_list := map2 (\<lambda>e r. e\<lparr>prevents := r\<rparr>) (poll_list s) rs\<rparr> in
        if 0 < nready then pp_FillActiveChannels nready (poll_list s1) s1 active else Inr (s1, active))"

definition poll_contract :: "(pollfd list \<Rightarrow> cint \<Rightarrow> errno + int \<times> cshort list) \<Rightarrow> bool" where
  "poll_contract poll \<longleftrightarrow> (\<forall>l t n rs. poll l t = Inr (n, rs) \<longrightarrow> length rs = length l \<and>
     (\<forall>r \<in> set rs. 0 \<le> sint r) \<and> n = int (length (filter (\<lambda>r. r \<noteq> 0) rs)))"

section \<open>The contract of the interface\<close>

text \<open>Every entry of the array belongs to the channel the map gives for its descriptor.\<close>

definition pp_owns :: "ppoller \<Rightarrow> nat \<Rightarrow> ptr \<Rightarrow> bool" where
  "pp_owns s i p \<longleftrightarrow> pp_maps s (pfd (poll_list s ! i)) = Some p \<and>
     (\<exists>c. pp_chans s p = Some c \<and> ch_fd c = pfd (poll_list s ! i) \<and> index c = int i)"

definition pp_inv :: "ppoller \<Rightarrow> bool" where
  "pp_inv s \<longleftrightarrow> distinct (map pfd (poll_list s)) \<and> (\<forall>i < length (poll_list s). \<exists>p. pp_owns s i p)"

definition pp_registered :: "ppoller \<Rightarrow> ptr \<Rightarrow> bool" where
  "pp_registered s p \<longleftrightarrow> (\<exists>i < length (poll_list s). pp_owns s i p)"

definition pp_fd_free :: "ppoller \<Rightarrow> cint \<Rightarrow> bool" where
  "pp_fd_free s fd \<longleftrightarrow> fd \<notin> set (map pfd (poll_list s))"

definition pp_watch :: "ppoller \<Rightarrow> cint \<Rightarrow> cint" where
  "pp_watch s fd =
     (case map_of (map (\<lambda>e. (pfd e, pevents e)) (poll_list s)) fd of None \<Rightarrow> 0 | Some ev \<Rightarrow> ucast ev)"

definition pp_set_chan :: "ptr \<Rightarrow> channel \<Rightarrow> ppoller \<Rightarrow> ppoller" where
  "pp_set_chan p c s = s\<lparr>pp_chans := (pp_chans s)(p \<mapsto> c)\<rparr>"

lemma watch_entry:
  assumes "distinct (map pfd l)" "e \<in> set l"
  shows "map_of (map (\<lambda>e. (pfd e, pevents e)) l) (pfd e) = Some (pevents e)"
proof -
  have "distinct (map fst (map (\<lambda>e. (pfd e, pevents e)) l))" using assms(1) by (simp add: comp_def)
  then show ?thesis using assms(2) by (simp add: map_of_eq_Some_iff)
qed

lemma pp_watch_entry:
  "distinct (map pfd (poll_list s)) \<Longrightarrow> e \<in> set (poll_list s) \<Longrightarrow> pp_watch s (pfd e) = ucast (pevents e)"
  by (simp add: pp_watch_def watch_entry)

lemma pp_watch_free: "fd \<notin> pfd ` set (poll_list s) \<Longrightarrow> pp_watch s fd = 0"
  by (auto simp: pp_watch_def split: option.split dest!: map_of_SomeD)

lemma pp_watch_cong:
  assumes "distinct (map pfd (poll_list s))" "distinct (map pfd (poll_list s'))"
    "\<forall>e. pfd e = fd \<longrightarrow> (e \<in> set (poll_list s) \<longleftrightarrow> e \<in> set (poll_list s'))"
  shows "pp_watch s' fd = pp_watch s fd"
proof (cases "fd \<in> pfd ` set (poll_list s)")
  case True
  then obtain e where "e \<in> set (poll_list s)" "pfd e = fd" by auto
  then show ?thesis using pp_watch_entry [OF assms(1)] pp_watch_entry [OF assms(2)] assms(3) by metis
next
  case False
  then have "fd \<notin> pfd ` set (poll_list s')" using assms(3) by auto
  then show ?thesis using False by (simp add: pp_watch_free)
qed

lemma pp_watch_upd:
  assumes "distinct (map pfd (poll_list s))" "distinct (map pfd (poll_list s'))" "e \<in> set (poll_list s')"
    "\<forall>e'. pfd e' \<noteq> pfd e \<longrightarrow> (e' \<in> set (poll_list s) \<longleftrightarrow> e' \<in> set (poll_list s'))"
  shows "pp_watch s' = (pp_watch s)(pfd e := ucast (pevents e))"
proof
  fix fd
  show "pp_watch s' fd = ((pp_watch s)(pfd e := ucast (pevents e))) fd"
    using pp_watch_entry [OF assms(2,3)] pp_watch_cong [OF assms(1,2), of fd] assms(4) by auto
qed

lemma pp_watch_del:
  assumes "distinct (map pfd (poll_list s))" "distinct (map pfd (poll_list s'))" "f \<notin> pfd ` set (poll_list s')"
    "\<forall>e. pfd e \<noteq> f \<longrightarrow> (e \<in> set (poll_list s) \<longleftrightarrow> e \<in> set (poll_list s'))"
  shows "pp_watch s' = (pp_watch s)(f := 0)"
proof
  fix fd
  show "pp_watch s' fd = ((pp_watch s)(f := 0)) fd"
    using pp_watch_free [OF assms(3)] pp_watch_cong [OF assms(1,2), of fd] assms(4) by auto
qed

lemma small_mask: "events_ok c \<Longrightarrow> ucast (ucast (events c) :: cshort) = events c"
  by (auto simp: events_ok_def)

lemma distinct_update: "distinct (map f l) \<Longrightarrow> i < length l \<Longrightarrow> f x = f (l ! i) \<Longrightarrow> distinct (map f (l[i := x]))"
  by (metis length_map list_update_id map_update nth_map)

lemma set_update_other:
  assumes "distinct (map f l)" "i < length l" "f x = f (l ! i)" "f y \<noteq> f x"
  shows "y \<in> set (l[i := x]) \<longleftrightarrow> y \<in> set l"
  using assms by (metis in_set_conv_nth length_list_update nth_list_update_eq nth_list_update_neq)

lemma pp_update_new:
  assumes "pp_inv s" "pp_chans s p = Some c" "index c = - 1" "pp_fd_free s (ch_fd c)"
  defines "s' \<equiv> s\<lparr>poll_list := poll_list s @ [to_pollfd c],
      pp_chans := (pp_chans s)(p \<mapsto> Set_Index (int (length (poll_list s))) c), pp_maps := (pp_maps s)(ch_fd c \<mapsto> p)\<rparr>"
  shows "pp_UpdateChannel p s = Inr s'" "pp_inv s'" "pp_owns s' (length (poll_list s)) p"
    "\<forall>i < length (poll_list s). \<forall>q. pp_owns s' i q \<longleftrightarrow> pp_owns s i q"
proof -
  have fresh: "ch_fd c \<notin> pfd ` set (poll_list s)" using assms(4) by (simp add: pp_fd_free_def)
  show "pp_UpdateChannel p s = Inr s'"
    using assms(2,3) by (simp add: pp_UpdateChannel_def s'_def pp_set_index_def Let_def)
  show own: "pp_owns s' (length (poll_list s)) p"
    by (simp add: pp_owns_def s'_def to_pollfd_def Set_Index_def)
  show same: "\<forall>i < length (poll_list s). \<forall>q. pp_owns s' i q \<longleftrightarrow> pp_owns s i q"
  proof (intro allI impI)
    fix i q assume i: "i < length (poll_list s)"
    then have "pfd (poll_list s ! i) \<noteq> ch_fd c" using fresh by (metis image_eqI nth_mem)
    then show "pp_owns s' i q \<longleftrightarrow> pp_owns s i q"
      using i assms(2,3) by (auto simp: pp_owns_def s'_def nth_append Set_Index_def)
  qed
  have "distinct (map pfd (poll_list s'))"
    using assms(1) fresh by (simp add: pp_inv_def s'_def to_pollfd_def)
  moreover have "\<exists>q. pp_owns s' i q" if "i < length (poll_list s')" for i
    using that own same assms(1) by (cases "i = length (poll_list s)") (auto simp: pp_inv_def s'_def)
  ultimately show "pp_inv s'" by (simp add: pp_inv_def)
qed

lemma pp_update_old:
  assumes "pp_inv s" "i < length (poll_list s)" "pp_owns s i p" "pp_chans s p = Some c"
  defines "s' \<equiv> s\<lparr>poll_list := (poll_list s)[i := to_pollfd c]\<rparr>"
  shows "pp_UpdateChannel p s = Inr s'" "pp_inv s'" "\<forall>j q. pp_owns s' j q \<longleftrightarrow> pp_owns s j q"
    "pfd (to_pollfd c) = pfd (poll_list s ! i)"
proof -
  have c: "index c = int i" "ch_fd c = pfd (poll_list s ! i)" using assms(3,4) by (auto simp: pp_owns_def)
  show "pp_UpdateChannel p s = Inr s'" using assms(2,4) c by (simp add: pp_UpdateChannel_def s'_def)
  show fd: "pfd (to_pollfd c) = pfd (poll_list s ! i)" using c by (simp add: to_pollfd_def)
  show same: "\<forall>j q. pp_owns s' j q \<longleftrightarrow> pp_owns s j q"
    using fd assms(2) by (auto simp: pp_owns_def s'_def nth_list_update)
  show "pp_inv s'" using assms(1,2) fd same distinct_update [of pfd "poll_list s" i "to_pollfd c"]
    by (simp add: pp_inv_def s'_def)
qed

lemma pp_owner_unique:
  "pp_owns s i p \<Longrightarrow> pp_owns s j p \<Longrightarrow> i = j"
  by (auto simp: pp_owns_def)

lemma distinct_pfd_nth:
  "distinct (map pfd l) \<Longrightarrow> i < length l \<Longrightarrow> j < length l \<Longrightarrow> i \<noteq> j \<Longrightarrow> pfd (l ! i) \<noteq> pfd (l ! j)"
  by (metis length_map nth_eq_iff_index_eq nth_map)

lemma pp_remove_last:
  assumes "pp_inv s" "Suc i = length (poll_list s)" "pp_owns s i p" "pp_chans s p = Some c"
  defines "s' \<equiv> s\<lparr>poll_list := butlast (poll_list s)\<rparr>"
  shows "pp_RemoveChannel p s = Inr s'" "pp_inv s'" "\<forall>j < i. \<forall>q. pp_owns s' j q \<longleftrightarrow> pp_owns s j q"
proof -
  have c: "index c = int i" using assms(3,4) by (auto simp: pp_owns_def)
  show "pp_RemoveChannel p s = Inr s'"
    using assms(2,4) c by (auto simp: pp_RemoveChannel_def s'_def)
  show same: "\<forall>j < i. \<forall>q. pp_owns s' j q \<longleftrightarrow> pp_owns s j q"
    using assms(2) by (auto simp: pp_owns_def s'_def nth_butlast)
  show "pp_inv s'" using assms(1,2) same
    by (auto simp: pp_inv_def s'_def map_butlast distinct_butlast)
qed

lemma pp_remove_inner:
  assumes "pp_inv s" "Suc i < length (poll_list s)" "pp_owns s i p" "pp_chans s p = Some c"
    "Suc n = length (poll_list s)" "pp_owns s n q" "pp_chans s q = Some d"
  defines "s' \<equiv> s\<lparr>pp_chans := (pp_chans s)(q \<mapsto> Set_Index (int i) d),
      poll_list := butlast ((poll_list s)[i := poll_list s ! n])\<rparr>"
  shows "pp_RemoveChannel p s = Inr s'" "pp_inv s'" "pp_owns s' i q" "p \<noteq> q"
    "\<forall>j < n. j \<noteq> i \<longrightarrow> (\<forall>r. pp_owns s' j r \<longleftrightarrow> pp_owns s j r)"
proof -
  let ?l = "poll_list s"
  have ne: "?l \<noteq> []" using assms(5) by auto
  then have l: "last ?l = ?l ! n" using assms(5) by (metis diff_Suc_1 last_conv_nth)
  have c: "index c = int i" "ch_fd c = pfd (?l ! i)" using assms(3,4) by (auto simp: pp_owns_def)
  have d: "pp_maps s (pfd (?l ! n)) = Some q" "ch_fd d = pfd (?l ! n)" "index d = int n"
    using assms(6,7) by (auto simp: pp_owns_def)
  show pq: "p \<noteq> q" using c d assms(2,4,5,7) by auto
  have neg: "\<not> index c < 0" "\<not> int (length ?l) \<le> index c" "index c \<noteq> int (length ?l) - 1" "nat (index c) = i"
    using c assms(2) by auto
  show "pp_RemoveChannel p s = Inr s'"
    using assms(4,7) ne neg d(1) c(1) l
    by (simp add: pp_RemoveChannel_def s'_def Let_def pp_set_index_def)
  have nth: "poll_list s' ! j = (if j = i then ?l ! n else ?l ! j)" if "j < n" for j
    using that assms(2,5) by (auto simp: s'_def nth_butlast nth_list_update)
  have len: "length (poll_list s') = n" using assms(5) by (simp add: s'_def)
  have i: "i < n" using assms(2,5) by simp
  show own: "pp_owns s' i q" using nth [OF i] d by (simp add: pp_owns_def) (simp add: s'_def Set_Index_def)
  show same: "\<forall>j < n. j \<noteq> i \<longrightarrow> (\<forall>r. pp_owns s' j r \<longleftrightarrow> pp_owns s j r)"
    using nth d assms(7) by (auto simp: pp_owns_def) (auto simp: s'_def Set_Index_def split: if_splits)
  have "distinct (map pfd (poll_list s'))"
  proof -
    have "pfd (poll_list s' ! j) \<noteq> pfd (poll_list s' ! k)" if "j < n" "k < n" "j \<noteq> k" for j k
      using that nth distinct_pfd_nth [of ?l] assms(1,5) by (auto simp: pp_inv_def)
    then show ?thesis using len by (auto simp: distinct_conv_nth)
  qed
  moreover have "\<exists>r. pp_owns s' j r" if "j < n" for j
    using that same own assms(1,5) by (cases "j = i") (auto simp: pp_inv_def)
  ultimately show "pp_inv s'" using len by (auto simp: pp_inv_def)
qed

lemma pp_Update_law:
  assumes "pp_inv s" "pp_chans s p = Some c" "events_ok c"
    "pp_registered s p \<or> index c = - 1 \<and> pp_fd_free s (ch_fd c)"
  shows "\<exists>s'. pp_UpdateChannel p s = Inr s' \<and> pp_inv s' \<and> pp_registered s' p \<and>
     pp_watch s' = (pp_watch s)(ch_fd c := events c) \<and> same_channels (pp_chans s) (pp_chans s') \<and>
     (\<forall>q. q \<noteq> p \<longrightarrow> pp_registered s' q = pp_registered s q)"
proof (cases "pp_registered s p")
  case True
  then obtain i where i: "i < length (poll_list s)" "pp_owns s i p" by (auto simp: pp_registered_def)
  note u = pp_update_old [OF assms(1) i assms(2)]
  let ?s = "s\<lparr>poll_list := (poll_list s)[i := to_pollfd c]\<rparr>"
  have "pp_watch ?s = (pp_watch s)(pfd (to_pollfd c) := ucast (pevents (to_pollfd c)))"
    using assms(1) u(2) i(1) set_update_other [of pfd "poll_list s" i "to_pollfd c"] u(4)
    by (intro pp_watch_upd) (auto simp: pp_inv_def set_update_memI)
  then show ?thesis using u i by (intro exI [of _ ?s])
      (auto simp: pp_registered_def to_pollfd_def small_mask [OF assms(3)])
next
  case False
  then have c: "index c = - 1" "pp_fd_free s (ch_fd c)" using assms(4) by auto
  note u = pp_update_new [OF assms(1,2) c]
  let ?s = "s\<lparr>poll_list := poll_list s @ [to_pollfd c],
      pp_chans := (pp_chans s)(p \<mapsto> Set_Index (int (length (poll_list s))) c), pp_maps := (pp_maps s)(ch_fd c \<mapsto> p)\<rparr>"
  have "pp_watch ?s = (pp_watch s)(pfd (to_pollfd c) := ucast (pevents (to_pollfd c)))"
    using assms(1) u(2) by (intro pp_watch_upd) (auto simp: pp_inv_def)
  moreover have "pp_registered ?s p" using u(3) by (auto simp: pp_registered_def)
  moreover have "pp_registered ?s q = pp_registered s q" if "q \<noteq> p" for q
  proof -
    have "\<not> pp_owns ?s (length (poll_list s)) q" using u(3) that by (auto simp: pp_owns_def)
    then show ?thesis using u(4) by (auto simp: pp_registered_def less_Suc_eq)
  qed
  moreover have "same_channels (pp_chans s) (pp_chans ?s)" using assms(2) by (simp add: same_channels_upd)
  ultimately show ?thesis using u by (intro exI [of _ ?s]) (simp add: to_pollfd_def small_mask [OF assms(3)])
qed

text \<open>The array after a removal, in both branches: the last entry takes the place of the removed one.\<close>

lemma butlast_update_set:
  assumes "Suc n = length l" "i \<le> n" "distinct (map pfd l)"
  shows "e \<in> set (butlast (l[i := l ! n])) \<longleftrightarrow> e \<in> set l \<and> pfd e \<noteq> pfd (l ! i)"
proof -
  have nth: "butlast (l[i := l ! n]) ! j = (if j = i then l ! n else l ! j)" if "j < n" for j
    using that assms(1,2) by (simp add: nth_butlast nth_list_update)
  have "length (butlast (l[i := l ! n])) = n" using assms(1) by simp
  then have "e \<in> set (butlast (l[i := l ! n])) \<longleftrightarrow> (\<exists>j < n. (if j = i then l ! n else l ! j) = e)"
    using nth by (metis in_set_conv_nth)
  also have "\<dots> \<longleftrightarrow> (\<exists>k < Suc n. k \<noteq> i \<and> l ! k = e)"
  proof
    assume "\<exists>j < n. (if j = i then l ! n else l ! j) = e"
    then obtain j where "j < n" "(if j = i then l ! n else l ! j) = e" by blast
    then show "\<exists>k < Suc n. k \<noteq> i \<and> l ! k = e"
      by (intro exI [of _ "if j = i then n else j"]) (simp split: if_splits)
  next
    assume "\<exists>k < Suc n. k \<noteq> i \<and> l ! k = e"
    then obtain k where "k < Suc n" "k \<noteq> i" "l ! k = e" by blast
    then show "\<exists>j < n. (if j = i then l ! n else l ! j) = e"
      using assms(2) by (cases "k = n") auto
  qed
  also have "\<dots> \<longleftrightarrow> e \<in> set l \<and> pfd e \<noteq> pfd (l ! i)"
    using assms distinct_pfd_nth [OF assms(3)] by (auto simp: in_set_conv_nth)
  finally show ?thesis .
qed

lemma pp_watch_removed:
  assumes "pp_inv s" "pp_inv s'" "Suc n = length (poll_list s)" "i \<le> n"
    "poll_list s' = butlast ((poll_list s)[i := poll_list s ! n])"
  shows "pp_watch s' = (pp_watch s)(pfd (poll_list s ! i) := 0)"
  using assms butlast_update_set [OF assms(3,4)]
  by (intro pp_watch_del) (auto simp: pp_inv_def)

lemma pp_Remove_law:
  assumes "pp_inv s" "pp_chans s p = Some c" "pp_registered s p"
  shows "\<exists>s'. pp_RemoveChannel p s = Inr s' \<and> pp_inv s' \<and> \<not> pp_registered s' p \<and>
     pp_watch s' = (pp_watch s)(ch_fd c := 0) \<and> same_channels (pp_chans s) (pp_chans s') \<and>
     (\<forall>q. q \<noteq> p \<longrightarrow> pp_registered s' q = pp_registered s q)"
proof -
  let ?l = "poll_list s"
  obtain i where i: "i < length ?l" "pp_owns s i p" using assms(3) by (auto simp: pp_registered_def)
  then have cfd: "ch_fd c = pfd (?l ! i)" using assms(2) by (auto simp: pp_owns_def)
  obtain n where n: "Suc n = length ?l" using i(1) by (cases "length ?l") auto
  show ?thesis
  proof (cases "Suc i = length ?l")
    case True
    let ?s = "s\<lparr>poll_list := butlast ?l\<rparr>"
    note r = pp_remove_last [OF assms(1) True i(2) assms(2)]
    have "pp_watch ?s = (pp_watch s)(ch_fd c := 0)"
    proof -
      have "n = i" using True n by simp
      then show ?thesis using pp_watch_removed [OF assms(1) r(2) n, of i] cfd by simp
    qed
    moreover have "pp_registered ?s q = pp_registered s q" if "q \<noteq> p" for q
    proof -
      have "\<not> pp_owns s i q" using i(2) that by (auto simp: pp_owns_def)
      then show ?thesis using r(3) by (auto simp: pp_registered_def less_Suc_eq simp flip: True)
    qed
    moreover have "\<not> pp_registered ?s p"
    proof
      assume "pp_registered ?s p"
      then obtain j where "j < i" "pp_owns ?s j p" by (auto simp: pp_registered_def simp flip: True)
      then show False using r(3) i(2) pp_owner_unique by blast
    qed
    ultimately show ?thesis using r by (intro exI [of _ ?s]) simp
  next
    case False
    then have i': "Suc i < length ?l" using i(1) by simp
    obtain q where q: "pp_owns s n q" using assms(1) n by (metis lessI pp_inv_def)
    then obtain d where d: "pp_chans s q = Some d" by (auto simp: pp_owns_def)
    let ?s = "s\<lparr>pp_chans := (pp_chans s)(q \<mapsto> Set_Index (int i) d), poll_list := butlast (?l[i := ?l ! n])\<rparr>"
    note r = pp_remove_inner [OF assms(1) i' i(2) assms(2) n q d]
    have len: "length (poll_list ?s) = n" "i < n" using n i' by simp_all
    have "pp_watch ?s = (pp_watch s)(ch_fd c := 0)"
      using pp_watch_removed [OF assms(1) r(2) n, of i] len(2) cfd by simp
    moreover have "pp_registered ?s t = (t = q \<or> (\<exists>j < n. j \<noteq> i \<and> pp_owns s j t))" for t
    proof -
      have "pp_owns ?s i t \<longleftrightarrow> t = q" using r(3) by (auto simp: pp_owns_def)
      then show ?thesis using r(5) len by (auto simp: pp_registered_def)
    qed
    moreover have "pp_registered s t = (t = p \<or> t = q \<or> (\<exists>j < n. j \<noteq> i \<and> pp_owns s j t))" for t
    proof -
      have "pp_owns s i t \<longleftrightarrow> t = p" "pp_owns s n t \<longleftrightarrow> t = q" using i(2) q by (auto simp: pp_owns_def)
      then show ?thesis using n len(2) by (auto simp: pp_registered_def less_Suc_eq simp flip: n)
    qed
    moreover have "\<not> (\<exists>j < n. j \<noteq> i \<and> pp_owns s j p)" using i(2) pp_owner_unique by blast
    ultimately show ?thesis using r d by (intro exI [of _ ?s]) (simp add: same_channels_upd)
  qed
qed

interpretation poll: poller pp_inv pp_chans pp_set_chan pp_registered pp_fd_free pp_watch
  pp_UpdateChannel pp_RemoveChannel
proof unfold_locales
  fix s p and c c' :: channel
  assume a: "pp_inv s" "pp_chans s p = Some c" "ch_fd c' = ch_fd c" "index c' = index c"
  have "pp_owns (pp_set_chan p c' s) i q = pp_owns s i q" for i q
    using a by (auto simp: pp_owns_def pp_set_chan_def)
  then show "pp_inv (pp_set_chan p c' s) \<and> pp_chans (pp_set_chan p c' s) = (pp_chans s)(p \<mapsto> c') \<and>
      pp_registered (pp_set_chan p c' s) = pp_registered s \<and>
      pp_fd_free (pp_set_chan p c' s) = pp_fd_free s \<and> pp_watch (pp_set_chan p c' s) = pp_watch s"
    using a(1) by (auto simp: pp_inv_def pp_registered_def pp_fd_free_def pp_watch_def pp_set_chan_def fun_eq_iff)
next
  fix s p and c :: channel
  assume a: "pp_inv s" "pp_chans s p = None" "index c = - 1"
  have "pp_owns (pp_set_chan p c s) i q = pp_owns s i q" for i q
    using a by (auto simp: pp_owns_def pp_set_chan_def)
  moreover have "\<not> pp_owns s i p" for i using a(2) by (auto simp: pp_owns_def)
  ultimately show "pp_inv (pp_set_chan p c s) \<and> pp_chans (pp_set_chan p c s) = (pp_chans s)(p \<mapsto> c) \<and>
      \<not> pp_registered (pp_set_chan p c s) p \<and>
      pp_fd_free (pp_set_chan p c s) = pp_fd_free s \<and> pp_watch (pp_set_chan p c s) = pp_watch s"
    using a(1) by (auto simp: pp_inv_def pp_registered_def pp_fd_free_def pp_watch_def pp_set_chan_def fun_eq_iff)
qed (fact pp_Update_law pp_Remove_law)+

section \<open>Polling\<close>

lemma pp_inv_cong:
  assumes "map pfd (poll_list s') = map pfd (poll_list s)" "pp_maps s' = pp_maps s"
    "\<forall>p. map_option (\<lambda>c. (ch_fd c, index c)) (pp_chans s' p) = map_option (\<lambda>c. (ch_fd c, index c)) (pp_chans s p)"
  shows "pp_inv s' = pp_inv s"
proof -
  have len: "length (poll_list s') = length (poll_list s)" using assms(1) by (metis length_map)
  have "pp_owns s' i p = pp_owns s i p" if "i < length (poll_list s)" for i p
  proof -
    have "pfd (poll_list s' ! i) = pfd (poll_list s ! i)" using assms(1) len that by (metis nth_map)
    then show ?thesis using assms(2) assms(3) [rule_format, of p]
      by (cases "pp_chans s p"; cases "pp_chans s' p") (auto simp: pp_owns_def)
  qed
  then show ?thesis using assms(1) len by (auto simp: pp_inv_def)
qed

text \<open>The channels reported: the owners of the entries with events, in array order.\<close>

definition pp_ready :: "ppoller \<Rightarrow> pollfd list \<Rightarrow> ptr list" where
  "pp_ready s es = map (\<lambda>e. the (pp_maps s (pfd e))) (filter (\<lambda>e. prevents e \<noteq> 0) es)"

lemma pp_Fill_ok:
  assumes "\<forall>e \<in> set es. 0 \<le> sint (prevents e) \<and> (\<exists>p c. pp_maps s (pfd e) = Some p \<and> pp_chans s p = Some c)"
    "n = int (length (filter (\<lambda>e. prevents e \<noteq> 0) es))"
  shows "\<exists>m. pp_FillActiveChannels n es s active = Inr (s\<lparr>pp_chans := m\<rparr>, active @ pp_ready s es) \<and>
    (\<forall>p. map_option (\<lambda>c. c\<lparr>revents := 0\<rparr>) (m p) = map_option (\<lambda>c. c\<lparr>revents := 0\<rparr>) (pp_chans s p))"
  using assms
proof (induction es arbitrary: n s active)
  case Nil
  then show ?case by (auto simp: pp_ready_def intro: exI [of _ "pp_chans s"])
next
  case (Cons e es)
  obtain p c where p: "pp_maps s (pfd e) = Some p" "pp_chans s p = Some c" using Cons.prems(1) by auto
  show ?case
  proof (cases "prevents e = 0")
    case True
    have "pp_FillActiveChannels n (e # es) s active = pp_FillActiveChannels n es s active"
    proof (cases "n \<le> 0")
      case True
      then have "filter (\<lambda>e. prevents e \<noteq> 0) es = []" using Cons.prems(2) \<open>prevents e = 0\<close> by auto
      then show ?thesis using True by (cases es) auto
    qed (simp add: True)
    then show ?thesis using Cons.IH [of s n active] Cons.prems True by (simp add: pp_ready_def)
  next
    case False
    then have pos: "0 < sint (prevents e)"
      using Cons.prems(1) by (metis list.set_intros(1) order_le_less signed_0 signed_word_eqI)
    let ?s = "s\<lparr>pp_chans := (pp_chans s)(p \<mapsto> Set_Revents (scast (prevents e)) c)\<rparr>"
    have "pp_FillActiveChannels n (e # es) s active = pp_FillActiveChannels (n - 1) es ?s (active @ [p])"
      using pos p Cons.prems(2) False by simp
    moreover have "\<exists>m. pp_FillActiveChannels (n - 1) es ?s (active @ [p]) = Inr (?s\<lparr>pp_chans := m\<rparr>, (active @ [p]) @ pp_ready ?s es) \<and>
      (\<forall>q. map_option (\<lambda>c. c\<lparr>revents := 0\<rparr>) (m q) = map_option (\<lambda>c. c\<lparr>revents := 0\<rparr>) (pp_chans ?s q))"
    proof (rule Cons.IH)
      show "\<forall>e \<in> set es. 0 \<le> sint (prevents e) \<and> (\<exists>q d. pp_maps ?s (pfd e) = Some q \<and> pp_chans ?s q = Some d)"
      proof
        fix e' assume "e' \<in> set es"
        then obtain q d where "0 \<le> sint (prevents e')" "pp_maps s (pfd e') = Some q" "pp_chans s q = Some d"
          using Cons.prems(1) by auto
        then show "0 \<le> sint (prevents e') \<and> (\<exists>q d. pp_maps ?s (pfd e') = Some q \<and> pp_chans ?s q = Some d)"
          by (cases "q = p") auto
      qed
      show "n - 1 = int (length (filter (\<lambda>e. prevents e \<noteq> 0) es))" using Cons.prems(2) False by simp
    qed
    moreover have "pp_ready ?s es = pp_ready s es" by (simp add: pp_ready_def)
    ultimately show ?thesis using p False by (fastforce simp: pp_ready_def Set_Revents_def)
  qed
qed

text \<open>
  \<open>PollPoller::Polling\<close>: when \<open>poll\<close> succeeds, exactly the channels whose descriptors have
  events are reported, once each and in array order, and nothing but received events
  changes; when it fails the process is aborted, also for \<open>EINTR\<close>.
\<close>

theorem pp_Polling_spec:
  assumes "pp_inv s" "poll_contract poll"
  shows "case poll (poll_list s) t of
      Inl e \<Rightarrow> pp_Polling poll t s [] = Inl Fatal
    | Inr (n, rs) \<Rightarrow> \<exists>s'. pp_Polling poll t s [] = Inr (s', map (\<lambda>(e, r). the (pp_maps s (pfd e)))
          (filter (\<lambda>(e, r). r \<noteq> 0) (zip (poll_list s) rs))) \<and>
        pp_inv s' \<and> pp_watch s' = pp_watch s \<and>
        (\<forall>p. map_option (\<lambda>c. c\<lparr>revents := 0\<rparr>) (pp_chans s' p) = map_option (\<lambda>c. c\<lparr>revents := 0\<rparr>) (pp_chans s p))"
proof (cases "poll (poll_list s) t")
  case (Inl e)
  then show ?thesis by (simp add: pp_Polling_def)
next
  case (Inr nr)
  obtain n rs where nr: "nr = (n, rs)" by (cases nr)
  define l where "l = map2 (\<lambda>e r. e\<lparr>prevents := r\<rparr>) (poll_list s) rs"
  let ?s = "s\<lparr>poll_list := l\<rparr>"
  have k: "length rs = length (poll_list s)" "\<forall>r \<in> set rs. 0 \<le> sint r" "n = int (length (filter (\<lambda>r. r \<noteq> 0) rs))"
    using assms(2) Inr nr by (auto simp: poll_contract_def)
  have fds: "map pfd l = map pfd (poll_list s)" "map pevents l = map pevents (poll_list s)" "map prevents l = rs"
    using k(1) by (auto simp: l_def list_eq_iff_nth_eq)
  have inv: "pp_inv ?s" using assms(1) pp_inv_cong [of ?s s] fds(1) by simp
  have cnt: "n = int (length (filter (\<lambda>e. prevents e \<noteq> 0) l))"
    using k(3) fds(3) length_filter_map [of "\<lambda>r. r \<noteq> 0" prevents l] by (simp add: comp_def)
  have own: "\<forall>e \<in> set l. 0 \<le> sint (prevents e) \<and> (\<exists>p c. pp_maps ?s (pfd e) = Some p \<and> pp_chans ?s p = Some c)"
  proof
    fix e assume e: "e \<in> set l"
    then have "prevents e \<in> set rs" using fds(3) by auto
    moreover from e obtain i where i: "i < length (poll_list ?s)" "e = poll_list ?s ! i"
      by (auto simp: in_set_conv_nth)
    moreover from i(1) inv obtain p where "pp_owns ?s i p" unfolding pp_inv_def by blast
    ultimately show "0 \<le> sint (prevents e) \<and> (\<exists>p c. pp_maps ?s (pfd e) = Some p \<and> pp_chans ?s p = Some c)"
      using k(2) unfolding pp_owns_def by blast
  qed
  obtain m where m: "pp_FillActiveChannels n l ?s [] = Inr (?s\<lparr>pp_chans := m\<rparr>, [] @ pp_ready ?s l)"
    "\<forall>p. map_option (\<lambda>c. c\<lparr>revents := 0\<rparr>) (m p) = map_option (\<lambda>c. c\<lparr>revents := 0\<rparr>) (pp_chans ?s p)"
    using pp_Fill_ok [OF own cnt, of "[]"] by blast
  have rd: "pp_ready ?s l = map (\<lambda>(e, r). the (pp_maps s (pfd e))) (filter (\<lambda>(e, r). r \<noteq> 0) (zip (poll_list s) rs))"
    by (simp add: pp_ready_def l_def filter_map comp_def case_prod_unfold)
  have P: "pp_Polling poll t s [] = Inr (?s\<lparr>pp_chans := m\<rparr>, pp_ready ?s l)"
  proof (cases "0 < n")
    case True
    then show ?thesis using Inr nr m(1) by (simp add: pp_Polling_def Let_def flip: l_def)
  next
    case False
    then have "pp_ready ?s l = []" using cnt by (simp add: pp_ready_def)
    moreover have "?s\<lparr>pp_chans := m\<rparr> = ?s" using False m(1) cnt by (cases l) (auto simp: pp_ready_def)
    ultimately show ?thesis using Inr nr False by (simp add: pp_Polling_def Let_def flip: l_def)
  qed
  have "pp_inv (?s\<lparr>pp_chans := m\<rparr>) = pp_inv ?s"
  proof (rule pp_inv_cong)
    show "\<forall>p. map_option (\<lambda>c. (ch_fd c, index c)) (pp_chans (?s\<lparr>pp_chans := m\<rparr>) p)
        = map_option (\<lambda>c. (ch_fd c, index c)) (pp_chans ?s p)"
    proof
      fix p
      have "map_option (\<lambda>c. (ch_fd c, index c)) (map_option (\<lambda>c. c\<lparr>revents := 0\<rparr>) (m p))
          = map_option (\<lambda>c. (ch_fd c, index c)) (map_option (\<lambda>c. c\<lparr>revents := 0\<rparr>) (pp_chans ?s p))"
        using m(2) by simp
      then show "map_option (\<lambda>c. (ch_fd c, index c)) (pp_chans (?s\<lparr>pp_chans := m\<rparr>) p)
        = map_option (\<lambda>c. (ch_fd c, index c)) (pp_chans ?s p)" by (simp add: option.map_comp comp_def)
    qed
  qed simp_all
  moreover have "pp_watch (?s\<lparr>pp_chans := m\<rparr>) = pp_watch s"
  proof -
    have "map (\<lambda>e. (pfd e, pevents e)) l = map (\<lambda>e. (pfd e, pevents e)) (poll_list s)"
      using k(1) by (auto simp: l_def list_eq_iff_nth_eq)
    then show ?thesis by (simp add: pp_watch_def fun_eq_iff)
  qed
  ultimately show ?thesis using Inr nr P rd inv m(2) by auto
qed

text \<open>Two registered channels, on descriptors 5 and 6, for the witnesses.\<close>

definition two_polled :: ppoller where
  "two_polled =
     \<lparr>pp_chans = [0 \<mapsto> (Channel_ctor 5)\<lparr>events := 3, index := 0\<rparr>, 1 \<mapsto> (Channel_ctor 6)\<lparr>events := 3, index := 1\<rparr>],
      pp_maps = [5 \<mapsto> 0, 6 \<mapsto> 1],
      poll_list = [\<lparr>pfd = 5, pevents = 3, prevents = 0\<rparr>, \<lparr>pfd = 6, pevents = 3, prevents = 0\<rparr>]\<rparr>"

lemma two_polled_owns: "pp_owns two_polled 0 0" "pp_owns two_polled 1 1" "length (poll_list two_polled) = 2"
  by (simp_all add: pp_owns_def two_polled_def Channel_ctor_def)

lemma two_polled_inv: "pp_inv two_polled"
proof -
  have "i = 0 \<or> i = 1" if "i < length (poll_list two_polled)" for i
    using that by (auto simp: two_polled_def)
  then have "\<forall>i < length (poll_list two_polled). \<exists>p. pp_owns two_polled i p" using two_polled_owns by metis
  then show ?thesis by (simp add: pp_inv_def two_polled_def)
qed

definition poll_second :: "pollfd list \<Rightarrow> cint \<Rightarrow> errno + int \<times> cshort list" where
  "poll_second l t = Inr (if 2 \<le> length l then (1, 0 # 1 # replicate (length l - 2) 0) else (0, replicate (length l) 0))"

lemma poll_second_contract: "poll_contract poll_second"
  by (auto simp: poll_contract_def poll_second_def filter_replicate split: if_splits)

theorem pp_Polling_spec_witness:
  "\<exists>s'. pp_Polling poll_second 10 two_polled [] = Inr (s', [1]) \<and> pp_inv s'"
  using pp_Polling_spec [OF two_polled_inv poll_second_contract, of 10]
  by (auto simp: poll_second_def two_polled_def)

section \<open>The connection on the poll poller\<close>

definition poll_ops :: "ppoller poller_ops" where
  "poll_ops = \<lparr>po_chans = pp_chans, po_set = pp_set_chan, po_update = pp_UpdateChannel,
     po_remove = pp_RemoveChannel\<rparr>"

definition poll_view :: "ppoller poller_view" where
  "poll_view = \<lparr>pv_inv = pp_inv, pv_registered = pp_registered, pv_fd_free = pp_fd_free, pv_watch = pp_watch\<rparr>"

interpretation poll_conn: conn_loop poll_ops poll_view
  unfolding conn_loop_def using poll.poller_axioms by (simp add: poll_ops_def poll_view_def)

text \<open>
  C37. The connection's guarantees do not depend on which poller the library is built with:
  over \<open>PollPoller\<close> too, \<open>SendInLoop\<close> on an open connection never faults, keeps the invariant
  (writability is watched exactly while bytes wait) and extends the stream by exactly the
  data, with the same one exception.
\<close>

theorem SendInLoop_on_poll:
  assumes "conn_inv poll_ops poll_view c" "open_state (state c)" "write_contract write"
    "cb_ok poll_ops poll_view cb" "room (length data) (output_buffer c)"
  shows "\<exists>c'. SendInLoop poll_ops cb write data c = Inr c' \<and> conn_inv poll_ops poll_view c' \<and>
    (if write_fails poll_ops write data c then c' = c
     else prefix (stream c @ data) (stream c') \<and>
          (\<not> write_complete_set c \<longrightarrow> stream c' = stream c @ data))"
  using poll_conn.SendInLoop_ok [OF assms(1-4) assms(5) [unfolded room_def]] by blast

definition polled_conn :: "ppoller connection" where
  "polled_conn = projr (ConnectionEstablished poll_ops quiet_cb 1
     (projr (TcpConnection_ctor poll_ops (Some (PollPoller_ctor Map.empty)) 0 5)))"

lemma polled_conn_facts:
  "conn_inv poll_ops poll_view polled_conn" "state polled_conn = kConnected" "stream polled_conn = []"
  "room (length ''hi'') (output_buffer polled_conn)" "\<not> write_complete_set polled_conn"
proof -
  obtain b where b: "Buffer_ctor kInitialSize = Inr b" "write_index b = kCheapPrepend"
    using Buffer_ctor_ok [of kInitialSize] by (auto simp: kInitialSize_def vec_max_size_def)
  obtain c where c: "TcpConnection_ctor poll_ops (Some (PollPoller_ctor Map.empty)) 0 5 = Inr c"
    "conn_inv poll_ops poll_view c" "state c = kConnecting" "stream c = []"
    using poll_conn.ctor_ok [of "PollPoller_ctor Map.empty" 0 5]
    by (auto simp: poll_ops_def poll_view_def PollPoller_ctor_def pp_inv_def pp_fd_free_def)
  have o: "output_buffer c = b" "\<not> write_complete_set c"
    using c(1) b(1) by (auto simp: TcpConnection_ctor_def CheckLoopNotNull_def)
  obtain c1 where c1: "conn_inv poll_ops poll_view c1" "state c1 = kConnected" "stream c1 = stream c"
    "ConnectionEstablished poll_ops quiet_cb 1 c = Inr c1"
    using poll_conn.ConnectionEstablished_ok [OF c(2,3), of quiet_cb 1] by (auto simp: quiet_cb_def)
  have e: "polled_conn = c1" using c(1) c1(4) by (simp add: polled_conn_def)
  have "\<exists>s. c1 = c\<lparr>state := kConnected, poller_of := s\<rparr>"
    using c1(4) unfolding ConnectionEstablished_def Let_def conn_set_def own_channel_def
    by (auto simp: quiet_cb_def res_bind_eq_Inr split: option.splits)
  then have "room (length ''hi'') (output_buffer c1)" "\<not> write_complete_set c1"
    using o b(2) by (auto simp: room_def vec_max_size_def)
  then show "conn_inv poll_ops poll_view polled_conn" "state polled_conn = kConnected" "stream polled_conn = []"
    "room (length ''hi'') (output_buffer polled_conn)" "\<not> write_complete_set polled_conn"
    unfolding e using c1 c(4) by simp_all
qed

theorem SendInLoop_on_poll_witness:
  "\<exists>c'. SendInLoop poll_ops quiet_cb one_byte ''hi'' polled_conn = Inr c' \<and> stream c' = ''hi''"
proof -
  have "\<not> write_fails poll_ops one_byte ''hi'' polled_conn" by (simp add: write_fails_def one_byte_def)
  moreover have "open_state (state polled_conn)" by (simp add: open_state_def polled_conn_facts)
  ultimately show ?thesis
    using SendInLoop_on_poll [OF polled_conn_facts(1) _ one_byte_contract quiet_cb_ok polled_conn_facts(4)]
    by (auto simp: polled_conn_facts)
qed

text \<open>
  \<open>PollPoller::RemoveChannel\<close> does not reset the removed channel's index (\<open>EpollPoller\<close>
  does): when that channel changes its events once more, \<open>UpdateChannel\<close> overwrites the array
  entry of the channel that was moved into its place, which is then no longer watched.
\<close>

theorem poll_stale_index_corrupts:
  assumes "pp_inv s" "Suc i < length (poll_list s)" "pp_owns s i p" "Suc n = length (poll_list s)"
    "pp_owns s n q" "pp_chans s q = Some d"
  shows "\<exists>s' s''. pp_RemoveChannel p s = Inr s' \<and> pp_registered s' q \<and>
    pp_UpdateChannel p s' = Inr s'' \<and> pp_watch s'' (ch_fd d) = 0"
proof -
  obtain c where c: "pp_chans s p = Some c" "index c = int i" "ch_fd c = pfd (poll_list s ! i)"
    using assms(3) by (auto simp: pp_owns_def)
  note r = pp_remove_inner [OF assms(1,2,3) c(1) assms(4,5,6)]
  define s' where "s' = s\<lparr>pp_chans := (pp_chans s)(q \<mapsto> Set_Index (int i) d),
      poll_list := butlast ((poll_list s)[i := poll_list s ! n])\<rparr>"
  have i: "i < n" "length (poll_list s') = n" using assms(2,4) by (simp_all add: s'_def)
  have s': "pp_RemoveChannel p s = Inr s'" "pp_inv s'" "pp_owns s' i q" using r(1,2,3) by (simp_all add: s'_def)
  have fd: "ch_fd d = pfd (poll_list s' ! i)" using s'(3) assms(6) by (auto simp: pp_owns_def s'_def Set_Index_def)
  let ?s = "s'\<lparr>poll_list := (poll_list s')[i := to_pollfd c]\<rparr>"
  have "pp_UpdateChannel p s' = Inr ?s"
    using c r(4) i by (simp add: pp_UpdateChannel_def) (simp add: s'_def)
  moreover have "ch_fd c \<noteq> ch_fd d"
    using c(3) assms(1,4,5,6) i(1) distinct_pfd_nth [of "poll_list s" i n] by (auto simp: pp_owns_def pp_inv_def)
  have "ch_fd d \<notin> pfd ` set (poll_list ?s)"
  proof
    assume "ch_fd d \<in> pfd ` set (poll_list ?s)"
    then obtain e where "e \<in> set (poll_list ?s)" "pfd e = ch_fd d" by auto
    then obtain j where j: "j < n" "pfd (poll_list ?s ! j) = ch_fd d"
      using i(2) by (auto simp: in_set_conv_nth)
    show False
    proof (cases "j = i")
      case True
      then show ?thesis using j(2) i \<open>ch_fd c \<noteq> ch_fd d\<close> by (simp add: to_pollfd_def)
    next
      case False
      then show ?thesis using j i fd s'(2) distinct_pfd_nth [of "poll_list s'" j i] by (simp add: pp_inv_def)
    qed
  qed
  then have "pp_watch ?s (ch_fd d) = 0" by (rule pp_watch_free)
  moreover have "pp_registered s' q" using s'(3) i by (auto simp: pp_registered_def)
  ultimately show ?thesis using s'(1) by blast
qed

theorem poll_stale_index_corrupts_witness:
  "\<exists>s' s''. pp_RemoveChannel 0 two_polled = Inr s' \<and> pp_registered s' 1 \<and>
    pp_UpdateChannel 0 s' = Inr s'' \<and> pp_watch s'' 6 = 0"
proof -
  have d: "pp_chans two_polled 1 = Some ((Channel_ctor 6)\<lparr>events := 3, index := 1\<rparr>)" by (simp add: two_polled_def)
  have "\<exists>s' s''. pp_RemoveChannel 0 two_polled = Inr s' \<and> pp_registered s' 1 \<and>
      pp_UpdateChannel 0 s' = Inr s'' \<and> pp_watch s'' (ch_fd ((Channel_ctor 6)\<lparr>events := 3, index := 1\<rparr>)) = 0"
    by (rule poll_stale_index_corrupts [OF two_polled_inv _ two_polled_owns(1) _ two_polled_owns(2) d])
      (simp_all add: two_polled_owns)
  then show ?thesis by (simp add: Channel_ctor_def)
qed

end
