(* ===== verification/Reactor.thy ===== *)
theory Reactor
  imports Event_Loop Poll_Poller
begin

text \<open>
  The event loop as a whole (\<^verbatim>\<open>src/event_loop.cc\<close>): construction and destruction, one turn of
  \<open>Loop\<close> over the timers, the poller and the functors, and \<open>Loop\<close> itself. The loop runs code it
  does not own: timer callbacks, channel handlers and functors. They are the argument \<open>U\<close>, of
  which the theorems ask what the interface of \<open>EventLoop\<close> lets them do (\<open>client_ok\<close>). The
  poller is any implementation that keeps the laws of the locale \<open>loop_polling\<close>; both are shown
  to keep them. What other threads do to a running loop is in \<open>Event_Loop\<close>.
\<close>

section \<open>The object\<close>

text \<open>
  Everything in the loop besides its timers, which are the state around it: \<open>user\<close> is what the
  callbacks keep for themselves.
\<close>

record ('f, 'k, 's, 'u) io =
  ev_loop :: "('f, 'k) event_loop"
  loop_poller :: 's
  active_channels :: "ptr list"
  wakeup_channel :: ptr
  poll_return_time :: int
  user :: 'u

type_synonym ('cb, 'f, 'k, 's, 'u) reactor = "('cb, ('f, 'k, 's, 'u) io) timer_manager"

definition on_loop ::
  "(('f, 'k) event_loop \<Rightarrow> ('f, 'k) event_loop) \<Rightarrow> ('cb, 'f, 'k, 's, 'u) reactor \<Rightarrow> ('cb, 'f, 'k, 's, 'u) reactor" where
  "on_loop g s = s\<lparr>world := (world s)\<lparr>ev_loop := g (ev_loop (world s))\<rparr>\<rparr>"

text \<open>
  The code the loop runs: a timer callback, a handler of a channel, a functor; and whether the
  object a channel is tied to is still owned. Handlers and functors may call the timer manager; a timer
  callback here does not (callbacks that add timers are the subject of \<open>CheckAndHandle_spec\<close>).
\<close>

record ('cb, 'f, 'k, 's, 'u) client =
  run_timer :: "'cb \<Rightarrow> ('f, 'k, 's, 'u) io \<Rightarrow> ('f, 'k, 's, 'u) io"
  run_event :: "ptr \<Rightarrow> handler \<Rightarrow> ('cb, 'f, 'k, 's, 'u) reactor \<Rightarrow> ('cb, 'f, 'k, 's, 'u) reactor res"
  run_functor :: "'f \<Rightarrow> ('cb, 'f, 'k, 's, 'u) reactor \<Rightarrow> ('cb, 'f, 'k, 's, 'u) reactor res"
  owned :: "'u \<Rightarrow> ptr \<Rightarrow> bool"

text \<open>What one turn reads from outside: the clock, four times, and the result of polling.\<close>

record 's outcome =
  clock_check :: "int \<times> int"
  clock_test :: u64
  clock_timeout :: u64
  clock_return :: int
  polling :: "cint \<Rightarrow> 's \<Rightarrow> ptr list \<Rightarrow> ('s \<times> ptr list) res"

section \<open>Construction and destruction\<close>

text \<open>\<open>utils::CreateEventfd\<close>, given what \<open>eventfd\<close> returned.\<close>

definition CreateEventfd :: "errno + cint \<times> 'k \<Rightarrow> (cint \<times> 'k) res" where
  "CreateEventfd created = (case created of Inl e \<Rightarrow> Inl Fatal | Inr k \<Rightarrow> Inr k)"

text \<open>
  The constructor in the thread \<open>tid\<close>: \<open>this\<close> is the address of the new object, \<open>p\<close> that of its
  channel, \<open>t_loop\<close> the thread-local \<open>t_loopInThisThread\<close>, \<open>s\<close> the new poller.
\<close>

definition EventLoop_ctor ::
  "'s poller_ops \<Rightarrow> errno + cint \<times> 'k \<Rightarrow> int \<Rightarrow> ptr \<Rightarrow> ptr \<Rightarrow> 'u \<Rightarrow> 's \<Rightarrow> ptr option \<Rightarrow>
   (('cb, 'f, 'k, 's, 'u) reactor \<times> ptr option) res" where
  "EventLoop_ctor P created tid this p u s t_loop =
     res_bind (CreateEventfd created) (\<lambda>(fd, k).
       if t_loop \<noteq> None then Inl Fatal
       else res_bind (channel_set P enable_read p (po_set P p ((Channel_ctor fd)\<lparr>has_read_cb := True\<rparr>) s)) (\<lambda>s1.
         Inr (empty_manager
               \<lparr>ev_loop = \<lparr>looping = False, quit = False, thread_id = tid, pending_functors = [],
                           calling_pending_functors = False, wake_fd = k\<rparr>,
                loop_poller = s1, active_channels = [], wakeup_channel = p, poll_return_time = 0, user = u\<rparr>,
              Some this)))"

text \<open>The destructor gives the poller it leaves behind, the descriptor it closed and the new \<open>t_loop\<close>.\<close>

definition EventLoop_dtor ::
  "'s poller_ops \<Rightarrow> ('cb, 'f, 'k, 's, 'u) reactor \<Rightarrow> ('s \<times> cint \<times> ptr option) res" where
  "EventLoop_dtor P r =
     (let p = wakeup_channel (world r) in
      res_bind (channel_set P disable_all p (loop_poller (world r))) (\<lambda>s1.
      res_bind (po_remove P p s1) (\<lambda>s2.
        case po_chans P s2 p of None \<Rightarrow> Inl UseAfterFree | Some c \<Rightarrow> Inr (s2, ch_fd c, None))))"

text \<open>The timer interface of the loop.\<close>

definition RunAfter ::
  "u64 \<Rightarrow> cint \<Rightarrow> u64 \<Rightarrow> 'cb \<Rightarrow> ('cb, 'f, 'k, 's, 'u) reactor \<Rightarrow> ptr option \<times> ('cb, 'f, 'k, 's, 'u) reactor" where
  "RunAfter now repeat intv cb s = AddTimer now repeat intv cb s"

text \<open>The poller interface of the loop: each call is passed on (the answer of \<open>HasChannel\<close> is dropped).\<close>

definition on_poller ::
  "('s \<Rightarrow> 's res) \<Rightarrow> ('cb, 'f, 'k, 's, 'u) reactor \<Rightarrow> ('cb, 'f, 'k, 's, 'u) reactor res" where
  "on_poller g r = res_bind (g (loop_poller (world r))) (\<lambda>s. Inr (r\<lparr>world := (world r)\<lparr>loop_poller := s\<rparr>\<rparr>))"

definition loop_UpdateChannel ::
  "'s poller_ops \<Rightarrow> ptr \<Rightarrow> ('cb, 'f, 'k, 's, 'u) reactor \<Rightarrow> ('cb, 'f, 'k, 's, 'u) reactor res" where
  "loop_UpdateChannel P p = on_poller (po_update P p)"

definition loop_RemoveChannel ::
  "'s poller_ops \<Rightarrow> ptr \<Rightarrow> ('cb, 'f, 'k, 's, 'u) reactor \<Rightarrow> ('cb, 'f, 'k, 's, 'u) reactor res" where
  "loop_RemoveChannel P p = on_poller (po_remove P p)"

definition loop_HasChannel ::
  "('s \<Rightarrow> cint \<rightharpoonup> ptr) \<Rightarrow> 's poller_ops \<Rightarrow> ptr \<Rightarrow> ('cb, 'f, 'k, 's, 'u) reactor \<Rightarrow> ('cb, 'f, 'k, 's, 'u) reactor res" where
  "loop_HasChannel maps P p r =
     res_bind (HasChannel (maps (loop_poller (world r))) (po_chans P (loop_poller (world r))) p) (\<lambda>_. Inr r)"

text \<open>The choice of the poller at compile time (\<open>USE_POLL\<close>), given what \<open>epoll_create1\<close> returns.\<close>

definition NewDefaultPoller :: "bool \<Rightarrow> errno + 'e \<Rightarrow> (ppoller + 'e epoller) res" where
  "NewDefaultPoller use_poll created =
     (if use_poll then Inr (Inl (PollPoller_ctor Map.empty)) else res_bind (EpollPoller_ctor created Map.empty) (\<lambda>s. Inr (Inr s)))"

section \<open>One turn\<close>

text \<open>
  A handler of a channel: the wake-up channel has only the one that drains the eventfd, those
  of any other channel are the client's.
\<close>

definition call_handler ::
  "'k eventfd \<Rightarrow> ('cb, 'f, 'k, 's, 'u) client \<Rightarrow> ptr \<Rightarrow> handler \<Rightarrow> ('cb, 'f, 'k, 's, 'u) reactor \<Rightarrow>
   ('cb, 'f, 'k, 's, 'u) reactor res" where
  "call_handler E U p h s =
     (if p = wakeup_channel (world s) then Inr (if h = OnRead then on_loop (HandleRead E) s else s)
      else run_event U p h s)"

fun call_handlers ::
  "'k eventfd \<Rightarrow> ('cb, 'f, 'k, 's, 'u) client \<Rightarrow> ptr \<Rightarrow> handler list \<Rightarrow> ('cb, 'f, 'k, 's, 'u) reactor \<Rightarrow>
   ('cb, 'f, 'k, 's, 'u) reactor res" where
  "call_handlers E U p [] s = Inr s"
| "call_handlers E U p (h # hs) s = res_bind (call_handler E U p h s) (call_handlers E U p hs)"

fun handle_active ::
  "'s poller_ops \<Rightarrow> 'k eventfd \<Rightarrow> ('cb, 'f, 'k, 's, 'u) client \<Rightarrow> ptr list \<Rightarrow> ('cb, 'f, 'k, 's, 'u) reactor \<Rightarrow>
   ('cb, 'f, 'k, 's, 'u) reactor res" where
  "handle_active P E U [] s = Inr s"
| "handle_active P E U (p # ps) s =
     (case po_chans P (loop_poller (world s)) p of
        None \<Rightarrow> Inl UseAfterFree
      | Some c \<Rightarrow>
        res_bind (call_handlers E U p (HandleEvent (owned U (user (world s))) c) s) (handle_active P E U ps))"

definition PollAndHandleIoEvent ::
  "'s poller_ops \<Rightarrow> 'k eventfd \<Rightarrow> ('cb, 'f, 'k, 's, 'u) client \<Rightarrow> 's outcome \<Rightarrow> ('cb, 'f, 'k, 's, 'u) reactor \<Rightarrow>
   ('cb, 'f, 'k, 's, 'u) reactor res" where
  "PollAndHandleIoEvent P E U X s =
     (let w = (world s)\<lparr>active_channels := []\<rparr> in
      res_bind (poll_timeout (clock_test X) (clock_timeout X) s) (\<lambda>timeout_ms.
      res_bind (polling X timeout_ms (loop_poller w) (active_channels w)) (\<lambda>(s1, active).
        handle_active P E U active
          (s\<lparr>world := w\<lparr>loop_poller := s1, active_channels := active, poll_return_time := clock_return X\<rparr>\<rparr>))))"

fun run_functors ::
  "('cb, 'f, 'k, 's, 'u) client \<Rightarrow> 'f list \<Rightarrow> ('cb, 'f, 'k, 's, 'u) reactor \<Rightarrow> ('cb, 'f, 'k, 's, 'u) reactor res" where
  "run_functors U [] s = Inr s"
| "run_functors U (f # fs) s = res_bind (run_functor U f s) (run_functors U fs)"

text \<open>\<open>DoPendingFunctors\<close> with functors that act on the whole loop.\<close>

definition loop_functors ::
  "('cb, 'f, 'k, 's, 'u) client \<Rightarrow> ('cb, 'f, 'k, 's, 'u) reactor \<Rightarrow> ('cb, 'f, 'k, 's, 'u) reactor res" where
  "loop_functors U s =
     (let (functors, l) = swap_pending (ev_loop (world s)) in
      res_bind (run_functors U functors (on_loop (\<lambda>_. l) s)) (\<lambda>s1. Inr (on_loop end_pending s1)))"

text \<open>The body of the \<open>while\<close> of \<open>Loop\<close>; \<open>None\<close> if the loop over the timers does not end.\<close>

definition loop_turn ::
  "'s poller_ops \<Rightarrow> 'k eventfd \<Rightarrow> ('cb, 'f, 'k, 's, 'u) client \<Rightarrow> 's outcome \<Rightarrow> ('cb, 'f, 'k, 's, 'u) reactor \<Rightarrow>
   ('cb, 'f, 'k, 's, 'u) reactor res option" where
  "loop_turn P E U X s =
     map_option (\<lambda>r. res_bind r (\<lambda>s1. res_bind (PollAndHandleIoEvent P E U X s1) (loop_functors U)))
       (CheckAndHandle (world_run (run_timer U)) (clock_check X) s)"

section \<open>The loop\<close>

text \<open>\<open>os n\<close> is what the turn number \<open>n\<close> reads from outside.\<close>

partial_function (option) loop_while ::
  "'s poller_ops \<Rightarrow> 'k eventfd \<Rightarrow> ('cb, 'f, 'k, 's, 'u) client \<Rightarrow> (nat \<Rightarrow> 's outcome) \<Rightarrow> nat \<Rightarrow>
   ('cb, 'f, 'k, 's, 'u) reactor \<Rightarrow> ('cb, 'f, 'k, 's, 'u) reactor res option" where
  "loop_while P E U os n s =
     (if quit (ev_loop (world s)) then Some (Inr s)
      else (case loop_turn P E U (os n) s of
              None \<Rightarrow> None
            | Some (Inl f) \<Rightarrow> Some (Inl f)
            | Some (Inr s1) \<Rightarrow> loop_while P E U os (Suc n) s1))"

definition Loop ::
  "'s poller_ops \<Rightarrow> 'k eventfd \<Rightarrow> ('cb, 'f, 'k, 's, 'u) client \<Rightarrow> (nat \<Rightarrow> 's outcome) \<Rightarrow>
   ('cb, 'f, 'k, 's, 'u) reactor \<Rightarrow> ('cb, 'f, 'k, 's, 'u) reactor res option" where
  "Loop P E U os s =
     map_option (\<lambda>r. res_bind r (\<lambda>s1. Inr (on_loop leave_loop s1))) (loop_while P E U os 0 (on_loop enter_loop s))"

section \<open>What the parts promise each other\<close>

text \<open>What polling may change: the received events of channels, and nothing a client can see.\<close>

definition polled :: "'s poller_ops \<Rightarrow> 's poller_view \<Rightarrow> 's \<Rightarrow> 's \<Rightarrow> bool" where
  "polled P V s s' \<longleftrightarrow> same_channels (po_chans P s) (po_chans P s') \<and>
     pv_registered V s' = pv_registered V s \<and> pv_watch V s' = pv_watch V s"

text \<open>The wake-up channel exists, is registered and watched for input.\<close>

definition wake_ok :: "'s poller_ops \<Rightarrow> 's poller_view \<Rightarrow> ('f, 'k, 's, 'u) io \<Rightarrow> bool" where
  "wake_ok P V w \<longleftrightarrow>
     (\<exists>c. po_chans P (loop_poller w) (wakeup_channel w) = Some c \<and> events c = kReadEvent \<and> has_read_cb c \<and>
        pv_registered V (loop_poller w) (wakeup_channel w) \<and> pv_watch V (loop_poller w) (ch_fd c) = kReadEvent)"

text \<open>\<open>I\<close> is what the client keeps true of its own data and the poller.\<close>

definition io_inv :: "'s poller_ops \<Rightarrow> 's poller_view \<Rightarrow> ('u \<Rightarrow> 's \<Rightarrow> bool) \<Rightarrow> ('f, 'k, 's, 'u) io \<Rightarrow> bool" where
  "io_inv P V I w \<longleftrightarrow> pv_inv V (loop_poller w) \<and> wake_ok P V w \<and> I (user w) (loop_poller w)"

definition reactor_inv ::
  "'s poller_ops \<Rightarrow> 's poller_view \<Rightarrow> ('u \<Rightarrow> 's \<Rightarrow> bool) \<Rightarrow> ('cb, 'f, 'k, 's, 'u) reactor \<Rightarrow> bool" where
  "reactor_inv P V I s \<longleftrightarrow> tm_inv s \<and> io_inv P V I (world s)"

text \<open>
  What code that runs in the loop cannot undo, as the members are private: it can queue
  functors but not take any back, ask to quit but not revoke it.
\<close>

definition io_kept :: "('f, 'k, 's, 'u) io \<Rightarrow> ('f, 'k, 's, 'u) io \<Rightarrow> bool" where
  "io_kept w w' \<longleftrightarrow> prefix (pending_functors (ev_loop w)) (pending_functors (ev_loop w')) \<and>
     (quit (ev_loop w) \<longrightarrow> quit (ev_loop w')) \<and> thread_id (ev_loop w') = thread_id (ev_loop w) \<and>
     calling_pending_functors (ev_loop w') = calling_pending_functors (ev_loop w) \<and>
     wakeup_channel w' = wakeup_channel w"

text \<open>
  The client's side: its code runs without a fault and keeps the invariant, and a handler
  deletes no channel (another one may be on the active list); functors and timer callbacks may.
\<close>

definition client_ok ::
  "'s poller_ops \<Rightarrow> 's poller_view \<Rightarrow> ('u \<Rightarrow> 's \<Rightarrow> bool) \<Rightarrow> ('cb, 'f, 'k, 's, 'u) client \<Rightarrow> bool" where
  "client_ok P V I U \<longleftrightarrow>
     (\<forall>u s s'. I u s \<longrightarrow> polled P V s s' \<longrightarrow> I u s') \<and>
     (\<forall>cb w. io_inv P V I w \<longrightarrow> io_inv P V I (run_timer U cb w) \<and> io_kept w (run_timer U cb w)) \<and>
     (\<forall>p h s. reactor_inv P V I s \<longrightarrow> p \<noteq> wakeup_channel (world s) \<longrightarrow>
        po_chans P (loop_poller (world s)) p \<noteq> None \<longrightarrow>
        (\<exists>s'. run_event U p h s = Inr s' \<and> reactor_inv P V I s' \<and> io_kept (world s) (world s') \<and>
           dom (po_chans P (loop_poller (world s))) \<subseteq> dom (po_chans P (loop_poller (world s'))))) \<and>
     (\<forall>f s. reactor_inv P V I s \<longrightarrow>
        (\<exists>s'. run_functor U f s = Inr s' \<and> reactor_inv P V I s' \<and> io_kept (world s) (world s')))"

lemma same_channel_cbs: "same_channel c d \<Longrightarrow> has_read_cb d = has_read_cb c"
  by (cases c; cases d) (simp add: same_channel_def)

lemma io_kept_refl [simp]: "io_kept w w"
  by (simp add: io_kept_def)

lemma io_kept_trans: "io_kept u v \<Longrightarrow> io_kept v w \<Longrightarrow> io_kept u w"
  by (auto simp: io_kept_def)

lemma client_okD:
  assumes "client_ok P V I U"
  shows "I u s \<Longrightarrow> polled P V s s' \<Longrightarrow> I u s'"
    and "io_inv P V I w \<Longrightarrow> io_inv P V I (run_timer U cb w)"
    and "io_inv P V I w \<Longrightarrow> io_kept w (run_timer U cb w)"
    and "reactor_inv P V I r \<Longrightarrow> p \<noteq> wakeup_channel (world r) \<Longrightarrow> po_chans P (loop_poller (world r)) p \<noteq> None \<Longrightarrow>
      \<exists>r'. run_event U p h r = Inr r' \<and> reactor_inv P V I r' \<and> io_kept (world r) (world r') \<and>
        dom (po_chans P (loop_poller (world r))) \<subseteq> dom (po_chans P (loop_poller (world r')))"
    and "reactor_inv P V I r \<Longrightarrow>
      \<exists>r'. run_functor U f r = Inr r' \<and> reactor_inv P V I r' \<and> io_kept (world r) (world r')"
  using assms unfolding client_ok_def by blast+

text \<open>Changes of the loop's own flags do not touch the invariant.\<close>

lemma reactor_inv_on_loop [simp]: "reactor_inv P V I (on_loop g s) = reactor_inv P V I s"
  by (simp add: reactor_inv_def io_inv_def wake_ok_def on_loop_def tm_inv_def)

lemma on_loop_simps [simp]:
  "ev_loop (world (on_loop g s)) = g (ev_loop (world s))"
  "loop_poller (world (on_loop g s)) = loop_poller (world s)"
  "wakeup_channel (world (on_loop g s)) = wakeup_channel (world s)"
  "user (world (on_loop g s)) = user (world s)"
  by (simp_all add: on_loop_def)

section \<open>A turn keeps the invariant\<close>

lemma timers_ok:
  assumes "client_ok P V I U" "reactor_inv P V I s" "unat (GetCurrentMillisecs ts) < 2 ^ 63"
  shows "\<exists>s'. CheckAndHandle (world_run (run_timer U)) ts s = Some (Inr s') \<and> reactor_inv P V I s' \<and>
    io_kept (world s) (world s')"
proof -
  have fold: "io_inv P V I (fold (\<lambda>p. run_timer U (f p)) ps w) \<and> io_kept w (fold (\<lambda>p. run_timer U (f p)) ps w)"
    if "io_inv P V I w" for f ps w
    using that
  proof (induction ps arbitrary: w)
    case (Cons p ps)
    from Cons.IH [OF client_okD(2) [OF assms(1) Cons.prems], of "f p"]
      client_okD(3) [OF assms(1) Cons.prems, of "f p"] show ?case
      using io_kept_trans by fastforce
  qed simp
  from check_loop_spec [of s "GetCurrentMillisecs ts" "run_timer U"] assms(2,3) obtain s' ps where
    "CheckAndHandle (world_run (run_timer U)) ts s = Some (Inr s')" "tm_inv s'"
    "world s' = fold (\<lambda>p. run_timer U (callback (the (mem s p)))) ps (world s)"
    unfolding reactor_inv_def CheckAndHandle_def by blast
  moreover have "io_inv P V I (world s)" using assms(2) by (simp add: reactor_inv_def)
  ultimately show ?thesis using fold [of "world s" "\<lambda>p. callback (the (mem s p))" ps]
    by (simp add: reactor_inv_def)
qed

lemma handlers_ok:
  assumes "client_ok P V I U" "reactor_inv P V I s" "po_chans P (loop_poller (world s)) p \<noteq> None"
  shows "\<exists>s'. call_handlers E U p hs s = Inr s' \<and> reactor_inv P V I s' \<and> io_kept (world s) (world s') \<and>
    dom (po_chans P (loop_poller (world s))) \<subseteq> dom (po_chans P (loop_poller (world s')))"
  using assms(2,3)
proof (induction hs arbitrary: s)
  case (Cons h hs)
  have "\<exists>s1. call_handler E U p h s = Inr s1 \<and> reactor_inv P V I s1 \<and> io_kept (world s) (world s1) \<and>
    dom (po_chans P (loop_poller (world s))) \<subseteq> dom (po_chans P (loop_poller (world s1)))"
  proof (cases "p = wakeup_channel (world s)")
    case True
    then show ?thesis using Cons.prems(1) by (simp add: call_handler_def io_kept_def)
  next
    case False
    then show ?thesis using client_okD(4) [OF assms(1) Cons.prems(1) False Cons.prems(2)] by (simp add: call_handler_def)
  qed
  then obtain s1 where s1: "call_handler E U p h s = Inr s1" "reactor_inv P V I s1" "io_kept (world s) (world s1)"
    "dom (po_chans P (loop_poller (world s))) \<subseteq> dom (po_chans P (loop_poller (world s1)))" by blast
  then have "po_chans P (loop_poller (world s1)) p \<noteq> None" using Cons.prems(2) by blast
  from Cons.IH [OF s1(2) this] s1 show ?case using io_kept_trans by fastforce
qed simp

lemma active_ok:
  assumes "client_ok P V I U" "reactor_inv P V I s" "set ps \<subseteq> dom (po_chans P (loop_poller (world s)))"
  shows "\<exists>s'. handle_active P E U ps s = Inr s' \<and> reactor_inv P V I s' \<and> io_kept (world s) (world s')"
  using assms(2,3)
proof (induction ps arbitrary: s)
  case (Cons p ps)
  then obtain c where c: "po_chans P (loop_poller (world s)) p = Some c" by auto
  from handlers_ok [OF assms(1) Cons.prems(1), of p E "HandleEvent (owned U (user (world s))) c"] c obtain s1 where
    s1: "call_handlers E U p (HandleEvent (owned U (user (world s))) c) s = Inr s1" "reactor_inv P V I s1"
      "io_kept (world s) (world s1)" "dom (po_chans P (loop_poller (world s))) \<subseteq> dom (po_chans P (loop_poller (world s1)))"
    by blast
  have "set ps \<subseteq> dom (po_chans P (loop_poller (world s1)))"
    using Cons.prems(2) s1(4) by (metis insert_subset list.simps(15) order_trans)
  from Cons.IH [OF s1(2) this] c s1(1,3) show ?case using io_kept_trans by fastforce
qed simp

lemma functors_ok:
  assumes "client_ok P V I U" "reactor_inv P V I s"
  shows "\<exists>s'. run_functors U fs s = Inr s' \<and> reactor_inv P V I s' \<and> io_kept (world s) (world s')"
  using assms(2)
proof (induction fs arbitrary: s)
  case (Cons f fs)
  from client_okD(5) [OF assms(1) Cons.prems, of f] obtain s1 where
    s1: "run_functor U f s = Inr s1" "reactor_inv P V I s1" "io_kept (world s) (world s1)" by blast
  from Cons.IH [OF s1(2)] s1 show ?case using io_kept_trans by fastforce
qed simp

lemma poll_timeout_ok:
  assumes "tm_inv s"
  shows "\<exists>t. poll_timeout n1 n2 s = Inr t"
proof -
  have "\<exists>t. GetRecentTimeout n s = Inr t" for n
  proof (cases "timers_que s")
    case (Cons p ps)
    then have "mem s p \<noteq> None" using assms by (auto simp: tm_inv_def)
    then show ?thesis using Cons by (auto simp: GetRecentTimeout_def Let_def)
  qed (simp add: GetRecentTimeout_def)
  then obtain t1 t2 where "GetRecentTimeout n1 s = Inr t1" "GetRecentTimeout n2 s = Inr t2" by metis
  then show ?thesis by (simp add: poll_timeout_def)
qed

section \<open>Polling as the loop uses it\<close>

text \<open>
  A poller whose \<open>Polling\<close>, called with the cleared active list, succeeds and lists live channels.
  \<open>works\<close> is what the implementation needs of its system call.
\<close>

locale loop_polling = conn_loop P V for P :: "'s poller_ops" and V :: "'s poller_view" +
  fixes pol :: "cint \<Rightarrow> 's \<Rightarrow> ptr list \<Rightarrow> ('s \<times> ptr list) res" and works :: bool
  assumes polling_law: "works \<Longrightarrow> pv_inv V s \<Longrightarrow>
    \<exists>s' act. pol t s [] = Inr (s', act) \<and> pv_inv V s' \<and> polled P V s s' \<and> set act \<subseteq> dom (po_chans P s')"
begin

lemma wake_polled:
  assumes "wake_ok P V w" "polled P V (loop_poller w) s'"
  shows "wake_ok P V (w\<lparr>loop_poller := s', active_channels := act, poll_return_time := r\<rparr>)"
proof -
  obtain c where c: "po_chans P (loop_poller w) (wakeup_channel w) = Some c" "events c = kReadEvent" "has_read_cb c"
    "pv_registered V (loop_poller w) (wakeup_channel w)" "pv_watch V (loop_poller w) (ch_fd c) = kReadEvent"
    using assms(1) unfolding wake_ok_def by blast
  have "same_channels (po_chans P (loop_poller w)) (po_chans P s')" using assms(2) by (simp add: polled_def)
  from same_channelsD [where p = "wakeup_channel w", OF this c(1)] obtain d where
    d: "po_chans P s' (wakeup_channel w) = Some d" "same_channel c d" by blast
  have "ch_fd d = ch_fd c" "events d = events c" "has_read_cb d = has_read_cb c"
    using same_channelD [OF d(2)] same_channel_cbs [OF d(2)] by auto
  then show ?thesis using c d(1) assms(2) by (simp add: wake_ok_def polled_def)
qed

lemma io_event_ok:
  assumes "works" "client_ok P V I U" "reactor_inv P V I s" "polling X = pol"
  shows "\<exists>s'. PollAndHandleIoEvent P E U X s = Inr s' \<and> reactor_inv P V I s' \<and> io_kept (world s) (world s')"
proof -
  obtain t where t: "poll_timeout (clock_test X) (clock_timeout X) s = Inr t"
    using poll_timeout_ok assms(3) unfolding reactor_inv_def by blast
  have inv: "tm_inv s" "pv_inv V (loop_poller (world s))" "wake_ok P V (world s)"
    "I (user (world s)) (loop_poller (world s))"
    using assms(3) by (simp_all add: reactor_inv_def io_inv_def)
  obtain s1 act where s1: "pol t (loop_poller (world s)) [] = Inr (s1, act)" "pv_inv V s1"
    "polled P V (loop_poller (world s)) s1" "set act \<subseteq> dom (po_chans P s1)"
    using polling_law [OF assms(1) inv(2)] by blast
  let ?r = "s\<lparr>world := (world s)\<lparr>loop_poller := s1, active_channels := act, poll_return_time := clock_return X\<rparr>\<rparr>"
  have "reactor_inv P V I ?r"
    using inv(1) s1(2) wake_polled [OF inv(3) s1(3)] client_okD(1) [OF assms(2) inv(4) s1(3)]
    by (simp add: reactor_inv_def io_inv_def tm_inv_def)
  from active_ok [OF assms(2) this, of act E] s1(4) obtain s' where
    "handle_active P E U act ?r = Inr s'" "reactor_inv P V I s'" "io_kept (world ?r) (world s')" by auto
  then show ?thesis using t s1(1) assms(4) by (simp add: PollAndHandleIoEvent_def Let_def io_kept_def)
qed

text \<open>
  One turn: no fault, the invariant again, and the functors it ran are those pending at its
  start followed by what the timer callbacks and handlers queued.
\<close>

lemma turn_ok:
  assumes "works" "client_ok P V I U" "reactor_inv P V I s" "polling X = pol"
    "unat (GetCurrentMillisecs (clock_check X)) < 2 ^ 63"
  shows "\<exists>s1 s2 s' later. loop_turn P E U X s = Some (Inr s') \<and> reactor_inv P V I s' \<and>
    (quit (ev_loop (world s)) \<longrightarrow> quit (ev_loop (world s'))) \<and>
    reactor_inv P V I s1 \<and> pending_functors (ev_loop (world s1)) = [] \<and>
    run_functors U (pending_functors (ev_loop (world s)) @ later) s1 = Inr s2 \<and> s' = on_loop end_pending s2"
proof -
  from timers_ok [OF assms(2,3,5)] obtain t1 where t1:
    "CheckAndHandle (world_run (run_timer U)) (clock_check X) s = Some (Inr t1)" "reactor_inv P V I t1"
    "io_kept (world s) (world t1)" by blast
  from io_event_ok [OF assms(1,2) t1(2) assms(4), of E] obtain t2 where t2:
    "PollAndHandleIoEvent P E U X t1 = Inr t2" "reactor_inv P V I t2" "io_kept (world t1) (world t2)" by blast
  define fs where "fs = pending_functors (ev_loop (world t2))"
  define s1 where "s1 = on_loop (\<lambda>_. snd (swap_pending (ev_loop (world t2)))) t2"
  have s1: "reactor_inv P V I s1" "pending_functors (ev_loop (world s1)) = []"
    "quit (ev_loop (world s1)) = quit (ev_loop (world t2))"
    using t2(2) by (simp_all add: s1_def swap_pending_def)
  from functors_ok [OF assms(2) s1(1), of fs] obtain s2 where
    s2: "run_functors U fs s1 = Inr s2" "reactor_inv P V I s2" "io_kept (world s1) (world s2)" by blast
  have k: "io_kept (world s) (world t2)" using io_kept_trans t1(3) t2(3) by blast
  then obtain later where "fs = pending_functors (ev_loop (world s)) @ later"
    by (auto simp: io_kept_def fs_def elim: prefixE)
  moreover have "loop_turn P E U X s = Some (Inr (on_loop end_pending s2))"
    using t1(1) t2(1) s2(1) by (simp add: loop_turn_def loop_functors_def swap_pending_def s1_def fs_def)
  moreover have "quit (ev_loop (world s)) \<longrightarrow> quit (ev_loop (world (on_loop end_pending s2)))"
    using k s2(3) s1(3) by (simp add: io_kept_def end_pending_def)
  moreover have "run_functors U (pending_functors (ev_loop (world s)) @ later) s1 = Inr s2"
    using s2(1) calculation(1) by simp
  ultimately show ?thesis using s1(1,2) s2(2)
    by (intro exI [of _ s1] exI [of _ s2] exI [of _ "on_loop end_pending s2"] exI [of _ later]) simp
qed

text \<open>
  A functor that asks to quit, pending when \<open>Loop\<close> is entered: \<open>Loop\<close> returns after one turn.
\<close>

lemma functors_quit:
  assumes "client_ok P V I U" "reactor_inv P V I s" "f \<in> set fs" "run_functors U fs s = Inr s'"
    "\<And>r r'. reactor_inv P V I r \<Longrightarrow> run_functor U f r = Inr r' \<Longrightarrow> quit (ev_loop (world r'))"
  shows "quit (ev_loop (world s'))"
  using assms(2-4)
proof (induction fs arbitrary: s)
  case (Cons g fs)
  from client_okD(5) [OF assms(1) Cons.prems(1), of g] obtain s1 where
    s1: "run_functor U g s = Inr s1" "reactor_inv P V I s1" "io_kept (world s) (world s1)" by blast
  with Cons.prems(3) have r: "run_functors U fs s1 = Inr s'" by simp
  show ?case
  proof (cases "f = g")
    case True
    then have "quit (ev_loop (world s1))" using assms(5) [OF Cons.prems(1)] s1(1) by simp
    then show ?thesis using functors_ok [OF assms(1) s1(2), of fs] r by (auto simp: io_kept_def)
  next
    case False
    then show ?thesis using Cons.IH [OF s1(2)] Cons.prems(2) r by simp
  qed
qed simp

lemma Loop_quits:
  assumes "works" "client_ok P V I U" "reactor_inv P V I s" "polling (os 0) = pol"
    "unat (GetCurrentMillisecs (clock_check (os 0))) < 2 ^ 63"
    "f \<in> set (pending_functors (ev_loop (world s)))"
    "\<And>r r'. reactor_inv P V I r \<Longrightarrow> run_functor U f r = Inr r' \<Longrightarrow> quit (ev_loop (world r'))"
  shows "\<exists>s1 s2 later. Loop P E U os s = Some (Inr (on_loop (leave_loop \<circ> end_pending) s2)) \<and>
    reactor_inv P V I s2 \<and> pending_functors (ev_loop (world s1)) = [] \<and>
    run_functors U (pending_functors (ev_loop (world s)) @ later) s1 = Inr s2"
proof -
  let ?s = "on_loop enter_loop s"
  have "reactor_inv P V I ?s" using assms(3) by simp
  from turn_ok [OF assms(1,2) this assms(4,5), of E] obtain s1 s2 s' later where
    t: "loop_turn P E U (os 0) ?s = Some (Inr s')" "reactor_inv P V I s'" "reactor_inv P V I s1"
      "pending_functors (ev_loop (world s1)) = []"
      "run_functors U (pending_functors (ev_loop (world s)) @ later) s1 = Inr s2" "s' = on_loop end_pending s2"
    by (auto simp: enter_loop_def)
  have "quit (ev_loop (world s2))"
    by (rule functors_quit [OF assms(2) t(3) _ t(5)]) (use assms(6,7) in auto)
  then have q: "quit (ev_loop (world s'))" using t(6) by (simp add: end_pending_def)
  have "loop_while P E U os 1 s' = Some (Inr s')" using q by (subst loop_while.simps) simp
  then have "loop_while P E U os 0 ?s = Some (Inr s')"
    using t(1) by (subst loop_while.simps) (simp add: enter_loop_def)
  then have "Loop P E U os s = Some (Inr (on_loop leave_loop s'))" by (simp add: Loop_def)
  moreover have "on_loop leave_loop s' = on_loop (leave_loop \<circ> end_pending) s2" by (simp add: t(6) on_loop_def)
  moreover have "reactor_inv P V I s2" using t(2,6) by simp
  ultimately show ?thesis using t(4,5) by auto
qed

end

section \<open>Construction and destruction keep the contracts\<close>

context conn_loop
begin

lemma EventLoop_ctor_ok:
  assumes "pv_inv V s" "po_chans P s p = None" "pv_fd_free V s fd"
  shows "\<exists>r :: ('cb, 'f, 'k, 's, 'u) reactor. EventLoop_ctor P (Inr (fd, k)) tid this p u s None = Inr (r, Some this) \<and>
    tm_inv r \<and> pv_inv V (loop_poller (world r)) \<and> wake_ok P V (world r) \<and>
    pv_watch V (loop_poller (world r)) = (pv_watch V s)(fd := kReadEvent) \<and>
    user (world r) = u \<and> thread_id (ev_loop (world r)) = tid \<and>
    pending_functors (ev_loop (world r)) = [] \<and> \<not> quit (ev_loop (world r)) \<and> wake_fd (ev_loop (world r)) = k"
proof -
  define c where "c = (Channel_ctor fd)\<lparr>has_read_cb := True\<rparr>"
  have c: "index c = - 1" "ch_fd c = fd" "events c = 0" "has_read_cb c" by (simp_all add: c_def Channel_ctor_def)
  note n = new_chan_law [OF assms(1,2) c(1)]
  define s0 where "s0 = po_set P p c s"
  have s0: "pv_inv V s0" "po_chans P s0 p = Some c" "pv_fd_free V s0 fd" "pv_watch V s0 = pv_watch V s"
    using n assms(3) by (simp_all add: s0_def)
  define d where "d = enable_read c"
  have d: "d = c\<lparr>events := kReadEvent\<rparr>" using c(3) by (simp add: d_def enable_read_def)
  have ev: "events_ok d" by (simp add: d events_ok_def event_flags)
  note sc = set_chan_law [OF s0(1,2), of d]
  have "pv_inv V (po_set P p d s0)" "po_chans P (po_set P p d s0) p = Some d"
    "index d = - 1 \<and> pv_fd_free V (po_set P p d s0) (ch_fd d)" "pv_watch V (po_set P p d s0) = pv_watch V s"
    using sc s0 c d by simp_all
  from update_law [OF this(1,2) ev] this obtain s1 where
    s1: "po_update P p (po_set P p d s0) = Inr s1" "pv_inv V s1" "pv_registered V s1 p"
      "pv_watch V s1 = (pv_watch V s)(fd := kReadEvent)" "same_channels (po_chans P (po_set P p d s0)) (po_chans P s1)"
    using c(2) d by auto
  obtain e where e: "po_chans P s1 p = Some e" "same_channel d e"
    using same_channelsD [OF s1(5)] \<open>po_chans P (po_set P p d s0) p = Some d\<close> by blast
  have "ch_fd e = fd" "events e = kReadEvent" "has_read_cb e"
    using same_channelD [OF e(2)] same_channel_cbs [OF e(2)] c(2,4) d by auto
  have "channel_set P enable_read p s0 = Inr s1" using s0(2) s1(1) by (simp add: channel_set_def d_def)
  then show ?thesis
    using s1(2,3,4) e(1) \<open>ch_fd e = fd\<close> \<open>events e = kReadEvent\<close> \<open>has_read_cb e\<close>
    by (simp add: EventLoop_ctor_def CreateEventfd_def s0_def c_def wake_ok_def empty_manager_def tm_inv_def is_heap_def)
qed

lemma EventLoop_dtor_ok:
  assumes "pv_inv V (loop_poller (world r))" "wake_ok P V (world r)"
    "po_chans P (loop_poller (world r)) (wakeup_channel (world r)) = Some c"
  shows "\<exists>s'. EventLoop_dtor P r = Inr (s', ch_fd c, None) \<and> pv_inv V s' \<and>
    \<not> pv_registered V s' (wakeup_channel (world r)) \<and> pv_watch V s' = (pv_watch V (loop_poller (world r)))(ch_fd c := 0)"
proof -
  let ?p = "wakeup_channel (world r)" and ?s = "loop_poller (world r)"
  have reg: "pv_registered V ?s ?p" using assms(2) by (auto simp: wake_ok_def)
  have d: "disable_all c = c\<lparr>events := 0\<rparr>" by (simp add: disable_all_def kNoneEvent_def)
  have "events_ok (disable_all c)" by (simp add: d events_ok_def)
  from set_events_then_update [OF assms(1,3) _ d this] reg d obtain s1 c1 where
    s1: "po_update P ?p (po_set P ?p (disable_all c) ?s) = Inr s1" "pv_inv V s1" "pv_registered V s1 ?p"
      "po_chans P s1 ?p = Some c1" "ch_fd c1 = ch_fd c" "pv_watch V s1 = (pv_watch V ?s)(ch_fd c := 0)"
    by auto
  from remove_law [OF s1(2,4,3)] obtain s2 where
    s2: "po_remove P ?p s1 = Inr s2" "pv_inv V s2" "\<not> pv_registered V s2 ?p"
      "pv_watch V s2 = (pv_watch V s1)(ch_fd c1 := 0)" "same_channels (po_chans P s1) (po_chans P s2)" by blast
  obtain c2 where c2: "po_chans P s2 ?p = Some c2" "ch_fd c2 = ch_fd c"
    using same_channelsD [OF s2(5) s1(4)] same_channelD s1(5) by metis
  have "EventLoop_dtor P r = Inr (s2, ch_fd c, None)"
    using s1(1) s2(1) c2 assms(3) by (simp add: EventLoop_dtor_def channel_set_def Let_def)
  then show ?thesis using s2(2,3,4) s1(5,6) by auto
qed

end

section \<open>Both pollers\<close>

lemma ep_Fill_maps:
  "ep_FillActiveChannels evs s active = Inr (s', active') \<Longrightarrow> channel_maps s' = channel_maps s"
  by (induction evs s active rule: ep_FillActiveChannels.induct) (auto split: option.splits)

lemma ep_Polling_maps: "ep_Polling K t s active = Inr (s', active') \<Longrightarrow> channel_maps s' = channel_maps s"
  by (auto simp: ep_Polling_def res_bind_eq_Inr dest!: ep_Fill_maps split: sum.splits if_splits)

lemma ep_registered_maps: "ep_inv K s \<Longrightarrow> ep_registered s p \<longleftrightarrow> (\<exists>fd. channel_maps s fd = Some p)"
  using ep_invD(2,4) [of K s] by (fastforce simp: ep_registered_def)

interpretation epoll_loop: loop_polling "epoll_ops K" "epoll_view K" "ep_Polling K" "epoll_wait_contract K"
  for K :: "'k epoll_kernel"
proof unfold_locales
  fix s t
  assume a: "epoll_wait_contract K" "pv_inv (epoll_view K) s"
  then have inv: "ep_inv K s" by simp
  have "\<exists>s' act. ep_Polling K t s [] = Inr (s', act) \<and> ep_inv K s' \<and> same_channels (ep_chans s) (ep_chans s') \<and>
      ep_watch K s' = ep_watch K s \<and> set act \<subseteq> dom (ep_chans s')"
  proof (cases "epoll_wait K (events_len s) t (kern s)")
    case (Inl e)
    then show ?thesis using inv by (simp add: ep_Polling_def)
  next
    case (Inr evs)
    with ep_Polling_ok [OF inv a(1), of t "[]"] obtain s' where s': "ep_Polling K t s [] = Inr (s', map snd evs)"
      "ep_inv K s'" "same_channels (ep_chans s) (ep_chans s')" "ep_watch K s' = ep_watch K s" by auto
    have "\<forall>(ev, p) \<in> set evs. \<exists>fd m. interest K (kern s) fd = Some (m, p)"
      using a(1) Inr unfolding epoll_wait_contract_def by blast
    then have "set (map snd evs) \<subseteq> dom (ep_chans s)" using interest_alive [OF inv] by fastforce
    then show ?thesis using s' by (auto simp: same_channels_def)
  qed
  then obtain s' act where s': "ep_Polling K t s [] = Inr (s', act)" "ep_inv K s'"
    "same_channels (ep_chans s) (ep_chans s')" "ep_watch K s' = ep_watch K s" "set act \<subseteq> dom (ep_chans s')" by blast
  have "ep_registered s' = ep_registered s"
    using ep_registered_maps [OF inv] ep_registered_maps [OF s'(2)] ep_Polling_maps [OF s'(1)] by (simp add: fun_eq_iff)
  with s' show "\<exists>s' act. ep_Polling K t s [] = Inr (s', act) \<and> pv_inv (epoll_view K) s' \<and>
      polled (epoll_ops K) (epoll_view K) s s' \<and> set act \<subseteq> dom (po_chans (epoll_ops K) s')"
    by (simp add: polled_def)
qed

lemma pp_Fill_frame:
  "pp_FillActiveChannels n es s active = Inr (s', active') \<Longrightarrow>
   poll_list s' = poll_list s \<and> pp_maps s' = pp_maps s \<and> same_channels (pp_chans s) (pp_chans s') \<and>
   (\<forall>p. map_option index (pp_chans s' p) = map_option index (pp_chans s p))"
proof (induction n es s active arbitrary: rule: pp_FillActiveChannels.induct)
  case (2 n e es s active)
  show ?case
  proof (cases "n \<le> 0 \<or> \<not> 0 < sint (prevents e) \<or> pp_maps s (pfd e) = None")
    case True
    then show ?thesis using 2 by (auto split: if_splits)
  next
    case False
    then obtain p where p: "pp_maps s (pfd e) = Some p" by auto
    obtain c where c: "pp_chans s p = Some c" using False p "2.prems" by (cases "pp_chans s p") auto
    let ?c = "Set_Revents (scast (prevents e)) c"
    have "same_channels (pp_chans s) ((pp_chans s)(p \<mapsto> ?c))"
      by (rule same_channels_upd [where p = p and c = c]) (simp_all add: c same_channel_def Set_Revents_def)
    moreover have "index ?c = index c" by (simp add: Set_Revents_def)
    ultimately show ?thesis using "2.IH"(2) [OF _ _ p c] "2.prems" False p c same_channels_trans by fastforce
  qed
qed simp

lemma pp_owns_cong:
  assumes "map pfd (poll_list s') = map pfd (poll_list s)" "pp_maps s' = pp_maps s"
    "same_channels (pp_chans s) (pp_chans s')" "\<forall>p. map_option index (pp_chans s' p) = map_option index (pp_chans s p)"
    "i < length (poll_list s)"
  shows "pp_owns s' i p = pp_owns s i p"
proof -
  have "length (poll_list s') = length (poll_list s)" using assms(1) by (metis length_map)
  then have "pfd (poll_list s' ! i) = pfd (poll_list s ! i)" using assms(1,5) by (metis nth_map)
  moreover have "(\<exists>d. pp_chans s' p = Some d \<and> ch_fd d = f \<and> index d = j) \<longleftrightarrow>
      (\<exists>c. pp_chans s p = Some c \<and> ch_fd c = f \<and> index c = j)" for f j
  proof (cases "pp_chans s p")
    case None
    then show ?thesis using assms(3) by (auto simp: same_channels_def)
  next
    case (Some c)
    then obtain d where "pp_chans s' p = Some d" "same_channel c d" using same_channelsD [OF assms(3)] by blast
    then show ?thesis using Some assms(4) [rule_format, of p] same_channelD [of c d] by auto
  qed
  ultimately show ?thesis using assms(2) by (simp add: pp_owns_def)
qed

interpretation poll_loop: loop_polling poll_ops poll_view "pp_Polling poll"
  "poll_contract poll \<and> (\<forall>l t. \<exists>r. poll l t = Inr r)" for poll
proof unfold_locales
  fix s t
  assume a: "poll_contract poll \<and> (\<forall>l t. \<exists>r. poll l t = Inr r)" "pv_inv poll_view s"
  then have inv: "pp_inv s" by (simp add: poll_view_def)
  obtain n rs where nr: "poll (poll_list s) t = Inr (n, rs)" using a(1) by (metis surj_pair)
  with a(1) have len: "length rs = length (poll_list s)" by (auto simp: poll_contract_def)
  let ?act = "map (\<lambda>(e, r). the (pp_maps s (pfd e))) (filter (\<lambda>(e, r). r \<noteq> 0) (zip (poll_list s) rs))"
  from pp_Polling_spec [OF inv, of poll t] a(1) nr obtain s' where s': "pp_Polling poll t s [] = Inr (s', ?act)"
    "pp_inv s'" "pp_watch s' = pp_watch s" by auto
  let ?s1 = "s\<lparr>poll_list := map2 (\<lambda>e r. e\<lparr>prevents := r\<rparr>) (poll_list s) rs\<rparr>"
  have fds: "map pfd (poll_list ?s1) = map pfd (poll_list s)"
    using len by (auto simp: list_eq_iff_nth_eq)
  have f: "poll_list s' = poll_list ?s1" "pp_maps s' = pp_maps s" "same_channels (pp_chans s) (pp_chans s')"
    "\<forall>p. map_option index (pp_chans s' p) = map_option index (pp_chans s p)"
    using s'(1) nr pp_Fill_frame [of n "poll_list ?s1" ?s1 "[]" s' ?act]
    by (auto simp: pp_Polling_def Let_def split: if_splits)
  have "length (poll_list s') = length (poll_list s)" using f(1) len by simp
  moreover have "pp_owns s' i p = pp_owns s i p" if "i < length (poll_list s)" for i p
    using pp_owns_cong [OF _ f(2,3,4) that] f(1) fds by simp
  ultimately have "pp_registered s' = pp_registered s" by (auto simp: pp_registered_def fun_eq_iff)
  moreover have "set ?act \<subseteq> dom (pp_chans s')"
  proof -
    have "the (pp_maps s (pfd e)) \<in> dom (pp_chans s)" if "e \<in> set (poll_list s)" for e
      using that inv unfolding pp_inv_def pp_owns_def by (fastforce simp: in_set_conv_nth)
    then have "set ?act \<subseteq> dom (pp_chans s)" by (auto dest!: set_zip_leftD)
    then show ?thesis using f(3) by (simp add: same_channels_def)
  qed
  ultimately show "\<exists>s' act. pp_Polling poll t s [] = Inr (s', act) \<and> pv_inv poll_view s' \<and>
      polled poll_ops poll_view s s' \<and> set act \<subseteq> dom (po_chans poll_ops s')"
    using s' f(3) by (simp add: polled_def poll_view_def poll_ops_def)
qed

section \<open>Turns in a row\<close>

fun loop_turns ::
  "'s poller_ops \<Rightarrow> 'k eventfd \<Rightarrow> ('cb, 'f, 'k, 's, 'u) client \<Rightarrow> (nat \<Rightarrow> 's outcome) \<Rightarrow> nat \<Rightarrow> nat \<Rightarrow>
   ('cb, 'f, 'k, 's, 'u) reactor \<Rightarrow> ('cb, 'f, 'k, 's, 'u) reactor res option" where
  "loop_turns P E U os n 0 s = Some (Inr s)"
| "loop_turns P E U os n (Suc m) s =
     (case loop_turn P E U (os n) s of Some (Inr s1) \<Rightarrow> loop_turns P E U os (Suc n) m s1 | r \<Rightarrow> r)"

lemma while_turns:
  assumes "loop_turns P E U os n m s = Some (Inr s')" "quit (ev_loop (world s'))"
  shows "\<exists>r. loop_while P E U os n s = Some r"
  using assms
proof (induction m arbitrary: n s)
  case 0
  then show ?case by (subst loop_while.simps) simp
next
  case (Suc m)
  then obtain s1 where "loop_turn P E U (os n) s = Some (Inr s1)" "loop_turns P E U os (Suc n) m s1 = Some (Inr s')"
    by (auto split: option.splits sum.splits)
  with Suc.IH [OF this(2) Suc.prems(2)] show ?case by (subst loop_while.simps) auto
qed

lemma while_result:
  fixes U :: "('cb, 'f, 'k, 's, 'u) client"
  assumes "loop_while P E U os n s = Some r"
  shows "\<exists>m. loop_turns P E U os n m s = Some r \<and> (\<forall>s'. r = Inr s' \<longrightarrow> quit (ev_loop (world s')))"
proof -
  define Q where "Q = (\<lambda>(((((P :: 's poller_ops, E :: 'k eventfd), U :: ('cb, 'f, 'k, 's, 'u) client), os), n), s) r.
    \<exists>m. loop_turns P E U os n m s = Some r \<and> (\<forall>s'. r = Inr s' \<longrightarrow> quit (ev_loop (world s'))))"
  have "Q (((((P, E), U), os), n), s) r"
  proof (rule loop_while.raw_induct [where Pa = Q, OF _ assms])
    fix lw and P :: "'s poller_ops" and E :: "'k eventfd" and U :: "('cb, 'f, 'k, 's, 'u) client" and os n s r
    assume IH: "\<And>P E U os n s r. lw P E U os n s = Some r \<Longrightarrow> Q (((((P, E), U), os), n), s) r"
      and r: "(if quit (ev_loop (world s)) then Some (Inr s)
        else case loop_turn P E U (os n) s of None \<Rightarrow> None | Some (Inl f) \<Rightarrow> Some (Inl f)
             | Some (Inr s1) \<Rightarrow> lw P E U os (Suc n) s1) = Some r"
    have "\<exists>m. loop_turns P E U os n m s = Some r \<and> (\<forall>s'. r = Inr s' \<longrightarrow> quit (ev_loop (world s')))"
    proof (cases "quit (ev_loop (world s))")
      case True
      then have "loop_turns P E U os n 0 s = Some r" using r by simp
      then show ?thesis using True by fastforce
    next
      case False
      then obtain t where t: "loop_turn P E U (os n) s = Some t" using r by (cases "loop_turn P E U (os n) s") auto
      show ?thesis
      proof (cases t)
        case (Inl f)
        then have "loop_turns P E U os n 1 s = Some r" "r = Inl f" using r t False by (auto split: sum.splits)
        then show ?thesis by fastforce
      next
        case (Inr s1)
        then have "lw P E U os (Suc n) s1 = Some r" using r t False by simp
        from IH [OF this] obtain m where m: "loop_turns P E U os (Suc n) m s1 = Some r"
          "\<forall>s'. r = Inr s' \<longrightarrow> quit (ev_loop (world s'))" by (auto simp: Q_def)
        then have "loop_turns P E U os n (Suc m) s = Some r" using t Inr by simp
        then show ?thesis using m(2) by blast
      qed
    qed
    then show "Q (((((P, E), U), os), n), s) r" by (simp add: Q_def)
  qed
  then show ?thesis by (simp add: Q_def)
qed

context loop_polling
begin

lemma turns_ok:
  assumes "works" "client_ok P V I U" "\<forall>n. polling (os n) = pol \<and> unat (GetCurrentMillisecs (clock_check (os n))) < 2 ^ 63"
    "reactor_inv P V I s"
  shows "\<exists>s'. loop_turns P E U os n m s = Some (Inr s') \<and> reactor_inv P V I s' \<and>
    (quit (ev_loop (world s)) \<longrightarrow> quit (ev_loop (world s')))"
  using assms(4)
proof (induction m arbitrary: n s)
  case (Suc m)
  from turn_ok [OF assms(1,2) Suc.prems, of "os n" E] assms(3) obtain s1 where
    s1: "loop_turn P E U (os n) s = Some (Inr s1)" "reactor_inv P V I s1"
      "quit (ev_loop (world s)) \<longrightarrow> quit (ev_loop (world s1))" by blast
  from Suc.IH [OF s1(2), of "Suc n"] s1 show ?case by auto
qed simp

lemma returns_iff:
  assumes "works" "client_ok P V I U" "\<forall>n. polling (os n) = pol \<and> unat (GetCurrentMillisecs (clock_check (os n))) < 2 ^ 63"
    "reactor_inv P V I s"
  shows "\<exists>s'. loop_turns P E U os 0 n (on_loop enter_loop s) = Some (Inr s') \<and> reactor_inv P V I s'"
    and "(\<exists>r. Loop P E U os s = Some r) \<longleftrightarrow>
      (\<exists>n s'. loop_turns P E U os 0 n (on_loop enter_loop s) = Some (Inr s') \<and> quit (ev_loop (world s')))"
    and "Loop P E U os s = Some r \<Longrightarrow> \<exists>s'. r = Inr s' \<and> reactor_inv P V I s' \<and> \<not> looping (ev_loop (world s'))"
proof -
  let ?s = "on_loop enter_loop s"
  have i: "reactor_inv P V I ?s" using assms(4) by simp
  note ok = turns_ok [OF assms(1-3) i]
  show "\<exists>s'. loop_turns P E U os 0 n ?s = Some (Inr s') \<and> reactor_inv P V I s'"
    using ok by blast
  have w: "(\<exists>r. Loop P E U os s = Some r) \<longleftrightarrow> (\<exists>r. loop_while P E U os 0 ?s = Some r)"
    by (auto simp: Loop_def)
  show "(\<exists>r. Loop P E U os s = Some r) \<longleftrightarrow>
      (\<exists>n s'. loop_turns P E U os 0 n ?s = Some (Inr s') \<and> quit (ev_loop (world s')))"
  proof
    assume "\<exists>r. Loop P E U os s = Some r"
    with w obtain r where "loop_while P E U os 0 ?s = Some r" by blast
    from while_result [OF this] obtain m where m: "loop_turns P E U os 0 m ?s = Some r"
      "\<forall>s'. r = Inr s' \<longrightarrow> quit (ev_loop (world s'))" by blast
    from ok [of E 0 m] m show "\<exists>n s'. loop_turns P E U os 0 n ?s = Some (Inr s') \<and> quit (ev_loop (world s'))" by auto
  next
    assume "\<exists>n s'. loop_turns P E U os 0 n ?s = Some (Inr s') \<and> quit (ev_loop (world s'))"
    then show "\<exists>r. Loop P E U os s = Some r" using w while_turns by blast
  qed
  show "\<exists>s'. r = Inr s' \<and> reactor_inv P V I s' \<and> \<not> looping (ev_loop (world s'))" if "Loop P E U os s = Some r"
  proof -
    from that obtain q where q: "loop_while P E U os 0 ?s = Some q" "r = res_bind q (\<lambda>s1. Inr (on_loop leave_loop s1))"
      by (auto simp: Loop_def)
    from while_result [OF q(1)] obtain m where "loop_turns P E U os 0 m ?s = Some q" by blast
    with ok [of E 0 m] obtain s' where "q = Inr s'" "reactor_inv P V I s'" by auto
    then show ?thesis using q(2) by (simp add: leave_loop_def)
  qed
qed

end

section \<open>Properties of the loop\<close>

text \<open>
  A small client for the witnesses: callbacks, handlers and functors write to a log; functor 0
  asks the loop to quit.
\<close>

definition log_client :: "(nat, nat, 'k, 's, nat list) client" where
  "log_client =
     \<lparr>run_timer = \<lambda>cb w. w\<lparr>user := user w @ [cb]\<rparr>,
      run_event = \<lambda>p h s. Inr (s\<lparr>world := (world s)\<lparr>user := user (world s) @ [p]\<rparr>\<rparr>),
      run_functor = \<lambda>f s. Inr (if f = 0 then on_loop set_quit s
        else s\<lparr>world := (world s)\<lparr>user := user (world s) @ [f]\<rparr>\<rparr>),
      owned = \<lambda>_ _. True\<rparr>"

lemma log_client_ok:
  fixes P :: "'s poller_ops"
  shows "client_ok P V (\<lambda>_ _. True) log_client"
proof -
  have inv: "reactor_inv P V (\<lambda>_ _. True) (s\<lparr>world := (world s)\<lparr>user := u\<rparr>\<rparr>)"
    if "reactor_inv P V (\<lambda>_ _. True) s" for s :: "('cb, 'f, 'k, 's, 'u) reactor" and u
    using that by (simp add: reactor_inv_def io_inv_def wake_ok_def tm_inv_def)
  show ?thesis
    unfolding client_ok_def
  proof (intro conjI allI impI)
    fix cb and w :: "(nat, 'k, 's, nat list) io"
    assume "io_inv P V (\<lambda>_ _. True) w"
    then show "io_inv P V (\<lambda>_ _. True) (run_timer log_client cb w)"
      by (simp add: log_client_def io_inv_def wake_ok_def)
  qed (auto simp: log_client_def io_kept_def set_quit_def inv)
qed

text \<open>A loop on the epoll poller with functors 5 and 0 queued; its eventfd is descriptor 3.\<close>

definition fresh_loop :: "(nat, nat, nat, (cint \<rightharpoonup> cint \<times> ptr) epoller, nat list) reactor" where
  "fresh_loop = (case EventLoop_ctor (epoll_ops map_kernel) (Inr (3, 0)) 1 9 0 [] (epoller_init Map.empty Map.empty) None of
     Inr (r, _) \<Rightarrow> on_loop (push_functor 0 \<circ> push_functor 5) r | Inl _ \<Rightarrow> undefined)"

definition quiet_os :: "nat \<Rightarrow> (cint \<rightharpoonup> cint \<times> ptr) epoller outcome" where
  "quiet_os n = \<lparr>clock_check = (0, 0), clock_test = 0, clock_timeout = 0, clock_return = 0, polling = ep_Polling map_kernel\<rparr>"

lemma epoller_init_inv: "epoll_contract K \<Longrightarrow> interest K k = Map.empty \<Longrightarrow> ep_inv K (epoller_init k Map.empty)"
  by (simp add: ep_inv_def epoller_init_def)

lemma fresh_loop_inv:
  "reactor_inv (epoll_ops map_kernel) (epoll_view map_kernel) (\<lambda>_ _. True) fresh_loop"
  "pending_functors (ev_loop (world fresh_loop)) = [5, 0]" "user (world fresh_loop) = []"
proof -
  have i: "pv_inv (epoll_view map_kernel) (epoller_init Map.empty Map.empty)"
    using epoller_init_inv [OF map_kernel_contract(1), of Map.empty] by (simp add: map_kernel_def)
  have "po_chans (epoll_ops map_kernel) (epoller_init Map.empty Map.empty) 0 = None"
    "pv_fd_free (epoll_view map_kernel) (epoller_init Map.empty Map.empty) 3"
    by (simp_all add: epoller_init_def ep_fd_free_def)
  from epoll_conn.EventLoop_ctor_ok [OF i this, where this = 9 and k = "0 :: nat" and u = "[] :: nat list" and tid = 1]
  obtain r :: "(nat, nat, nat, (cint \<rightharpoonup> cint \<times> ptr) epoller, nat list) reactor" where
    "EventLoop_ctor (epoll_ops map_kernel) (Inr (3, 0)) 1 9 0 [] (epoller_init Map.empty Map.empty) None = Inr (r, Some 9)"
    "tm_inv r" "ep_inv map_kernel (loop_poller (world r))" "wake_ok (epoll_ops map_kernel) (epoll_view map_kernel) (world r)"
    "user (world r) = []" "pending_functors (ev_loop (world r)) = []" by auto
  moreover from this have "reactor_inv (epoll_ops map_kernel) (epoll_view map_kernel) (\<lambda>_ _. True) r"
    by (simp add: reactor_inv_def io_inv_def)
  ultimately show "reactor_inv (epoll_ops map_kernel) (epoll_view map_kernel) (\<lambda>_ _. True) fresh_loop"
    "pending_functors (ev_loop (world fresh_loop)) = [5, 0]" "user (world fresh_loop) = []"
    by (simp_all add: fresh_loop_def push_functor_def)
qed

text \<open>
  C17. A turn of the loop is safe: with any client that keeps its contract, on the epoll poller,
  the turn ends without a fault. No timer, no channel on the active list is used after it was
  deleted, the poller's fatal branches are not reached, and the wake-up channel stays
  registered. The functors the turn runs are those pending when it began, in order, followed
  by those its timer callbacks and handlers queued; what these functors queue themselves is
  left for the next turn.
\<close>

theorem turn_safe:
  assumes "epoll_wait_contract K" "client_ok (epoll_ops K) (epoll_view K) I U"
    "reactor_inv (epoll_ops K) (epoll_view K) I s" "polling X = ep_Polling K"
    "unat (GetCurrentMillisecs (clock_check X)) < 2 ^ 63"
  shows "\<exists>s1 s2 s' later. loop_turn (epoll_ops K) E U X s = Some (Inr s') \<and>
    reactor_inv (epoll_ops K) (epoll_view K) I s' \<and>
    (quit (ev_loop (world s)) \<longrightarrow> quit (ev_loop (world s'))) \<and>
    reactor_inv (epoll_ops K) (epoll_view K) I s1 \<and> pending_functors (ev_loop (world s1)) = [] \<and>
    run_functors U (pending_functors (ev_loop (world s)) @ later) s1 = Inr s2 \<and> s' = on_loop end_pending s2"
  by (rule epoll_loop.turn_ok [OF assms])

theorem turn_safe_witness:
  "\<exists>s1 s2 s' later. loop_turn (epoll_ops map_kernel) counter_efd log_client (quiet_os 0) fresh_loop = Some (Inr s') \<and>
     pending_functors (ev_loop (world s1)) = [] \<and>
     run_functors log_client ([5, 0] @ later) s1 = Inr s2 \<and> s' = on_loop end_pending s2"
proof -
  have "polling (quiet_os 0) = ep_Polling map_kernel" "unat (GetCurrentMillisecs (clock_check (quiet_os 0))) < 2 ^ 63"
    by (simp_all add: quiet_os_def GetCurrentMillisecs_def signed_divide_int_def)
  from turn_safe [OF map_kernel_contract(2) log_client_ok fresh_loop_inv(1) this, of counter_efd]
  show ?thesis by (simp only: fresh_loop_inv(2)) blast
qed

text \<open>
  C19. \<open>Loop\<close> returns exactly when some turn ends with \<open>quit_\<close> set, and then without a fault and
  with the invariant; for every number of turns these end without a fault.
\<close>

theorem loop_returns_iff_quit:
  assumes "epoll_wait_contract K" "client_ok (epoll_ops K) (epoll_view K) I U"
    "\<forall>n. polling (os n) = ep_Polling K \<and> unat (GetCurrentMillisecs (clock_check (os n))) < 2 ^ 63"
    "reactor_inv (epoll_ops K) (epoll_view K) I s"
  shows "(\<forall>n. \<exists>s'. loop_turns (epoll_ops K) E U os 0 n (on_loop enter_loop s) = Some (Inr s')) \<and>
    ((\<exists>r. Loop (epoll_ops K) E U os s = Some r) \<longleftrightarrow>
      (\<exists>n s'. loop_turns (epoll_ops K) E U os 0 n (on_loop enter_loop s) = Some (Inr s') \<and> quit (ev_loop (world s')))) \<and>
    (\<forall>r. Loop (epoll_ops K) E U os s = Some r \<longrightarrow>
      (\<exists>s'. r = Inr s' \<and> reactor_inv (epoll_ops K) (epoll_view K) I s' \<and> \<not> looping (ev_loop (world s'))))"
  using epoll_loop.returns_iff [OF assms, of E] by blast

theorem loop_returns_iff_quit_witness:
  "(\<forall>n. \<exists>s'. loop_turns (epoll_ops map_kernel) counter_efd log_client quiet_os 0 n (on_loop enter_loop fresh_loop) = Some (Inr s')) \<and>
    ((\<exists>r. Loop (epoll_ops map_kernel) counter_efd log_client quiet_os fresh_loop = Some r) \<longleftrightarrow>
      (\<exists>n s'. loop_turns (epoll_ops map_kernel) counter_efd log_client quiet_os 0 n (on_loop enter_loop fresh_loop) = Some (Inr s') \<and>
        quit (ev_loop (world s'))))"
proof -
  have "\<forall>n. polling (quiet_os n) = ep_Polling map_kernel \<and> unat (GetCurrentMillisecs (clock_check (quiet_os n))) < 2 ^ 63"
    by (simp add: quiet_os_def GetCurrentMillisecs_def signed_divide_int_def)
  from loop_returns_iff_quit [OF map_kernel_contract(2) log_client_ok this fresh_loop_inv(1), of counter_efd]
  show ?thesis by blast
qed

text \<open>
  A functor that asks the loop to quit and is pending when \<open>Loop\<close> is entered makes \<open>Loop\<close>
  return after one turn, in which every functor pending at the start has run, in order.
  (A \<open>Quit\<close> called at that point would be lost.)
\<close>

theorem loop_terminates:
  assumes "epoll_wait_contract K" "client_ok (epoll_ops K) (epoll_view K) I U"
    "reactor_inv (epoll_ops K) (epoll_view K) I s" "polling (os 0) = ep_Polling K"
    "unat (GetCurrentMillisecs (clock_check (os 0))) < 2 ^ 63"
    "f \<in> set (pending_functors (ev_loop (world s)))"
    "\<forall>r r'. reactor_inv (epoll_ops K) (epoll_view K) I r \<longrightarrow> run_functor U f r = Inr r' \<longrightarrow> quit (ev_loop (world r'))"
  shows "\<exists>s1 s2 later. Loop (epoll_ops K) E U os s = Some (Inr (on_loop (leave_loop \<circ> end_pending) s2)) \<and>
    reactor_inv (epoll_ops K) (epoll_view K) I s2 \<and> pending_functors (ev_loop (world s1)) = [] \<and>
    run_functors U (pending_functors (ev_loop (world s)) @ later) s1 = Inr s2"
  using epoll_loop.Loop_quits [where os = os and E = E, OF assms(1-6)] assms(7) by blast

theorem loop_terminates_witness:
  "\<exists>s1 s2 later. Loop (epoll_ops map_kernel) counter_efd log_client quiet_os fresh_loop =
      Some (Inr (on_loop (leave_loop \<circ> end_pending) s2)) \<and>
    pending_functors (ev_loop (world s1)) = [] \<and> run_functors log_client ([5, 0] @ later) s1 = Inr s2"
proof -
  have X: "polling (quiet_os 0) = ep_Polling map_kernel" "unat (GetCurrentMillisecs (clock_check (quiet_os 0))) < 2 ^ 63"
    by (simp_all add: quiet_os_def GetCurrentMillisecs_def signed_divide_int_def)
  have f: "0 \<in> set (pending_functors (ev_loop (world fresh_loop)))" by (simp add: fresh_loop_inv(2))
  have q: "\<forall>r r'. reactor_inv (epoll_ops map_kernel) (epoll_view map_kernel) (\<lambda>_ _. True) r \<longrightarrow>
      run_functor log_client 0 (r :: (nat, nat, nat, (cint \<rightharpoonup> cint \<times> ptr) epoller, nat list) reactor) = Inr r' \<longrightarrow>
      quit (ev_loop (world r'))"
    by (auto simp: log_client_def set_quit_def)
  from loop_terminates [where os = quiet_os and E = counter_efd, OF map_kernel_contract(2) log_client_ok fresh_loop_inv(1) X f q]
  show ?thesis by (simp only: fresh_loop_inv(2)) blast
qed

text \<open>
  The life of a loop on the epoll poller. The constructor refuses a second loop in a thread
  and an \<open>eventfd\<close> that failed; otherwise it gives a loop with the invariant, whose wake-up
  descriptor the kernel watches for input, and notes it as the thread's loop. The destructor,
  whenever the invariant holds, takes that descriptor out of the kernel's list, closes it and
  leaves the thread free for another loop.
\<close>

theorem event_loop_lifecycle:
  fixes K :: "'e epoll_kernel" and k :: 'k and u :: 'u
  assumes "ep_inv K s" "ep_chans s p = None" "ep_fd_free s fd"
  shows "EventLoop_ctor (epoll_ops K) (Inl e) tid this p u s t = (Inl Fatal :: (('cb, 'f, 'k, 'e epoller, 'u) reactor \<times> ptr option) res) \<and>
    EventLoop_ctor (epoll_ops K) (Inr (fd, k)) tid this p u s (Some other) = (Inl Fatal :: (('cb, 'f, 'k, 'e epoller, 'u) reactor \<times> ptr option) res) \<and>
    (\<exists>r :: ('cb, 'f, 'k, 'e epoller, 'u) reactor. EventLoop_ctor (epoll_ops K) (Inr (fd, k)) tid this p u s None = Inr (r, Some this) \<and>
       reactor_inv (epoll_ops K) (epoll_view K) (\<lambda>_ _. True) r \<and>
       ep_watch K (loop_poller (world r)) = (ep_watch K s)(fd := kReadEvent) \<and>
       pending_functors (ev_loop (world r)) = [] \<and> thread_id (ev_loop (world r)) = tid) \<and>
    (\<forall>(r :: ('cb, 'f, 'k, 'e epoller, 'u) reactor) c. reactor_inv (epoll_ops K) (epoll_view K) I r \<longrightarrow>
       ep_chans (loop_poller (world r)) (wakeup_channel (world r)) = Some c \<longrightarrow>
       (\<exists>s'. EventLoop_dtor (epoll_ops K) r = Inr (s', ch_fd c, None) \<and> ep_inv K s' \<and>
          ep_watch K s' = (ep_watch K (loop_poller (world r)))(ch_fd c := 0)))"
proof (intro conjI allI impI)
  show "EventLoop_ctor (epoll_ops K) (Inl e) tid this p u s t = (Inl Fatal :: (('cb, 'f, 'k, 'e epoller, 'u) reactor \<times> ptr option) res)"
    "EventLoop_ctor (epoll_ops K) (Inr (fd, k)) tid this p u s (Some other) = (Inl Fatal :: (('cb, 'f, 'k, 'e epoller, 'u) reactor \<times> ptr option) res)"
    by (simp_all add: EventLoop_ctor_def CreateEventfd_def)
  have "pv_inv (epoll_view K) s" "po_chans (epoll_ops K) s p = None" "pv_fd_free (epoll_view K) s fd"
    using assms by simp_all
  from epoll_conn.EventLoop_ctor_ok [OF this, where k = k and u = u and tid = tid and this = this]
  obtain r :: "('cb, 'f, 'k, 'e epoller, 'u) reactor" where
    "EventLoop_ctor (epoll_ops K) (Inr (fd, k)) tid this p u s None = Inr (r, Some this)"
    "reactor_inv (epoll_ops K) (epoll_view K) (\<lambda>_ _. True) r"
    "ep_watch K (loop_poller (world r)) = (ep_watch K s)(fd := kReadEvent)"
    "pending_functors (ev_loop (world r)) = []" "thread_id (ev_loop (world r)) = tid"
    by (auto simp: reactor_inv_def io_inv_def)
  then show "\<exists>r :: ('cb, 'f, 'k, 'e epoller, 'u) reactor. EventLoop_ctor (epoll_ops K) (Inr (fd, k)) tid this p u s None = Inr (r, Some this) \<and>
       reactor_inv (epoll_ops K) (epoll_view K) (\<lambda>_ _. True) r \<and>
       ep_watch K (loop_poller (world r)) = (ep_watch K s)(fd := kReadEvent) \<and>
       pending_functors (ev_loop (world r)) = [] \<and> thread_id (ev_loop (world r)) = tid"
    by blast
next
  fix r :: "('cb, 'f, 'k, 'e epoller, 'u) reactor" and c
  assume "reactor_inv (epoll_ops K) (epoll_view K) I r" "ep_chans (loop_poller (world r)) (wakeup_channel (world r)) = Some c"
  then show "\<exists>s'. EventLoop_dtor (epoll_ops K) r = Inr (s', ch_fd c, None) \<and> ep_inv K s' \<and>
          ep_watch K s' = (ep_watch K (loop_poller (world r)))(ch_fd c := 0)"
    using epoll_conn.EventLoop_dtor_ok [of K r c] by (auto simp: reactor_inv_def io_inv_def)
qed

theorem event_loop_lifecycle_witness:
  "EventLoop_ctor (epoll_ops map_kernel) (Inr (3, 0 :: nat)) 1 9 0 [] (epoller_init Map.empty Map.empty) (Some 8) =
     (Inl Fatal :: ((nat, nat, nat, (cint \<rightharpoonup> cint \<times> ptr) epoller, nat list) reactor \<times> ptr option) res) \<and>
   (\<exists>fd s'. EventLoop_dtor (epoll_ops map_kernel) fresh_loop = Inr (s', fd, None) \<and> ep_watch map_kernel s' fd = 0)"
proof -
  have i: "ep_inv map_kernel (epoller_init Map.empty Map.empty)"
    using epoller_init_inv [OF map_kernel_contract(1), of Map.empty] by (simp add: map_kernel_def)
  have f: "ep_chans (epoller_init Map.empty Map.empty) 0 = None" "ep_fd_free (epoller_init Map.empty Map.empty) 3"
    by (simp_all add: epoller_init_def ep_fd_free_def)
  note L = event_loop_lifecycle [OF i f, where k = "0 :: nat" and u = "[] :: nat list" and tid = 1 and this = 9 and other = 8
      and I = "\<lambda>_ _. True"]
  have "EventLoop_ctor (epoll_ops map_kernel) (Inr (3, 0 :: nat)) 1 9 0 [] (epoller_init Map.empty Map.empty) (Some 8) =
     (Inl Fatal :: ((nat, nat, nat, (cint \<rightharpoonup> cint \<times> ptr) epoller, nat list) reactor \<times> ptr option) res)"
    by (rule L [THEN conjunct2, THEN conjunct1])
  moreover obtain c where c: "ep_chans (loop_poller (world fresh_loop)) (wakeup_channel (world fresh_loop)) = Some c"
    using fresh_loop_inv(1) by (auto simp: reactor_inv_def io_inv_def wake_ok_def)
  moreover obtain s' where "EventLoop_dtor (epoll_ops map_kernel) fresh_loop = Inr (s', ch_fd c, None)"
    "ep_watch map_kernel s' = (ep_watch map_kernel (loop_poller (world fresh_loop)))(ch_fd c := 0)"
    using L [THEN conjunct2, THEN conjunct2, THEN conjunct2, THEN spec, THEN spec, THEN mp, THEN mp, OF fresh_loop_inv(1) c] by blast
  ultimately show ?thesis by (intro conjI exI [of _ "ch_fd c"]) simp_all
qed

end
