(* ===== verification/Acceptor.thy ===== *)
theory Acceptor
  imports Poller
begin

text \<open>
  Addresses and listening: \<open>InetAddr\<close> (\<^verbatim>\<open>include/inet_addr.h\<close>, \<^verbatim>\<open>src/inet_addr.cc\<close>), \<open>Socket\<close> and
  \<open>socket_utils\<close> (\<^verbatim>\<open>src/socket.cc\<close>, \<^verbatim>\<open>src/socket_utils.cc\<close>) and \<open>Acceptor\<close>
  (\<^verbatim>\<open>include/acceptor.h\<close>, \<^verbatim>\<open>src/acceptor.cc\<close>). What the kernel keeps for descriptors (the
  \<open>O_NONBLOCK\<close> flag, socket options, which are listening or closed) is the record \<open>sockets\<close>; the outcomes of
  \<open>socket\<close>, \<open>bind\<close>, \<open>listen\<close>, \<open>accept4\<close>, \<open>connect\<close>, \<open>getsockname\<close> and \<open>fcntl\<close> are arguments. Addresses are those of a
  little-endian machine: \<open>s_addr\<close> holds the first byte of the dotted form lowest.
\<close>

section \<open>Addresses\<close>

record sockaddr_in =
  sin_family :: "16 word"
  sin_port :: "16 word"
  s_addr :: "32 word"

definition AF_INET :: "16 word" where "AF_INET = 2"
definition INADDR_ANY :: "32 word" where "INADDR_ANY = 0"

definition htons :: "16 word \<Rightarrow> 16 word" where
  "htons w = push_bit 8 w OR drop_bit 8 w"

definition ntohs :: "16 word \<Rightarrow> 16 word" where
  "ntohs w = push_bit 8 w OR drop_bit 8 w"

definition byte_of :: "nat \<Rightarrow> 32 word \<Rightarrow> nat" where
  "byte_of k w = unat w div 256 ^ k mod 256"

definition inet_ntop :: "32 word \<Rightarrow> string" where
  "inet_ntop w = nat_digits (byte_of 0 w) @ CHR ''.'' # nat_digits (byte_of 1 w) @ CHR ''.'' #
     nat_digits (byte_of 2 w) @ CHR ''.'' # nat_digits (byte_of 3 w)"

text \<open>The constructors; \<open>inet_addr\<close> is the C library's parser.\<close>

definition InetAddr_ip :: "(string \<Rightarrow> 32 word) \<Rightarrow> string \<Rightarrow> 16 word \<Rightarrow> sockaddr_in" where
  "InetAddr_ip inet_addr ip port = \<lparr>sin_family = AF_INET, sin_port = htons port, s_addr = inet_addr ip\<rparr>"

definition InetAddr_port :: "16 word \<Rightarrow> sockaddr_in" where
  "InetAddr_port port = \<lparr>sin_family = AF_INET, sin_port = htons port, s_addr = INADDR_ANY\<rparr>"

definition InetAddr_default :: sockaddr_in where
  "InetAddr_default = \<lparr>sin_family = AF_INET, sin_port = htons 10001, s_addr = INADDR_ANY\<rparr>"

definition ToIp :: "sockaddr_in \<Rightarrow> string" where
  "ToIp a = inet_ntop (s_addr a)"

definition ToPort :: "sockaddr_in \<Rightarrow> 16 word" where
  "ToPort a = ntohs (sin_port a)"

definition ToIpPort :: "sockaddr_in \<Rightarrow> string" where
  "ToIpPort a = inet_ntop (s_addr a) @ CHR '':'' # nat_digits (unat (ntohs (sin_port a)))"

section \<open>Sockets\<close>

datatype sock_option = SO_REUSEADDR | SO_REUSEPORT | SO_KEEPALIVE | TCP_NODELAY

record sockets =
  nonblock :: "cint \<Rightarrow> bool"
  sockopt :: "cint \<times> sock_option \<rightharpoonup> cint"
  listening :: "cint set"
  closed :: "cint set"

definition setsockopt :: "cint \<Rightarrow> sock_option \<Rightarrow> cint \<Rightarrow> sockets \<Rightarrow> sockets" where
  "setsockopt fd opt v w = w\<lparr>sockopt := (sockopt w)((fd, opt) \<mapsto> v)\<rparr>"

definition SetTcpNoDelay :: "cint \<Rightarrow> bool \<Rightarrow> sockets \<Rightarrow> sockets" where
  "SetTcpNoDelay fd on = setsockopt fd TCP_NODELAY (if on then 1 else 0)"
definition SetReuseAddr :: "cint \<Rightarrow> bool \<Rightarrow> sockets \<Rightarrow> sockets" where
  "SetReuseAddr fd on = setsockopt fd SO_REUSEADDR (if on then 1 else 0)"
definition SetReusePort :: "cint \<Rightarrow> bool \<Rightarrow> sockets \<Rightarrow> sockets" where
  "SetReusePort fd on = setsockopt fd SO_REUSEPORT (if on then 1 else 0)"
definition SetKeepAlive :: "cint \<Rightarrow> bool \<Rightarrow> sockets \<Rightarrow> sockets" where
  "SetKeepAlive fd on = setsockopt fd SO_KEEPALIVE (if on then 1 else 0)"

text \<open>The members of \<open>Socket\<close> of the same names, which act on the socket's own descriptor.\<close>

definition sock_SetTcpNoDelay :: "cint \<Rightarrow> bool \<Rightarrow> sockets \<Rightarrow> sockets" where
  "sock_SetTcpNoDelay fd on = setsockopt fd TCP_NODELAY (if on then 1 else 0)"
definition sock_SetReuseAddr :: "cint \<Rightarrow> bool \<Rightarrow> sockets \<Rightarrow> sockets" where
  "sock_SetReuseAddr fd on = setsockopt fd SO_REUSEADDR (if on then 1 else 0)"
definition sock_SetReusePort :: "cint \<Rightarrow> bool \<Rightarrow> sockets \<Rightarrow> sockets" where
  "sock_SetReusePort fd on = setsockopt fd SO_REUSEPORT (if on then 1 else 0)"
definition sock_SetKeepAlive :: "cint \<Rightarrow> bool \<Rightarrow> sockets \<Rightarrow> sockets" where
  "sock_SetKeepAlive fd on = setsockopt fd SO_KEEPALIVE (if on then 1 else 0)"

text \<open>\<open>on\<close> is not used: the flag is always set. \<open>ok\<close> says whether \<open>fcntl(F_SETFL)\<close> succeeds.\<close>

definition SetNonblocking :: "bool \<Rightarrow> cint \<Rightarrow> bool \<Rightarrow> sockets \<Rightarrow> bool \<times> sockets" where
  "SetNonblocking ok fd on w =
     (if ok then (True, w\<lparr>nonblock := (nonblock w)(fd := True)\<rparr>) else (False, w))"

text \<open>The function of \<open>socket_utils\<close> with the same body on any descriptor.\<close>

definition utils_SetNonblocking :: "bool \<Rightarrow> cint \<Rightarrow> bool \<Rightarrow> sockets \<Rightarrow> bool \<times> sockets" where
  "utils_SetNonblocking ok fd on w =
     (if ok then (True, w\<lparr>nonblock := (nonblock w)(fd := True)\<rparr>) else (False, w))"

text \<open>
  The two ends of a connection; \<open>got\<close> is the outcome of \<open>getsockname\<close> or \<open>getpeername\<close>. An error is
  only logged, and the address is all zero then.
\<close>

definition GetLocalAddr :: "errno + sockaddr_in \<Rightarrow> sockaddr_in" where
  "GetLocalAddr got = (case got of Inl e \<Rightarrow> \<lparr>sin_family = 0, sin_port = 0, s_addr = 0\<rparr> | Inr a \<Rightarrow> a)"

definition GetPeerAddr :: "errno + sockaddr_in \<Rightarrow> sockaddr_in" where
  "GetPeerAddr got = (case got of Inl e \<Rightarrow> \<lparr>sin_family = 0, sin_port = 0, s_addr = 0\<rparr> | Inr a \<Rightarrow> a)"

text \<open>\<open>Connect\<close> ignores what \<open>connect\<close> returns; the destructor closes the descriptor.\<close>

definition Connect :: "errno + sockets \<Rightarrow> sockets \<Rightarrow> sockets" where
  "Connect connected w = (case connected of Inl e \<Rightarrow> w | Inr w1 \<Rightarrow> w1)"

definition Socket_dtor :: "cint \<Rightarrow> sockets \<Rightarrow> sockets" where
  "Socket_dtor fd w = w\<lparr>closed := insert fd (closed w)\<rparr>"

definition Bind :: "bool \<Rightarrow> sockets \<Rightarrow> sockets res" where
  "Bind ok w = (if ok then Inr w else Inl Fatal)"

definition Listen :: "bool \<Rightarrow> cint \<Rightarrow> sockets \<Rightarrow> sockets res" where
  "Listen ok fd w = (if ok then Inr (w\<lparr>listening := insert fd (listening w)\<rparr>) else Inl Fatal)"

text \<open>
  \<open>accept4\<close> with \<open>SOCK_CLOEXEC\<close> only gives a descriptor in blocking mode; \<open>SetNonblocking\<close> is
  called on the listening descriptor.
\<close>

definition Accept ::
  "errno + cint \<times> sockaddr_in \<Rightarrow> bool \<Rightarrow> cint \<Rightarrow> bool \<Rightarrow> sockets \<Rightarrow> (cint \<times> sockaddr_in \<times> sockets) res" where
  "Accept accepted ok fd nonblock_arg w =
     (let w1 = (case accepted of Inl e \<Rightarrow> w | Inr (connfd, addr) \<Rightarrow> w\<lparr>nonblock := (nonblock w)(connfd := False)\<rparr>);
          w2 = (if nonblock_arg then snd (SetNonblocking ok fd True w1) else w1)
      in case accepted of
           Inl e \<Rightarrow> Inl Fatal
         | Inr (connfd, addr) \<Rightarrow> if 0 < sint connfd then Inr (connfd, addr, w2) else Inl Fatal)"

section \<open>The acceptor\<close>

record 's acceptor =
  accept_fd :: cint
  accept_chan :: ptr
  listenning :: bool
  acc_poller :: 's
  acc_sockets :: sockets

definition CreateNonblocking :: "errno + cint \<Rightarrow> sockets \<Rightarrow> (cint \<times> sockets) res" where
  "CreateNonblocking created w =
     (case created of Inl e \<Rightarrow> Inl Fatal | Inr fd \<Rightarrow> Inr (fd, w\<lparr>nonblock := (nonblock w)(fd := True)\<rparr>))"

definition Acceptor_ctor ::
  "'s poller_ops \<Rightarrow> errno + cint \<Rightarrow> bool \<Rightarrow> ptr \<Rightarrow> bool \<Rightarrow> 's \<Rightarrow> sockets \<Rightarrow> 's acceptor res" where
  "Acceptor_ctor P created bind_ok p reuse_port s w =
     res_bind (CreateNonblocking created w) (\<lambda>(fd, w1).
     res_bind (Bind bind_ok (sock_SetReuseAddr fd reuse_port (sock_SetReuseAddr fd reuse_port w1))) (\<lambda>w2.
       Inr \<lparr>accept_fd = fd, accept_chan = p, listenning = False,
            acc_poller = po_set P p ((Channel_ctor fd)\<lparr>has_read_cb := True\<rparr>) s, acc_sockets = w2\<rparr>))"

definition acc_Listen :: "'s poller_ops \<Rightarrow> bool \<Rightarrow> 's acceptor \<Rightarrow> 's acceptor res" where
  "acc_Listen P listen_ok a =
     res_bind (Listen listen_ok (accept_fd a) (acc_sockets a)) (\<lambda>w.
     res_bind (channel_set P enable_read (accept_chan a) (acc_poller a)) (\<lambda>s.
       Inr (a\<lparr>listenning := True, acc_sockets := w, acc_poller := s\<rparr>)))"

definition Acceptor_dtor :: "'s poller_ops \<Rightarrow> 's acceptor \<Rightarrow> 's acceptor res" where
  "Acceptor_dtor P a =
     res_bind (channel_set P disable_all (accept_chan a) (acc_poller a)) (\<lambda>s.
     res_bind (po_remove P (accept_chan a) s) (\<lambda>s1.
       Inr (a\<lparr>acc_poller := s1, acc_sockets := Socket_dtor (accept_fd a) (acc_sockets a)\<rparr>)))"

text \<open>
  \<open>HandleRead\<close>: the result is the connection handed to \<open>new_connection_callback_\<close>, if it is set.
  The error branch of the source is kept: after \<open>Accept\<close> has returned, \<open>connfd >= 0\<close> holds.
\<close>

definition acc_HandleRead ::
  "errno + cint \<times> sockaddr_in \<Rightarrow> bool \<Rightarrow> bool \<Rightarrow> 's acceptor \<Rightarrow> ((cint \<times> sockaddr_in) option \<times> 's acceptor) res" where
  "acc_HandleRead accepted ok has_cb a =
     res_bind (Accept accepted ok (accept_fd a) True (acc_sockets a)) (\<lambda>(connfd, peeraddr, w).
       if 0 \<le> sint connfd
       then let w1 = SetReusePort connfd True (SetReuseAddr connfd True w) in
         if has_cb then Inr (Some (connfd, peeraddr), a\<lparr>acc_sockets := w1\<rparr>)
         else Inr (None, a\<lparr>acc_sockets := w1\<lparr>closed := insert connfd (closed w1)\<rparr>\<rparr>)
       else Inr (None, a\<lparr>acc_sockets := w\<rparr>))"

section \<open>Addresses print faithfully\<close>

lemma ntohs_htons [simp]: "ntohs (htons w) = w"
  by (rule bit_word_eqI) (auto simp: ntohs_def htons_def bit_simps)

lemma ntohs_inj [simp]: "ntohs a = ntohs b \<longleftrightarrow> a = b"
proof -
  have "htons (ntohs w) = w" for w by (rule bit_word_eqI) (auto simp: ntohs_def htons_def bit_simps)
  then show ?thesis by metis
qed

lemma bytes_determine:
  assumes "byte_of 0 a = byte_of 0 b" "byte_of 1 a = byte_of 1 b" "byte_of 2 a = byte_of 2 b" "byte_of 3 a = byte_of 3 b"
  shows "a = b"
proof -
  have e: "unat w = byte_of 0 w + 256 * byte_of 1 w + 256 ^ 2 * byte_of 2 w + 256 ^ 3 * byte_of 3 w" for w
  proof -
    let ?n = "unat w"
    have "?n < 2 ^ LENGTH(32)" by (rule unsigned_less)
    then have "?n div 16777216 < 256" by (simp add: less_mult_imp_div_less)
    then have d3: "?n div 16777216 mod 256 = ?n div 16777216" by simp
    have "?n div 256 div 256 = ?n div 65536" "?n div 65536 div 256 = ?n div 16777216"
      by (simp_all flip: div_mult2_eq)
    then have "?n = ?n mod 256 + 256 * (?n div 256)" "?n div 256 = ?n div 256 mod 256 + 256 * (?n div 65536)"
      "?n div 65536 = ?n div 65536 mod 256 + 256 * (?n div 16777216)"
      using mod_mult_div_eq [of ?n 256] mod_mult_div_eq [of "?n div 256" 256] mod_mult_div_eq [of "?n div 65536" 256]
      by simp_all
    then have "?n = ?n mod 256 + 256 * (?n div 256 mod 256) + 65536 * (?n div 65536 mod 256) +
        16777216 * (?n div 16777216)" by linarith
    then show ?thesis using d3 by (simp add: byte_of_def)
  qed
  show ?thesis using e [of a] e [of b] assms by (simp add: word_unat_eq_iff)
qed

lemma inet_ntop_inj [simp]: "inet_ntop a = inet_ntop b \<longleftrightarrow> a = b"
proof
  assume "inet_ntop a = inet_ntop b"
  then have "byte_of 0 a = byte_of 0 b" "byte_of 1 a = byte_of 1 b" "byte_of 2 a = byte_of 2 b" "byte_of 3 a = byte_of 3 b"
    by (auto simp: inet_ntop_def split_at_sep nat_digits_no_sign)
  then show "a = b" by (rule bytes_determine)
qed simp

lemma length_inet_ntop: "length (inet_ntop w) \<le> 15"
proof -
  have "length (nat_digits (byte_of k w)) \<le> 3" for k
    by (rule length_nat_digits) (simp_all add: byte_of_def order.strict_trans [of _ 256])
  from this [of 0] this [of 1] this [of 2] this [of 3] show ?thesis by (simp add: inet_ntop_def)
qed

lemma inet_ntop_chars: "CHR '':'' \<notin> set (inet_ntop w)" "CHR ''#'' \<notin> set (inet_ntop w)"
  by (auto simp: inet_ntop_def nat_digits_no_sign)

lemma length_ToIpPort: "length (ToIpPort a) \<le> 21"
proof -
  have "unat (ntohs (sin_port a)) < 2 ^ LENGTH(16)" by (rule unsigned_less)
  then have "unat (ntohs (sin_port a)) < 10 ^ 5" by simp
  then have "length (nat_digits (unat (ntohs (sin_port a)))) \<le> 5" by (rule length_nat_digits) simp
  then show ?thesis using length_inet_ntop [of "s_addr a"] by (simp add: ToIpPort_def)
qed

lemma ToIpPort_no_hash: "CHR ''#'' \<notin> set (ToIpPort a)"
  by (auto simp: ToIpPort_def inet_ntop_chars nat_digits_no_sign)


section \<open>Accepting\<close>

text \<open>
  \<open>Acceptor::HandleRead\<close> asks for a non-blocking connection, but the connection it hands
  on is in blocking mode: \<open>Accept\<close> sets \<open>O_NONBLOCK\<close> on the listening descriptor instead. (A
  write to such a connection blocks the whole loop.)
\<close>

theorem accepted_socket_blocks:
  assumes "accepted = Inr (connfd, addr)" "0 < sint connfd" "connfd \<noteq> accept_fd a"
  shows "\<exists>a'. acc_HandleRead accepted ok True a = Inr (Some (connfd, addr), a') \<and> \<not> nonblock (acc_sockets a') connfd"
  using assms
  by (simp add: acc_HandleRead_def Accept_def SetNonblocking_def Let_def SetReusePort_def SetReuseAddr_def setsockopt_def)

definition sample_acceptor :: "unit acceptor" where
  "sample_acceptor = \<lparr>accept_fd = 3, accept_chan = 0, listenning = True, acc_poller = (),
     acc_sockets = \<lparr>nonblock = (\<lambda>fd. fd = 3), sockopt = Map.empty, listening = {3}, closed = {}\<rparr>\<rparr>"

theorem accepted_socket_blocks_witness:
  "\<exists>a'. acc_HandleRead (Inr (7, InetAddr_default)) True True sample_acceptor = Inr (Some (7, InetAddr_default), a') \<and>
     \<not> nonblock (acc_sockets a') 7"
  by (rule accepted_socket_blocks) (simp_all add: sample_acceptor_def)

text \<open>
  The acceptor's constructor sets \<open>SO_REUSEADDR\<close> twice and never \<open>SO_REUSEPORT\<close>, which the
  server's option \<open>kReusePort\<close> asks for.
\<close>

lemma reuse_port_never_set:
  assumes "Acceptor_ctor P created bind_ok p True s w = Inr a"
  shows "sockopt (acc_sockets a) (accept_fd a, SO_REUSEPORT) = sockopt w (accept_fd a, SO_REUSEPORT) \<and>
    sockopt (acc_sockets a) (accept_fd a, SO_REUSEADDR) = Some 1"
  using assms
  by (auto simp: Acceptor_ctor_def CreateNonblocking_def Bind_def sock_SetReuseAddr_def setsockopt_def
      res_bind_eq_Inr split: sum.splits if_splits)

end
