(* ===== verification/Config.thy ===== *)
theory Config
  imports Net_Prelude
begin

text \<open>
  \<open>Config\<close> (\<^verbatim>\<open>include/config.h\<close>): reading \<open>key = number\<close> lines with a regular expression. The
  expression is matched the way \<open>std::regex\<close> matches its default (ECMAScript) grammar: by
  backtracking, every repetition trying its longest match first. The matcher is proved equal
  to a direct description of what the expression extracts.
\<close>

section \<open>Matching\<close>

text \<open>The ways to split a string into a run of characters in a class and a rest, longest run first.\<close>

fun runs :: "(char \<Rightarrow> bool) \<Rightarrow> string \<Rightarrow> (string \<times> string) list" where
  "runs P [] = [([], [])]"
| "runs P (c # cs) = (if P c then map (\<lambda>(a, b). (c # a, b)) (runs P cs) else []) @ [([], c # cs)]"

datatype rx = Many "char \<Rightarrow> bool" | Many1 "char \<Rightarrow> bool"

fun rx_runs :: "rx \<Rightarrow> string \<Rightarrow> (string \<times> string) list" where
  "rx_runs (Many P) s = runs P s"
| "rx_runs (Many1 P) s = filter (\<lambda>(a, b). a \<noteq> []) (runs P s)"

fun first_some :: "('a \<Rightarrow> 'b option) \<Rightarrow> 'a list \<Rightarrow> 'b option" where
  "first_some f [] = None"
| "first_some f (x # xs) = (case f x of None \<Rightarrow> first_some f xs | Some y \<Rightarrow> Some y)"

text \<open>The text each part of a sequence matched, from the start of the string.\<close>

fun rx_match :: "rx list \<Rightarrow> string \<Rightarrow> string list option" where
  "rx_match [] s = Some []"
| "rx_match (r # rs) s = first_some (\<lambda>(a, b). map_option (\<lambda>ms. a # ms) (rx_match rs b)) (rx_runs r s)"

definition is_digit :: "char \<Rightarrow> bool" where
  "is_digit c \<longleftrightarrow> c \<in> set ''0123456789''"

definition is_key :: "char \<Rightarrow> bool" where
  "is_key c \<longleftrightarrow> c \<noteq> CHR '' '' \<and> c \<noteq> CHR ''=''"

definition is_dot :: "char \<Rightarrow> bool" where
  "is_dot c \<longleftrightarrow> c \<noteq> CHR 0x0A \<and> c \<noteq> CHR 0x0D"

text \<open>The expression; its last two parts make up the second group.\<close>

definition regex1 :: "rx list" where
  "regex1 = [Many is_key, Many (\<lambda>c. \<not> is_digit c), Many1 is_digit, Many is_dot]"

definition regex_search :: "string \<Rightarrow> (string \<times> string) option" where
  "regex_search s =
     (case rx_match regex1 s of
        Some [a, b, c, d] \<Rightarrow> Some (a, c @ d)
      | _ \<Rightarrow> None)"

section \<open>The class\<close>

record config =
  mp :: "string \<rightharpoonup> string"
  cfg_buf :: string

definition Config_ctor :: config where
  "Config_ctor = \<lparr>mp = Map.empty, cfg_buf = []\<rparr>"

definition Parse_line :: "config \<Rightarrow> config" where
  "Parse_line c =
     (case regex_search (cfg_buf c) of
        None \<Rightarrow> c
      | Some (k, v) \<Rightarrow> c\<lparr>mp := (mp c)(k \<mapsto> v)\<rparr>)"

text \<open>
  \<open>getline\<close> takes up to the next newline, which it drops, and fails at the end of the file when
  there is nothing left. \<open>file\<close> is the content, or \<open>None\<close> if the file cannot be opened.
\<close>

function read_lines :: "string \<Rightarrow> config \<Rightarrow> config" where
  "read_lines s c =
     (if s = [] then c
      else read_lines (drop 1 (dropWhile (\<lambda>x. x \<noteq> CHR 0x0A) s)) (Parse_line (c\<lparr>cfg_buf := takeWhile (\<lambda>x. x \<noteq> CHR 0x0A) s\<rparr>)))"
  by pat_completeness auto
termination
proof (relation "measure (\<lambda>(s, c). length s)")
  fix s :: string and c
  assume "s \<noteq> []"
  then have "length (drop 1 (dropWhile (\<lambda>x. x \<noteq> CHR 0x0A) s)) < length s"
    using length_dropWhile_le [of "\<lambda>x. x \<noteq> CHR 0x0A" s] by (cases s) auto
  then show "((drop 1 (dropWhile (\<lambda>x. x \<noteq> CHR 0x0A) s), Parse_line (c\<lparr>cfg_buf := takeWhile (\<lambda>x. x \<noteq> CHR 0x0A) s\<rparr>)), s, c)
      \<in> measure (\<lambda>(s, c). length s)" by simp
qed simp

declare read_lines.simps [simp del]

definition PullConfig :: "string option \<Rightarrow> config \<Rightarrow> bool \<times> config" where
  "PullConfig file c = (case file of None \<Rightarrow> (False, c) | Some s \<Rightarrow> (True, read_lines s c))"

definition OutputConfig_line :: "string \<Rightarrow> string \<Rightarrow> string" where
  "OutputConfig_line k v = ''key='' @ k @ '',value='' @ v @ [CHR 0x0A]"

section \<open>The matcher against its specification\<close>

text \<open>
  The key is the longest prefix without space and equals sign, the value begins at the first
  digit after it. If no digit follows the key, the last digit inside the key is taken as the
  value and the key ends before it.
\<close>

definition config_ref :: "string \<Rightarrow> (string \<times> string) option" where
  "config_ref s =
     (let k = takeWhile is_key s; r = dropWhile is_key s in
      if list_ex is_digit r then Some (k, takeWhile is_dot (dropWhile (\<lambda>c. \<not> is_digit c) r))
      else if list_ex is_digit k
      then let n = length (takeWhile (\<lambda>c. \<not> is_digit c) (rev k)); m = length k - n - 1
           in Some (take m k, takeWhile is_dot (drop m k @ r))
      else None)"

lemma runs_hd: "\<exists>rest. runs P s = (takeWhile P s, dropWhile P s) # rest"
  by (induction s) auto

lemma runs_append: "(a, b) \<in> set (runs P s) \<Longrightarrow> a @ b = s"
  by (induction s arbitrary: a b) (auto split: if_splits)

lemma first_some_None: "(\<And>x. x \<in> set xs \<Longrightarrow> f x = None) \<Longrightarrow> first_some f xs = None"
  by (induction xs) auto

lemma many1_runs:
  "P c \<Longrightarrow> \<exists>rest. rx_runs (Many1 P) (c # cs) = (c # takeWhile P cs, dropWhile P cs) # rest"
  "\<not> P c \<Longrightarrow> rx_runs (Many1 P) (c # cs) = []"
  using runs_hd [of P cs] by auto

lemma match_last: "rx_match [Many P] s = Some [takeWhile P s]"
  using runs_hd [of P s] by auto

text \<open>With a digit in front of it the value is what the dot class allows, digits included.\<close>

definition value_match :: "string \<Rightarrow> string list option" where
  "value_match s = (if s \<noteq> [] \<and> is_digit (hd s)
     then Some [takeWhile is_digit s, takeWhile is_dot (dropWhile is_digit s)] else None)"

lemma match_digits: "rx_match [Many1 is_digit, Many is_dot] s = value_match s"
proof (cases s)
  case (Cons c cs)
  then show ?thesis
    using many1_runs [of is_digit c cs] match_last [of is_dot]
    by (cases "is_digit c") (auto simp: value_match_def simp del: rx_runs.simps)
qed (simp add: value_match_def)

definition gap_match :: "string \<Rightarrow> string list option" where
  "gap_match s = map_option (\<lambda>ms. takeWhile (\<lambda>c. \<not> is_digit c) s # ms) (value_match (dropWhile (\<lambda>c. \<not> is_digit c) s))"

lemma gap_match_None: "gap_match s = None \<longleftrightarrow> \<not> list_ex is_digit s"
  using hd_dropWhile [of "\<lambda>c. \<not> is_digit c" s] by (auto simp: gap_match_def value_match_def list_ex_iff dropWhile_eq_Nil_conv)

lemma match_gap: "rx_match [Many (\<lambda>c. \<not> is_digit c), Many1 is_digit, Many is_dot] s = gap_match s"
proof -
  let ?f = "\<lambda>(a, b). map_option (\<lambda>ms. a # ms) (value_match b)"
  have m: "rx_match [Many (\<lambda>c. \<not> is_digit c), Many1 is_digit, Many is_dot] s = first_some ?f (runs (\<lambda>c. \<not> is_digit c) s)"
    by (subst rx_match.simps(2)) (simp only: match_digits rx_runs.simps)
  show ?thesis
  proof (cases "list_ex is_digit s")
    case True
    obtain ms where ms: "value_match (dropWhile (\<lambda>c. \<not> is_digit c) s) = Some ms"
      using gap_match_None [of s] True by (auto simp: gap_match_def)
    obtain rest where "runs (\<lambda>c. \<not> is_digit c) s =
        (takeWhile (\<lambda>c. \<not> is_digit c) s, dropWhile (\<lambda>c. \<not> is_digit c) s) # rest"
      using runs_hd by blast
    then show ?thesis unfolding m using ms by (simp add: gap_match_def)
  next
    case False
    have "?f (a, b) = None" if "(a, b) \<in> set (runs (\<lambda>c. \<not> is_digit c) s)" for a b
      using runs_append [OF that] False by (cases b) (auto simp: value_match_def)
    then have "first_some ?f (runs (\<lambda>c. \<not> is_digit c) s) = None" by (intro first_some_None) auto
    moreover have "gap_match s = None" using False gap_match_None by simp
    ultimately show ?thesis unfolding m by simp
  qed
qed

lemma first_some_append:
  "first_some f (xs @ ys) = (case first_some f xs of None \<Rightarrow> first_some f ys | Some y \<Rightarrow> Some y)"
  by (induction xs) (auto split: option.split)

lemma first_some_map: "first_some f (map g xs) = first_some (\<lambda>x. f (g x)) xs"
  by (induction xs) (auto split: option.split)

text \<open>The key part, tried longest first: one character at a time.\<close>

fun key_match :: "string \<Rightarrow> (string \<times> string list) option" where
  "key_match [] = map_option (\<lambda>ms. ([], ms)) (gap_match [])"
| "key_match (c # cs) =
     (case (if is_key c then map_option (\<lambda>(a, ms). (c # a, ms)) (key_match cs) else None) of
        Some r \<Rightarrow> Some r
      | None \<Rightarrow> map_option (\<lambda>ms. ([], ms)) (gap_match (c # cs)))"

lemma match_key: "rx_match regex1 s = map_option (\<lambda>(a, ms). a # ms) (key_match s)"
proof -
  let ?f = "\<lambda>(a, b). map_option (\<lambda>ms. (a, ms)) (gap_match b)"
  have cons: "first_some (\<lambda>x. ?f (case x of (a, b) \<Rightarrow> (c # a, b))) xs =
      map_option (\<lambda>(a, ms). (c # a, ms)) (first_some ?f xs)" for c xs
    by (induction xs) (auto split: option.split)
  have key: "first_some ?f (runs is_key s) = key_match s"
    by (induction s) (auto simp: first_some_append first_some_map cons split: option.split)
  have "rx_match regex1 s = first_some (\<lambda>(a, b). map_option (\<lambda>ms. a # ms) (gap_match b)) (runs is_key s)"
    unfolding regex1_def by (subst rx_match.simps(2)) (simp only: match_gap rx_runs.simps)
  also have "first_some (\<lambda>(a, b). map_option (\<lambda>ms. a # ms) (gap_match b)) xs =
      map_option (\<lambda>(a, ms). a # ms) (first_some ?f xs)" for xs
    by (induction xs) (auto split: option.split)
  finally show ?thesis using key by simp
qed

lemma is_digit_key: "is_digit c \<Longrightarrow> is_key c \<and> is_dot c"
  by (auto simp: is_digit_def is_key_def is_dot_def)

text \<open>What the groups are, in terms of the reference: the digits are the start of the value.\<close>

lemma takeWhile_digits_dot:
  "takeWhile is_digit t @ takeWhile is_dot (dropWhile is_digit t) = takeWhile is_dot t"
  by (induction t) (auto dest: is_digit_key)

definition group_two :: "string list \<Rightarrow> string" where
  "group_two ms = concat (tl ms)"

lemma gap_match_value:
  assumes "list_ex is_digit s"
  shows "\<exists>g d v. gap_match s = Some [g, d, v] \<and> d @ v = takeWhile is_dot (dropWhile (\<lambda>c. \<not> is_digit c) s)"
proof -
  obtain ms where "gap_match s = Some ms" using assms gap_match_None [of s] by auto
  then show ?thesis
    by (auto simp: gap_match_def value_match_def takeWhile_digits_dot split: if_splits)
qed

text \<open>The last digit of a key without digits after it.\<close>

definition last_digit :: "string \<Rightarrow> nat" where
  "last_digit k = length k - length (takeWhile (\<lambda>c. \<not> is_digit c) (rev k)) - 1"

lemma last_digit_Cons:
  assumes "list_ex is_digit k"
  shows "last_digit (c # k) = Suc (last_digit k)"
proof -
  obtain d where d: "d \<in> set (rev k)" "is_digit d" using assms by (auto simp: list_ex_iff)
  have t: "takeWhile (\<lambda>c. \<not> is_digit c) (rev k @ [c]) = takeWhile (\<lambda>c. \<not> is_digit c) (rev k)"
    using d by (simp add: takeWhile_append1)
  have "takeWhile (\<lambda>c. \<not> is_digit c) (rev k) \<noteq> rev k" using d by (auto dest: set_takeWhileD)
  then have "length (takeWhile (\<lambda>c. \<not> is_digit c) (rev k)) < length k"
    using length_takeWhile_le [of "\<lambda>c. \<not> is_digit c" "rev k"]
    by (metis le_neq_implies_less length_rev takeWhile_eq_all_conv takeWhile_eq_take take_all_iff order_refl)
  then show ?thesis by (simp add: last_digit_def t)
qed

lemma last_digit_first: "\<not> list_ex is_digit k \<Longrightarrow> is_digit c \<Longrightarrow> last_digit (c # k) = 0"
proof -
  assume "\<not> list_ex is_digit k" "is_digit c"
  then have "takeWhile (\<lambda>c. \<not> is_digit c) (rev k @ [c]) = rev k"
    by (subst takeWhile_append2) (auto simp: list_ex_iff)
  then show ?thesis by (simp add: last_digit_def)
qed

lemma config_ref_alt:
  "config_ref s =
     (let k = takeWhile is_key s; r = dropWhile is_key s in
      if list_ex is_digit r then Some (k, takeWhile is_dot (dropWhile (\<lambda>c. \<not> is_digit c) r))
      else if list_ex is_digit k then Some (take (last_digit k) k, takeWhile is_dot (drop (last_digit k) k @ r))
      else None)"
  by (simp add: config_ref_def last_digit_def Let_def)

lemma gap_match_groups:
  "map_option group_two (gap_match s) =
     (if list_ex is_digit s then Some (takeWhile is_dot (dropWhile (\<lambda>c. \<not> is_digit c) s)) else None)"
proof (cases "list_ex is_digit s")
  case True
  then show ?thesis using gap_match_value [OF True] by (auto simp: group_two_def)
next
  case False
  then show ?thesis using gap_match_None by simp
qed

lemma gap_match_length: "gap_match s = Some ms \<Longrightarrow> length ms = 3"
  by (auto simp: gap_match_def value_match_def split: if_splits)

lemma key_match_length: "key_match s = Some (a, ms) \<Longrightarrow> length ms = 3"
proof (induction s arbitrary: a)
  case Nil
  then show ?case by (auto dest: gap_match_length)
next
  case (Cons c cs)
  then show ?case by (auto split: option.splits if_splits dest: gap_match_length)
qed

text \<open>The reference, one character at a time.\<close>

lemma config_ref_Nil: "config_ref [] = None"
  by (simp add: config_ref_alt)

lemma config_ref_Cons_stop:
  "\<not> is_key c \<Longrightarrow> config_ref (c # cs) = map_option (Pair []) (map_option group_two (gap_match (c # cs)))"
  by (simp add: config_ref_alt gap_match_groups Let_def)

lemma config_ref_Cons_key:
  assumes "is_key c"
  shows "config_ref (c # cs) =
    (case config_ref cs of
       Some (k, v) \<Rightarrow> Some (c # k, v)
     | None \<Rightarrow> map_option (Pair []) (map_option group_two (gap_match (c # cs))))"
proof -
  let ?k = "takeWhile is_key cs" and ?r = "dropWhile is_key cs"
  have ex: "list_ex is_digit cs \<longleftrightarrow> list_ex is_digit ?k \<or> list_ex is_digit ?r"
    by (metis list_ex_append takeWhile_dropWhile_id)
  consider "list_ex is_digit ?r" | "\<not> list_ex is_digit ?r" "list_ex is_digit ?k" | "\<not> list_ex is_digit cs" using ex by blast
  then show ?thesis
  proof cases
    case 1
    then show ?thesis using assms by (simp add: config_ref_alt Let_def)
  next
    case 2
    then show ?thesis using assms last_digit_Cons [OF 2(2), of c] by (simp add: config_ref_alt Let_def)
  next
    case 3
    then have n: "\<not> list_ex is_digit ?k" "\<not> list_ex is_digit ?r" using ex by blast+
    then have c0: "config_ref cs = None" by (simp add: config_ref_alt)
    show ?thesis
    proof (cases "is_digit c")
      case True
      have "last_digit (c # ?k) = 0" using last_digit_first [OF n(1) True] .
      then show ?thesis using True assms n c0 by (simp add: config_ref_alt Let_def gap_match_groups)
    next
      case False
      then show ?thesis using assms n c0 3 by (simp add: config_ref_alt Let_def gap_match_groups)
    qed
  qed
qed

lemma key_match_ref: "map_option (\<lambda>(a, ms). (a, group_two ms)) (key_match s) = config_ref s"
proof (induction s)
  case Nil
  then show ?case using gap_match_groups [of "[]"] by (simp add: config_ref_Nil)
next
  case (Cons c cs)
  show ?case
  proof (cases "is_key c")
    case True
    show ?thesis unfolding config_ref_Cons_key [OF True] Cons.IH [symmetric]
      using True by (cases "key_match cs") (auto simp: option.map_comp comp_def)
  next
    case False
    then show ?thesis by (simp add: config_ref_Cons_stop option.map_comp comp_def)
  qed
qed

lemma regex_search_config_ref: "regex_search s = config_ref s"
proof (cases "key_match s")
  case None
  then show ?thesis using key_match_ref [of s] by (simp add: regex_search_def match_key)
next
  case (Some r)
  then obtain a ms where r: "key_match s = Some (a, ms)" by (cases r) auto
  obtain g d w where ms: "ms = [g, d, w]"
    using key_match_length [OF r] by (auto simp: numeral_3_eq_3 length_Suc_conv)
  show ?thesis using key_match_ref [of s] r ms by (simp add: regex_search_def match_key group_two_def)
qed

text \<open>A key without separators, a separator without digits and a value that starts with a digit.\<close>

definition config_entry :: "string \<Rightarrow> string \<Rightarrow> string \<Rightarrow> bool" where
  "config_entry k sep v \<longleftrightarrow> list_all is_key k \<and> sep \<noteq> [] \<and> \<not> is_key (hd sep) \<and> list_all (\<lambda>c. \<not> is_digit c) sep \<and>
     v \<noteq> [] \<and> is_digit (hd v) \<and> list_all is_dot v \<and> list_all is_dot (k @ sep)"

lemma regex_search_entry:
  assumes "config_entry k sep v"
  shows "regex_search (k @ sep @ v) = Some (k, v)"
proof -
  obtain x sep' where sep: "sep = x # sep'" "\<not> is_key x" using assms by (cases sep) (auto simp: config_entry_def)
  obtain d v' where v: "v = d # v'" "is_digit d" using assms by (cases v) (auto simp: config_entry_def)
  have k: "takeWhile is_key (k @ sep @ v) = k" "dropWhile is_key (k @ sep @ v) = sep @ v"
    using assms sep by (auto simp: config_entry_def list_all_iff takeWhile_append2 dropWhile_append2)
  have r: "dropWhile (\<lambda>c. \<not> is_digit c) (sep @ v) = v" "list_ex is_digit (sep @ v)"
    using assms v by (auto simp: config_entry_def list_all_iff dropWhile_append2)
  have "takeWhile is_dot v = v" using assms by (simp add: config_entry_def list_all_iff takeWhile_eq_all_conv)
  then show ?thesis unfolding regex_search_config_ref config_ref_alt k by (simp only: Let_def r if_True)
qed

lemma read_lines_line:
  assumes "CHR 0x0A \<notin> set l"
  shows "read_lines (l @ CHR 0x0A # rest) c = read_lines rest (Parse_line (c\<lparr>cfg_buf := l\<rparr>))"
proof -
  have "takeWhile (\<lambda>x. x \<noteq> CHR 0x0A) (l @ CHR 0x0A # rest) = l" "dropWhile (\<lambda>x. x \<noteq> CHR 0x0A) (l @ CHR 0x0A # rest) = CHR 0x0A # rest"
    using assms by (induction l) auto
  then show ?thesis by (subst read_lines.simps) simp
qed

lemma read_lines_last:
  assumes "CHR 0x0A \<notin> set l" "l \<noteq> []"
  shows "read_lines l c = Parse_line (c\<lparr>cfg_buf := l\<rparr>)"
proof -
  have l: "takeWhile (\<lambda>x. x \<noteq> CHR 0x0A) l = l" "dropWhile (\<lambda>x. x \<noteq> CHR 0x0A) l = []" using assms(1) by (induction l) auto
  have nil: "read_lines [] d = d" for d by (subst read_lines.simps) simp
  show ?thesis using assms(2) by (subst read_lines.simps) (simp only: l drop_Nil nil if_False)
qed

lemma read_lines_ref:
  assumes "\<forall>l \<in> set (rest # ls). CHR 0x0A \<notin> set l"
  shows "mp (read_lines (concat (map (\<lambda>l. l @ [CHR 0x0A]) ls) @ rest) c) =
    mp c ++ map_of (rev (List.map_filter config_ref (ls @ [rest])))"
  using assms
proof (induction ls arbitrary: c)
  case Nil
  have "config_ref [] = None" by (rule config_ref_Nil)
  then show ?case
  proof (cases "rest = []")
    case False
    then show ?thesis using read_lines_last [of rest c] Nil.prems
      by (cases "config_ref rest") (auto simp: Parse_line_def regex_search_config_ref List.map_filter_def map_add_def fun_eq_iff)
  qed (subst read_lines.simps, simp add: List.map_filter_def)
next
  case (Cons l ls)
  let ?c = "Parse_line (c\<lparr>cfg_buf := l\<rparr>)"
  have "read_lines (concat (map (\<lambda>l. l @ [CHR 0x0A]) (l # ls)) @ rest) c = read_lines (concat (map (\<lambda>l. l @ [CHR 0x0A]) ls) @ rest) ?c"
    using read_lines_line [of l "concat (map (\<lambda>l. l @ [CHR 0x0A]) ls) @ rest" c] Cons.prems by simp
  moreover have "List.map_filter config_ref ((l # ls) @ [rest]) = List.map_filter config_ref [l] @ List.map_filter config_ref (ls @ [rest])"
    by (simp add: List.map_filter_def)
  moreover have "mp ?c = mp c ++ map_of (rev (List.map_filter config_ref [l]))"
    by (cases "config_ref l") (auto simp: Parse_line_def regex_search_config_ref List.map_filter_def map_add_def fun_eq_iff)
  ultimately show ?case using Cons.IH [of ?c] Cons.prems by (simp only: rev_append map_of_append map_add_assoc) simp
qed

lemma gap_value:
  assumes "map_option group_two (gap_match s) = Some v"
  shows "v \<noteq> [] \<and> is_digit (hd v)"
proof -
  have s: "list_ex is_digit s" "v = takeWhile is_dot (dropWhile (\<lambda>c. \<not> is_digit c) s)"
    using assms by (auto simp: gap_match_groups split: if_splits)
  then have "dropWhile (\<lambda>c. \<not> is_digit c) s \<noteq> []" by (auto simp: list_ex_iff dropWhile_eq_Nil_conv)
  then obtain d ds where d: "dropWhile (\<lambda>c. \<not> is_digit c) s = d # ds" by (cases "dropWhile (\<lambda>c. \<not> is_digit c) s") auto
  have "is_digit d" using hd_dropWhile [of "\<lambda>c. \<not> is_digit c" s] d by simp
  moreover from this have "is_dot d" by (auto simp: is_digit_def is_dot_def)
  ultimately show ?thesis by (simp add: s(2) d)
qed

lemma config_ref_value:
  assumes "config_ref l = Some (k, v)"
  shows "v \<noteq> [] \<and> is_digit (hd v)"
  using assms
proof (induction l arbitrary: k)
  case Nil
  then show ?case by (simp add: config_ref_Nil)
next
  case (Cons c cs)
  have g: "v \<noteq> [] \<and> is_digit (hd v)" if "map_option (Pair []) (map_option group_two (gap_match (c # cs))) = Some (k, v)" for k
    using that gap_value by auto
  show ?case
  proof (cases "is_key c")
    case True
    then show ?thesis using Cons.prems Cons.IH g by (auto simp: config_ref_Cons_key split: option.splits)
  next
    case False
    then show ?thesis using Cons.prems g unfolding config_ref_Cons_stop [OF False] by blast
  qed
qed

lemma config_ref_no_digit: "\<not> list_ex is_digit l \<Longrightarrow> config_ref l = None"
proof -
  assume n: "\<not> list_ex is_digit l"
  have "list_ex is_digit (takeWhile is_key l) = False" "list_ex is_digit (dropWhile is_key l) = False"
    using n by (auto simp: list_ex_iff dest: set_takeWhileD set_dropWhileD)
  then show ?thesis by (simp add: config_ref_alt)
qed

lemma textual_value_ignored:
  assumes "list_all (\<lambda>c. \<not> is_digit c) (cfg_buf c)"
  shows "Parse_line c = c"
  using config_ref_no_digit [of "cfg_buf c"] assms
  by (simp add: Parse_line_def regex_search_config_ref list_all_iff list_ex_iff)

section \<open>Properties\<close>

text \<open>
  C30. The regular expression of \<open>Parse_line\<close> does what the reference says on every line: the
  backtracking match, with every choice tried longest first, extracts exactly the longest
  prefix without space and equals sign and the text from the first digit after it to the end
  of the line, or splits the key at its last digit when no digit follows, or fails when the
  line has no digit.
\<close>

theorem regex_search_ref: "regex_search s = config_ref s"
  by (rule regex_search_config_ref)

text \<open>
  C31. What \<open>PullConfig\<close> makes of a file, whatever it contains (lines ended by a newline, and perhaps
  a last one that is not): each line adds what the reference extracts from it, if anything,
  later lines overriding earlier ones. A line of a key without space and equals sign, a separator that
  begins with one of them and has no digit, and a value that begins with a digit adds the value
  under the key. A line without a digit adds nothing, and every stored value begins with a digit:
  a textual value such as a server name is never read, or loses what stands before its first digit.
\<close>

theorem PullConfig_spec:
  assumes "\<forall>l \<in> set (rest # ls). CHR 0x0A \<notin> set l"
  shows "(\<exists>c'. PullConfig (Some (concat (map (\<lambda>l. l @ [CHR 0x0A]) ls) @ rest)) c = (True, c') \<and>
      mp c' = mp c ++ map_of (rev (List.map_filter config_ref (ls @ [rest])))) \<and>
    (\<forall>k sep v. config_entry k sep v \<longrightarrow> config_ref (k @ sep @ v) = Some (k, v)) \<and>
    (\<forall>l. \<not> list_ex is_digit l \<longrightarrow> config_ref l = None) \<and>
    (\<forall>l k v. config_ref l = Some (k, v) \<longrightarrow> v \<noteq> [] \<and> is_digit (hd v)) \<and>
    PullConfig None c = (False, c)"
proof (intro conjI allI impI)
  show "\<exists>c'. PullConfig (Some (concat (map (\<lambda>l. l @ [CHR 0x0A]) ls) @ rest)) c = (True, c') \<and>
      mp c' = mp c ++ map_of (rev (List.map_filter config_ref (ls @ [rest])))"
    using read_lines_ref [OF assms, of c] by (simp add: PullConfig_def)
  show "config_ref (k @ sep @ v) = Some (k, v)" if "config_entry k sep v" for k sep v
    using regex_search_entry [OF that] by (simp add: regex_search_config_ref)
  show "config_ref l = None" if "\<not> list_ex is_digit l" for l using that by (rule config_ref_no_digit)
  show "v \<noteq> []" "is_digit (hd v)" if "config_ref l = Some (k, v)" for l k v using config_ref_value [OF that] by simp_all
  show "PullConfig None c = (False, c)" by (simp add: PullConfig_def)
qed

definition example_lines :: "string list" where
  "example_lines = [''server_listen_port = 8000'', ''# comment'', ''server_name=echo'', ''server_thread_num=4'']"

theorem PullConfig_spec_witness:
  "\<exists>c. PullConfig (Some (concat (map (\<lambda>l. l @ [CHR 0x0A]) example_lines))) Config_ctor = (True, c) \<and>
     mp c ''server_listen_port'' = Some ''8000'' \<and> mp c ''server_thread_num'' = Some ''4'' \<and> mp c ''server_name'' = None"
proof -
  have ok: "\<forall>l \<in> set ([] # example_lines). CHR 0x0A \<notin> set l" by (simp add: example_lines_def)
  note spec = PullConfig_spec [OF ok, where c = Config_ctor]
  have e: "config_entry ''server_listen_port'' '' = '' ''8000''" "config_entry ''server_thread_num'' ''='' ''4''"
    by (simp_all add: config_entry_def is_key_def is_digit_def is_dot_def)
  have "config_ref (''server_listen_port'' @ '' = '' @ ''8000'') = Some (''server_listen_port'', ''8000'')"
    "config_ref (''server_thread_num'' @ ''='' @ ''4'') = Some (''server_thread_num'', ''4'')" using spec e by blast+
  moreover have "config_ref ''# comment'' = None" "config_ref ''server_name=echo'' = None" "config_ref [] = None"
    using spec by (simp_all add: is_digit_def)
  ultimately have "List.map_filter config_ref (example_lines @ [[]]) =
      [(''server_listen_port'', ''8000''), (''server_thread_num'', ''4'')]"
    by (simp add: example_lines_def List.map_filter_def)
  with spec show ?thesis by (auto simp: Config_ctor_def)
qed

end
