(* ===== verification/Echo_Server.thy ===== *)
theory Echo_Server
  imports Poll_Poller Acceptor Config
begin

text \<open>
  The servers of \<^verbatim>\<open>example/echo_server.cc\<close> and \<^verbatim>\<open>example/pingpong_server.cc\<close>: their callbacks on
  a connection of the library, and what the configuration file makes of the echo server. The
  callbacks run in the loop thread of their connection. The callbacks
  other than \<open>OnMessage\<close> only log; the text they log is a definition of its own.
\<close>

section \<open>The callbacks\<close>

text \<open>
  What \<open>OnConnection\<close> and \<open>OnWriteComplete\<close> log (the text of the latter is in UTF-8).
\<close>

definition OnConnection :: "sockaddr_in \<Rightarrow> 's connection \<Rightarrow> string" where
  "OnConnection peer c = (if Connected c then ''conn UP: '' else ''conn DOWN: '') @ ToIpPort peer"

definition from_text :: string where
  "from_text = [CHR 0xE6, CHR 0x9D, CHR 0xA5, CHR 0xE8, CHR 0x87, CHR 0xAA, CHR 0x20]"

definition done_text :: string where
  "done_text = [CHR 0x20, CHR 0xE7, CHR 0x9A, CHR 0x84, CHR 0xE5, CHR 0xAE, CHR 0xA2, CHR 0xE6, CHR 0x88, CHR 0xB7,
    CHR 0xE7, CHR 0xAB, CHR 0xAF, CHR 0xE8, CHR 0xAF, CHR 0xB7, CHR 0xE6, CHR 0xB1, CHR 0x82, CHR 0xE5,
    CHR 0xB7, CHR 0xB2, CHR 0xE5, CHR 0xA4, CHR 0x84, CHR 0xE7, CHR 0x90, CHR 0x86, CHR 0xE5, CHR 0xAE,
    CHR 0x8C, CHR 0xE6, CHR 0xAF, CHR 0x95, CHR 0xEF, CHR 0xBC, CHR 0x81]"

definition OnWriteComplete :: "sockaddr_in \<Rightarrow> string" where
  "OnWriteComplete peer = from_text @ ToIpPort peer @ done_text"

text \<open>As the connection sees them, these two do nothing.\<close>

definition other_callbacks :: "'s callbacks" where
  "other_callbacks e c = Inr c"

text \<open>\<open>p\<close> is where the characters of the local string \<open>msg\<close> are.\<close>

definition OnMessage :: "'s poller_ops \<Rightarrow> write_call \<Rightarrow> ptr \<Rightarrow> 's connection \<Rightarrow> 's connection res" where
  "OnMessage P write p c =
     res_bind (RetriveAllAsString (input_buffer c)) (\<lambda>(msg, b).
     res_bind (Send_string P other_callbacks write True p (c\<lparr>input_buffer := b, strings := (strings c)(p \<mapsto> msg)\<rparr>)) (\<lambda>c1.
       Inr (c1\<lparr>strings := (strings c1)(p := None)\<rparr>)))"

definition echo_callbacks :: "'s poller_ops \<Rightarrow> write_call \<Rightarrow> ptr \<Rightarrow> 's callbacks" where
  "echo_callbacks P write p e c = (case e of MessageCallback \<Rightarrow> OnMessage P write p c | _ \<Rightarrow> other_callbacks e c)"

section \<open>Runs\<close>

text \<open>
  One step of a connection of the server, with all bytes the kernel has delivered to it before
  and after; \<open>echo_op\<close> is the traffic, \<open>echo_step\<close> adds its beginning and its end. Each event comes with its
  own outcomes of \<open>readv\<close> and \<open>write\<close>; buffers stay below the largest vector. No \<open>write\<close> of an answer reports
  that the peer is gone (\<open>EPIPE\<close>, \<open>ECONNRESET\<close>), when \<open>SendInLoop\<close> drops it, and nothing is read after the end. A connection is destroyed
  once the server has dropped it.
\<close>

inductive echo_op :: "'s poller_ops \<Rightarrow> bytes \<Rightarrow> 's connection \<Rightarrow> bytes \<Rightarrow> 's connection \<Rightarrow> bool"
  for P recv c where
  echo_read: "state c = kConnected \<Longrightarrow> own_channel P c = Inr ch \<Longrightarrow>
    readv_contract readv \<Longrightarrow> write_contract write \<Longrightarrow> room 131070 (input_buffer c) \<Longrightarrow>
    readv (ch_fd ch) (read_iov (input_buffer c)) = Inr bs \<Longrightarrow> bs \<noteq> [] \<Longrightarrow>
    room (length bs) (output_buffer c) \<Longrightarrow> \<not> write_fails P write bs c \<Longrightarrow>
    conn_HandleRead P (echo_callbacks P write p) readv so c = Inr c' \<Longrightarrow> echo_op P recv c (recv @ bs) c'"
| echo_read_error: "state c = kConnected \<Longrightarrow> own_channel P c = Inr ch \<Longrightarrow>
    readv_contract readv \<Longrightarrow> room 131070 (input_buffer c) \<Longrightarrow>
    readv (ch_fd ch) (read_iov (input_buffer c)) = Inl e \<Longrightarrow>
    conn_HandleRead P (echo_callbacks P write p) readv so c = Inr c' \<Longrightarrow> echo_op P recv c recv c'"
| echo_write: "state c = kConnected \<Longrightarrow> write_contract write \<Longrightarrow>
    conn_HandleWrite P write c = Inr c' \<Longrightarrow> echo_op P recv c recv c'"
| echo_complete: "tasks c = t # ts \<Longrightarrow>
    run_task P (echo_callbacks P write p) write t (c\<lparr>tasks := ts\<rparr>) = Inr c' \<Longrightarrow> echo_op P recv c recv c'"
| echo_error: "echo_op P recv c recv (conn_HandleError so c)"

inductive echo_step :: "'s poller_ops \<Rightarrow> 's poller_view \<Rightarrow> bytes \<Rightarrow> 's connection \<Rightarrow> bytes \<Rightarrow> 's connection \<Rightarrow> bool"
  for P V recv c where
  echo_established: "state c = kConnecting \<Longrightarrow>
    ConnectionEstablished P (echo_callbacks P write p) self c = Inr c' \<Longrightarrow> echo_step P V recv c recv c'"
| echo_traffic: "echo_op P recv c recv' c' \<Longrightarrow> echo_step P V recv c recv' c'"
| echo_read_end: "state c = kConnected \<Longrightarrow> own_channel P c = Inr ch \<Longrightarrow>
    readv_contract readv \<Longrightarrow> room 131070 (input_buffer c) \<Longrightarrow>
    readv (ch_fd ch) (read_iov (input_buffer c)) = Inr [] \<Longrightarrow>
    conn_HandleRead P (echo_callbacks P write p) readv so c = Inr c' \<Longrightarrow> echo_step P V recv c recv c'"
| echo_close: "state c = kConnected \<Longrightarrow>
    conn_HandleClose P (echo_callbacks P write p) c = Inr c' \<Longrightarrow> echo_step P V recv c recv c'"
| echo_destroyed: "state c \<noteq> kConnecting \<Longrightarrow> pv_registered V (poller_of c) (conn_chan c) \<Longrightarrow>
    ConnectionDestroyed P (echo_callbacks P write p) c = Inr c' \<Longrightarrow> echo_step P V recv c recv c'"

text \<open>A connection of the server from its construction on.\<close>

inductive echo_run :: "'s poller_ops \<Rightarrow> 's poller_view \<Rightarrow> bytes \<Rightarrow> 's connection \<Rightarrow> bool" for P V where
  echo_start: "pv_inv V s \<Longrightarrow> po_chans P s q = None \<Longrightarrow> pv_fd_free V s fd \<Longrightarrow>
    TcpConnection_ctor P (Some s) q fd = Inr c \<Longrightarrow> echo_run P V [] (c\<lparr>write_complete_set := w\<rparr>)"
| echo_next: "echo_run P V recv c \<Longrightarrow> echo_step P V recv c recv' c' \<Longrightarrow> echo_run P V recv' c'"

text \<open>What every such run keeps: nothing unread, nothing lost, only write-complete functors queued.\<close>

definition echo_inv :: "'s poller_ops \<Rightarrow> 's poller_view \<Rightarrow> bytes \<Rightarrow> 's connection \<Rightarrow> bool" where
  "echo_inv P V recv c \<longleftrightarrow> conn_inv P V c \<and> state c \<noteq> kDisconnecting \<and>
     readable (input_buffer c) = [] \<and> stream c = recv \<and> set (tasks c) \<subseteq> {WriteCompleteTask}"

lemma other_callbacks_quiet [simp]: "other_callbacks e c = Inr c"
  by (simp add: other_callbacks_def)

lemma echo_callbacks_simps [simp]:
  "echo_callbacks P write p MessageCallback c = OnMessage P write p c"
  "e \<noteq> MessageCallback \<Longrightarrow> echo_callbacks P write p e c = Inr c"
  by (cases e; simp add: echo_callbacks_def)+

lemma RetriveAllAsString_ok:
  assumes "buf_inv b"
  shows "\<exists>b'. RetriveAllAsString b = Inr (readable b, b') \<and> buf_inv b' \<and> readable b' = []"
proof -
  have n: "unat (ReadableBytes b) = length (readable b)" using length_readable [OF assms] by simp
  show ?thesis using RetriveAsString_ok [OF assms order_refl] Retrive_ok [OF assms, of "ReadableBytes b"] n
    by (simp add: RetriveAllAsString_def)
qed

context conn_loop
begin

text \<open>With callbacks that do not touch the connection \<open>SendInLoop\<close> is exact.\<close>

lemma send_queue_exact:
  assumes "conn_inv P V c" "open_state (state c)" "room (length data) (output_buffer c)"
  shows "\<exists>b s. (if 0 < length data then send_queue P data c else Inr c) = Inr (c\<lparr>output_buffer := b, poller_of := s\<rparr>) \<and>
    conn_inv P V (c\<lparr>output_buffer := b, poller_of := s\<rparr>) \<and> readable b = readable (output_buffer c) @ data"
proof (cases "data = []")
  case True
  then show ?thesis using assms(1) by (intro exI [of _ "output_buffer c"] exI [of _ "poller_of c"]) simp
next
  case False
  then show ?thesis using send_queue_ok [OF assms(1,2) False assms(3) [unfolded room_def]] by auto
qed

lemma SendInLoop_quiet:
  assumes "conn_inv P V c" "open_state (state c)" "write_contract write" "room (length data) (output_buffer c)"
    "\<not> write_fails P write data c" "\<And>c. cb WriteCompleteCallback c = Inr c"
  shows "\<exists>so b s. SendInLoop P cb write data c = Inr (c\<lparr>sock_out := so, output_buffer := b, poller_of := s\<rparr>) \<and>
    conn_inv P V (c\<lparr>sock_out := so, output_buffer := b, poller_of := s\<rparr>) \<and> so @ readable b = stream c @ data"
proof -
  from conn_inv_openD [OF assms(1,2)] obtain ch where ch: "own_channel P c = Inr ch"
    "IsWriting ch \<longleftrightarrow> readable (output_buffer c) \<noteq> []" "buf_inv (output_buffer c)" .
  have st: "state c \<noteq> kDisconnected" using assms(2) by (auto simp: open_state_def)
  have empty: "ReadableBytes (output_buffer c) = 0 \<longleftrightarrow> readable (output_buffer c) = []"
    using ch(3) by (rule ReadableBytes_zero)
  have queued: "\<exists>b s. SendInLoop P cb write data c = Inr (c\<lparr>sock_out := sock_out c @ take n data, output_buffer := b, poller_of := s\<rparr>) \<and>
      conn_inv P V (c\<lparr>sock_out := sock_out c @ take n data, output_buffer := b, poller_of := s\<rparr>) \<and>
      readable b = readable (output_buffer c) @ drop n data"
    if S: "SendInLoop P cb write data c =
        (if 0 < length (drop n data) then send_queue P (drop n data) (c\<lparr>sock_out := sock_out c @ take n data\<rparr>)
         else Inr (c\<lparr>sock_out := sock_out c @ take n data\<rparr>))" for n
    using send_queue_exact [of "c\<lparr>sock_out := sock_out c @ take n data\<rparr>" "drop n data"] assms(1,2,4) unfolding S
    by (auto simp: room_def)
  show ?thesis
  proof (cases "readable (output_buffer c) = []")
    case False
    then have "SendInLoop P cb write data c =
        (if 0 < length (drop 0 data) then send_queue P (drop 0 data) (c\<lparr>sock_out := sock_out c @ take 0 data\<rparr>)
         else Inr (c\<lparr>sock_out := sock_out c @ take 0 data\<rparr>))"
      using ch st by (simp add: SendInLoop_def)
    from queued [OF this] obtain b s where
      "SendInLoop P cb write data c = Inr (c\<lparr>output_buffer := b, poller_of := s\<rparr>)"
      "conn_inv P V (c\<lparr>output_buffer := b, poller_of := s\<rparr>)" "readable b = readable (output_buffer c) @ data" by auto
    then show ?thesis by (intro exI [of _ "sock_out c"] exI [of _ b] exI [of _ s]) (simp add: stream_def)
  next
    case idle: True
    have "\<exists>n. n \<le> length data \<and> SendInLoop P cb write data c =
        (if 0 < length (drop n data) then send_queue P (drop n data) (c\<lparr>sock_out := sock_out c @ take n data\<rparr>)
         else Inr (c\<lparr>sock_out := sock_out c @ take n data\<rparr>))"
    proof (cases "write (ch_fd ch) data")
      case (Inl e)
      then have "e \<notin> {EPIPE, ECONNRESET}" using assms(5) idle ch(1) by (auto simp: write_fails_def)
      then show ?thesis using Inl idle ch st empty
        by (intro exI [of _ 0]) (simp add: SendInLoop_def send_direct_def)
    next
      case (Inr n)
      then have "n \<le> length data" using assms(3) by (auto simp: write_contract_def)
      then show ?thesis using Inr idle ch st empty assms(6)
        by (intro exI [of _ n]) (simp add: SendInLoop_def send_direct_def Let_def)
    qed
    then obtain n where n: "SendInLoop P cb write data c =
        (if 0 < length (drop n data) then send_queue P (drop n data) (c\<lparr>sock_out := sock_out c @ take n data\<rparr>)
         else Inr (c\<lparr>sock_out := sock_out c @ take n data\<rparr>))" by blast
    from queued [OF n] obtain b s where
      "SendInLoop P cb write data c = Inr (c\<lparr>sock_out := sock_out c @ take n data, output_buffer := b, poller_of := s\<rparr>)"
      "conn_inv P V (c\<lparr>sock_out := sock_out c @ take n data, output_buffer := b, poller_of := s\<rparr>)"
      "readable b = drop n data" using idle by auto
    then show ?thesis using idle
      by (intro exI [of _ "sock_out c @ take n data"] exI [of _ b] exI [of _ s]) (simp add: stream_def)
  qed
qed

end

lemma conn_set_input: "conn_set P f c = Inr c' \<Longrightarrow> input_buffer c' = input_buffer c"
  by (auto simp: conn_set_def res_bind_eq_Inr)

lemma ShutdownInLoop_input: "ShutdownInLoop P c = Inr c' \<Longrightarrow> input_buffer c' = input_buffer c"
  by (auto simp: ShutdownInLoop_def ShutdownWrite_def res_bind_eq_Inr split: if_splits)

lemma HandleWrite_input:
  assumes "conn_HandleWrite P write c = Inr c'"
  shows "input_buffer c' = input_buffer c"
proof (cases "own_channel P c")
  case (Inl e)
  then show ?thesis using assms by (simp add: conn_HandleWrite_def)
next
  case (Inr ch)
  show ?thesis
  proof (cases "IsWriting ch")
    case True
    obtain n err where w: "WriteFd write (ch_fd ch) (output_buffer c) = Inr (n, err)"
      using assms Inr True by (cases "WriteFd write (ch_fd ch) (output_buffer c)") (auto simp: conn_HandleWrite_def)
    define c1 where "c1 = c\<lparr>sock_out := sock_out c @ take (nat n) (readable (output_buffer c)),
      output_buffer := Retrive (word_of_int n) (output_buffer c)\<rparr>"
    have i: "input_buffer c1 = input_buffer c" by (simp add: c1_def)
    have "input_buffer c' = input_buffer c1"
      if "res_bind (conn_set P disable_write c1) (\<lambda>c2.
             let c3 = (if write_complete_set c2 then queue_task WriteCompleteTask c2 else c2) in
             if state c3 = kDisconnecting then ShutdownInLoop P c3 else Inr c3) = Inr c'"
    proof -
      obtain c2 where c2: "conn_set P disable_write c1 = Inr c2"
        "(let c3 = (if write_complete_set c2 then queue_task WriteCompleteTask c2 else c2) in
             if state c3 = kDisconnecting then ShutdownInLoop P c3 else Inr c3) = Inr c'"
        using \<open>res_bind _ _ = Inr c'\<close> by (auto simp: res_bind_eq_Inr)
      define c3 where "c3 = (if write_complete_set c2 then queue_task WriteCompleteTask c2 else c2)"
      have "input_buffer c3 = input_buffer c1" using conn_set_input [OF c2(1)] by (simp add: c3_def queue_task_def)
      moreover have "(if state c3 = kDisconnecting then ShutdownInLoop P c3 else Inr c3) = Inr c'"
        using c2(2) unfolding c3_def Let_def .
      ultimately show ?thesis using ShutdownInLoop_input [of P c3 c'] by (cases "state c3 = kDisconnecting") simp_all
    qed
    then show ?thesis using assms Inr True w i unfolding conn_HandleWrite_def c1_def [symmetric]
      by (auto simp: Let_def c1_def [symmetric] split: if_splits)
  qed (use assms Inr in \<open>simp add: conn_HandleWrite_def\<close>)
qed

text \<open>One message through the server: read from the input buffer, given to \<open>Send\<close>.\<close>

context conn_loop
begin

lemma OnMessage_ok:
  assumes "conn_inv P V c" "state c = kConnected" "write_contract write" "readable (input_buffer c) = bs"
    "room (length bs) (output_buffer c)" "\<not> write_fails P write bs c"
  shows "\<exists>c'. OnMessage P write p c = Inr c' \<and> conn_inv P V c' \<and> state c' = kConnected \<and>
    readable (input_buffer c') = [] \<and> stream c' = stream c @ bs \<and> tasks c' = tasks c \<and> conn_chan c' = conn_chan c"
proof -
  have "buf_inv (input_buffer c)" using conn_invD [OF assms(1)] .
  then obtain b where b: "RetriveAllAsString (input_buffer c) = Inr (bs, b)" "buf_inv b" "readable b = []"
    using RetriveAllAsString_ok assms(4) by blast
  let ?c = "c\<lparr>input_buffer := b, strings := (strings c)(p \<mapsto> bs)\<rparr>"
  have inv: "conn_inv P V ?c" using conn_inv_input [OF assms(1) b(2)] by simp
  have open': "open_state (state ?c)" using assms(2) by (simp add: open_state_def)
  have wf: "\<not> write_fails P write bs ?c" using assms(6) by (simp add: write_fails_def own_channel_def)
  obtain so ob s where S: "SendInLoop P other_callbacks write bs ?c = Inr (?c\<lparr>sock_out := so, output_buffer := ob, poller_of := s\<rparr>)"
    "conn_inv P V (?c\<lparr>sock_out := so, output_buffer := ob, poller_of := s\<rparr>)" "so @ readable ob = stream ?c @ bs"
    using SendInLoop_quiet [OF inv open' assms(3) _ wf, of other_callbacks] assms(5) by auto
  let ?d = "?c\<lparr>sock_out := so, output_buffer := ob, poller_of := s\<rparr>"
  have e: "OnMessage P write p c = Inr (?d\<lparr>strings := (strings ?d)(p := None)\<rparr>)"
    using b(1) S(1) assms(2) by (simp add: OnMessage_def Send_string_def)
  have "conn_inv P V (?d\<lparr>strings := (strings ?d)(p := None)\<rparr>)" using S(2) conn_inv_frame(3) by blast
  moreover have "stream (?d\<lparr>strings := (strings ?d)(p := None)\<rparr>) = stream c @ bs"
    using S(3) by (simp add: stream_def)
  ultimately show ?thesis unfolding e using b(3) assms(2) by simp
qed

lemma echo_read_ok:
  assumes inv: "echo_inv P V recv c" and "state c = kConnected" and ch: "own_channel P c = Inr ch"
    and "readv_contract readv" "write_contract write" "room 131070 (input_buffer c)"
    and r: "readv (ch_fd ch) (read_iov (input_buffer c)) = Inr bs" "bs \<noteq> []"
    and "room (length bs) (output_buffer c)" "\<not> write_fails P write bs c"
  shows "\<exists>c'. conn_HandleRead P (echo_callbacks P write p) readv so c = Inr c' \<and> state c' = kConnected \<and>
    echo_inv P V (recv @ bs) c' \<and> conn_chan c' = conn_chan c"
proof -
  have i: "conn_inv P V c" "readable (input_buffer c) = []" "stream c = recv" "set (tasks c) \<subseteq> {WriteCompleteTask}"
    using inv by (auto simp: echo_inv_def)
  obtain b where b: "readable b = bs" "conn_inv P V (c\<lparr>input_buffer := b\<rparr>)"
    "conn_HandleRead P (echo_callbacks P write p) readv so c = OnMessage P write p (c\<lparr>input_buffer := b\<rparr>)"
    using HandleRead_ok [OF i(1) ch assms(4) assms(6) [unfolded room_def], of "echo_callbacks P write p" so] r i(2) by auto
  have wf: "\<not> write_fails P write bs (c\<lparr>input_buffer := b\<rparr>)"
    using assms(10) by (simp add: write_fails_def own_channel_def)
  obtain c' where "OnMessage P write p (c\<lparr>input_buffer := b\<rparr>) = Inr c'" "conn_inv P V c'" "state c' = kConnected"
    "readable (input_buffer c') = []" "stream c' = stream c @ bs" "tasks c' = tasks c"
    "conn_chan c' = conn_chan c"
    using OnMessage_ok [OF b(2) _ assms(5) _ _ wf, of p] assms(2,9) b(1) by auto
  then show ?thesis using b(3) i by (simp add: echo_inv_def)
qed

lemma echo_write_ok:
  assumes inv: "echo_inv P V recv c" and "state c = kConnected" "write_contract write"
  shows "\<exists>c'. conn_HandleWrite P write c = Inr c' \<and> state c' = kConnected \<and> echo_inv P V recv c' \<and>
    (case own_channel P c of Inl _ \<Rightarrow> False | Inr ch \<Rightarrow>
       sock_out c' = sock_out c @ (case write (ch_fd ch) (readable (output_buffer c)) of
         Inl e \<Rightarrow> [] | Inr n \<Rightarrow> take n (readable (output_buffer c))))"
proof -
  have i: "conn_inv P V c" "open_state (state c)" using inv assms(2) by (auto simp: echo_inv_def open_state_def)
  obtain ch where ch: "own_channel P c = Inr ch" "IsWriting ch \<longleftrightarrow> readable (output_buffer c) \<noteq> []"
    using conn_inv_openD [OF i] .
  show ?thesis
  proof (cases "readable (output_buffer c) = []")
    case True
    then show ?thesis using ch inv assms(2) by (auto simp: conn_HandleWrite_def split: sum.split)
  next
    case False
    show ?thesis
    proof (cases "write (ch_fd ch) (readable (output_buffer c))")
      case (Inl e)
      then show ?thesis using HandleWrite_ok [OF i assms(3) ch(1) refl False] ch inv assms(2) by simp
    next
      case (Inr n)
      then obtain c' where c': "conn_HandleWrite P write c = Inr c'" "conn_inv P V c'" "state c' = state c" "stream c' = stream c"
        "sock_out c' = sock_out c @ take n (readable (output_buffer c))"
        "tasks c' = (if n = length (readable (output_buffer c)) \<and> write_complete_set c then tasks c @ [WriteCompleteTask] else tasks c)"
        using HandleWrite_ok [OF i assms(3) ch(1) refl False] by auto
      have "set (tasks c') \<subseteq> {WriteCompleteTask}" using c'(6) inv by (auto simp: echo_inv_def split: if_splits)
      then show ?thesis using c' HandleWrite_input [OF c'(1)] Inr ch(1) inv assms(2) by (simp add: echo_inv_def)
    qed
  qed
qed

end

lemma conn_inv_write_complete [simp]: "conn_inv P V (c\<lparr>write_complete_set := w\<rparr>) = conn_inv P V c"
  by (simp add: conn_inv_def conn_state_ok_def cong: conn_state.case_cong)

context conn_loop
begin

lemma echo_close_ok:
  assumes "echo_inv P V recv c" "state c = kConnected" "conn_HandleClose P (echo_callbacks P write p) c = Inr c'"
  shows "echo_inv P V recv c'"
proof -
  have i: "conn_inv P V c" "open_state (state c)" using assms(1,2) by (auto simp: echo_inv_def open_state_def)
  have "pv_registered V (poller_of c) (conn_chan c)" using conn_inv_openD [OF i] .
  from close_channel [OF i(1) this] obtain s where
    "conn_set P disable_all (c\<lparr>state := kDisconnected\<rparr>) = Inr (c\<lparr>state := kDisconnected, poller_of := s\<rparr>)"
    "conn_inv P V (c\<lparr>state := kDisconnected, poller_of := s\<rparr>)" .
  then show ?thesis using assms(1,3) by (simp add: conn_HandleClose_def echo_inv_def) auto
qed

lemma echo_destroyed_ok:
  assumes inv: "echo_inv P V recv c" and r: "state c \<noteq> kConnecting" "pv_registered V (poller_of c) (conn_chan c)"
    and d: "ConnectionDestroyed P (echo_callbacks P write p) c = Inr c'"
  shows "echo_inv P V recv c'"
proof -
  have i: "conn_inv P V c" "state c = kConnected \<or> state c = kDisconnected"
    using inv r(1) by (cases "state c"; simp add: echo_inv_def)+
  have q: "ConnectionDestroyed P quiet_cb c = Inr c'"
    using d by (auto simp: ConnectionDestroyed_def quiet_cb_def res_bind_eq_Inr split: if_splits)
  have "stream c' = stream c \<and> tasks c' = tasks c \<and> input_buffer c' = input_buffer c"
    using q by (auto simp: ConnectionDestroyed_def conn_remove_def conn_set_def quiet_cb_def res_bind_eq_Inr split: if_splits)
  moreover have "conn_inv P V c' \<and> state c' = kDisconnected"
    using ConnectionDestroyed_ok [OF i r(2) quiet_cb_ok] q by auto
  ultimately show ?thesis using inv by (simp add: echo_inv_def)
qed

lemma echo_end_ok:
  assumes inv: "echo_inv P V recv c" and st: "state c = kConnected" and ch: "own_channel P c = Inr ch"
    and r: "readv_contract readv" "room 131070 (input_buffer c)"
    "\<forall>bs. readv (ch_fd ch) (read_iov (input_buffer c)) = Inr bs \<longrightarrow> bs = []"
    "conn_HandleRead P (echo_callbacks P write p) readv so c = Inr c'"
  shows "echo_inv P V recv c'"
proof -
  have i: "conn_inv P V c" "readable (input_buffer c) = []" using inv by (simp_all add: echo_inv_def)
  note R = HandleRead_ok [OF i(1) ch r(1) r(2) [unfolded room_def], of "echo_callbacks P write p" so]
  show ?thesis
  proof (cases "readv (ch_fd ch) (read_iov (input_buffer c))")
    case (Inl e)
    then show ?thesis using R r(4) inv by (auto simp: echo_inv_def conn_HandleError_def)
  next
    case (Inr bs)
    then obtain b where b: "readable b = []" "conn_inv P V (c\<lparr>input_buffer := b\<rparr>)"
      "conn_HandleClose P (echo_callbacks P write p) (c\<lparr>input_buffer := b\<rparr>) = Inr c'" using R r(3,4) i(2) by auto
    have "echo_inv P V recv (c\<lparr>input_buffer := b\<rparr>)" using b(1,2) inv by (simp add: echo_inv_def)
    from echo_close_ok [OF this _ b(3)] st show ?thesis by simp
  qed
qed

lemma echo_op_inv:
  assumes "echo_op P recv c recv' c'" and inv: "echo_inv P V recv c"
  shows "echo_inv P V recv' c' \<and> state c' = state c"
  using assms(1)
proof cases
  case (echo_read ch readv wr bs p so)
  then show ?thesis using echo_read_ok [OF inv echo_read(2-10), of p so] by auto
next
  case (echo_read_error ch readv e wr p so)
  have "conn_HandleRead P (echo_callbacks P wr p) readv so c = Inr (conn_HandleError so c)"
    using HandleRead_ok [OF _ echo_read_error(3,4) echo_read_error(5) [unfolded room_def], of "echo_callbacks P wr p" so]
      inv echo_read_error(6) by (auto simp: echo_inv_def)
  then show ?thesis using echo_read_error echo_end_ok [OF inv echo_read_error(2-5)] by (auto simp: conn_HandleError_def)
next
  case (echo_write wr)
  then show ?thesis using echo_write_ok [OF inv echo_write(2,3)] by auto
next
  case (echo_complete t ts wr p)
  then have "t = WriteCompleteTask" using inv by (auto simp: echo_inv_def)
  then show ?thesis using echo_complete inv by (auto simp: echo_inv_def run_task_def stream_def)
next
  case (echo_error so)
  then show ?thesis using inv by (simp add: echo_inv_def conn_HandleError_def)
qed

lemma echo_step_inv:
  assumes "echo_step P V recv c recv' c'" and inv: "echo_inv P V recv c"
  shows "echo_inv P V recv' c'"
  using assms(1)
proof cases
  case (echo_established wr p self)
  have i: "conn_inv P V c" using inv by (simp add: echo_inv_def)
  from ConnectionEstablished_ok [OF i echo_established(2), of "echo_callbacks P wr p" self] echo_established inv
  show ?thesis by (auto simp: echo_inv_def)
next
  case echo_traffic
  then show ?thesis using echo_op_inv inv by blast
next
  case (echo_read_end ch readv wr p so)
  then show ?thesis using echo_end_ok [OF inv echo_read_end(2-5)] by auto
next
  case (echo_close wr p)
  then show ?thesis using echo_close_ok inv by blast
next
  case (echo_destroyed wr p)
  then show ?thesis using echo_destroyed_ok inv by blast
qed

lemma echo_run_inv: "echo_run P V recv c \<Longrightarrow> echo_inv P V recv c"
proof (induction rule: echo_run.induct)
  case (echo_start s q fd c w)
  then show ?case using ctor_ok [OF echo_start(1-3)] by (auto simp: echo_inv_def stream_def)
next
  case (echo_next recv c recv' c')
  then show ?case using echo_step_inv by blast
qed

text \<open>Enough writable events empty the output buffer, if the socket takes something each time.\<close>

lemma echo_drain_ok:
  assumes "echo_inv P V recv c" "state c = kConnected" "write_contract write"
    "\<And>fd bs. bs \<noteq> [] \<Longrightarrow> \<exists>n. write fd bs = Inr (Suc n)"
  shows "\<exists>c'. ((\<lambda>r. res_bind r (conn_HandleWrite P write)) ^^ length (readable (output_buffer c))) (Inr c) = Inr c' \<and>
    echo_inv P V recv c' \<and> sock_out c' = recv \<and> readable (output_buffer c') = []"
proof -
  let ?f = "\<lambda>r. res_bind r (conn_HandleWrite P write)"
  have "\<exists>c'. (?f ^^ k) (Inr c) = Inr c' \<and> echo_inv P V recv c' \<and> readable (output_buffer c') = []"
    if "length (readable (output_buffer c)) \<le> k" "echo_inv P V recv c" "state c = kConnected" for k c
    using that
  proof (induction k arbitrary: c)
    case 0
    then show ?case by simp
  next
    case (Suc k)
    obtain c1 where c1: "conn_HandleWrite P write c = Inr c1" "state c1 = kConnected" "echo_inv P V recv c1"
      "case own_channel P c of Inl _ \<Rightarrow> False | Inr ch \<Rightarrow>
       sock_out c1 = sock_out c @ (case write (ch_fd ch) (readable (output_buffer c)) of
         Inl e \<Rightarrow> [] | Inr n \<Rightarrow> take n (readable (output_buffer c)))"
      using echo_write_ok [OF Suc.prems(2,3) assms(3)] by blast
    obtain ch where ch: "own_channel P c = Inr ch" using c1(4) by (auto split: sum.splits)
    have st: "stream c1 = stream c" using c1(3) Suc.prems(2) by (simp add: echo_inv_def)
    have "length (readable (output_buffer c1)) \<le> k"
    proof (cases "readable (output_buffer c) = []")
      case True
      have "length (readable (output_buffer c1)) + length (sock_out c1) = length (sock_out c)"
        using arg_cong [OF st, of length] True by (simp add: stream_def)
      then show ?thesis using c1(4) ch by simp
    next
      case False
      then obtain n where n: "write (ch_fd ch) (readable (output_buffer c)) = Inr (Suc n)" using assms(4) by blast
      then have "sock_out c1 = sock_out c @ take (Suc n) (readable (output_buffer c))" using c1(4) ch by simp
      then have "readable (output_buffer c1) = drop (Suc n) (readable (output_buffer c))"
        using st by (simp add: stream_def) (metis append_take_drop_id same_append_eq)
      then show ?thesis using Suc.prems(1) by simp
    qed
    from Suc.IH [OF this c1(3,2)] show ?case using c1(1) by (simp add: funpow_Suc_right del: funpow.simps)
  qed
  from this [OF order_refl assms(1,2)] show ?thesis by (auto simp: echo_inv_def stream_def)
qed

end

section \<open>Properties\<close>

text \<open>
  The echo server echoes: at every moment of every run of a connection, on the epoll
  poller, what the socket has taken followed by what waits in the output buffer is exactly the
  sequence of bytes received, no byte lost, repeated or out of order, and nothing is left
  unread in the input buffer; this holds whatever parts of the data the kernel delivers and
  accepts, with or without a write-complete callback, and also once the connection is closed.
\<close>

theorem echo_faithful:
  assumes "echo_run (epoll_ops K) (epoll_view K) recv c"
  shows "sock_out c @ readable (output_buffer c) = recv \<and> readable (input_buffer c) = []"
  using epoll_conn.echo_run_inv [OF assms] by (simp add: echo_inv_def stream_def)

text \<open>The sample connection as one of the echo server, before and after a message.\<close>

lemma live_conn_echo: "echo_run (epoll_ops map_kernel) (epoll_view map_kernel) [] live_conn"
proof -
  let ?P = "epoll_ops map_kernel" and ?V = "epoll_view map_kernel"
  have n: "new_conn\<lparr>write_complete_set := False\<rparr> = new_conn" using new_conn_eq(3) by (cases new_conn) simp
  have "echo_run ?P ?V [] (new_conn\<lparr>write_complete_set := False\<rparr>)"
    by (rule echo_start [OF _ _ _ new_conn_ctor]) (use init_epoller_inv in \<open>simp_all add: epoller_init_def ep_fd_free_def\<close>)
  then have r: "echo_run ?P ?V [] new_conn" unfolding n .
  have cb: "echo_callbacks ?P one_byte 9 ConnectionCallback = quiet_cb ConnectionCallback"
    by (simp add: fun_eq_iff quiet_cb_def)
  have "ConnectionEstablished ?P (echo_callbacks ?P one_byte 9) 1 new_conn = Inr live_conn"
    using live_conn_eq(1) unfolding ConnectionEstablished_def cb .
  from echo_next [OF r echo_established [OF new_conn_eq(1) this]] show ?thesis .
qed

definition text_arrives :: readv_call where
  "text_arrives fd iov = Inr (take (sum_list (map unat iov)) ''ping'')"

lemma text_arrives_facts:
  "readv_contract text_arrives" "text_arrives fd (read_iov b) = Inr ''ping''"
proof -
  show "readv_contract text_arrives" by (simp add: readv_contract_def text_arrives_def)
  have "4 \<le> sum_list (map unat (read_iov b))"
  proof (cases "WriteableBytes b < extrabuf_size")
    case False
    then have "unat (65535 :: size_t) \<le> unat (WriteableBytes b)" by (simp add: extrabuf_size_def not_less word_le_nat_alt)
    then show ?thesis using False by (simp add: read_iov_def)
  qed (simp add: read_iov_def extrabuf_size_def)
  then show "text_arrives fd (read_iov b) = Inr ''ping''" by (simp add: text_arrives_def)
qed

lemma live_conn_room: "room (length ''ping'') (output_buffer live_conn)"
proof -
  obtain s where s: "live_conn = new_conn\<lparr>state := kConnected, poller_of := s\<rparr>" using live_conn_eq(2) by blast
  have "write_index (output_buffer new_conn) = 8"
    using new_conn_eq(8) Buffer_ctor_ok [of kInitialSize] by (auto simp: kInitialSize_def vec_max_size_def kCheapPrepend_def)
  then show ?thesis by (simp add: s room_def vec_max_size_def)
qed

lemma pinged_run: "\<exists>c. echo_run (epoll_ops map_kernel) (epoll_view map_kernel) ''ping'' c \<and> state c = kConnected"
proof -
  let ?P = "epoll_ops map_kernel"
  have inv: "echo_inv ?P (epoll_view map_kernel) [] live_conn" using epoll_conn.echo_run_inv [OF live_conn_echo] .
  obtain ch where ch: "own_channel ?P live_conn = Inr ch" using conn_invD [OF live_conn_inv] .
  have wf: "\<not> write_fails ?P one_byte ''ping'' live_conn" by (simp add: write_fails_def one_byte_def)
  have rm: "room (length ''ping'') (output_buffer live_conn)"
    by (rule live_conn_room)
  obtain c where c: "conn_HandleRead ?P (echo_callbacks ?P one_byte 9) text_arrives (Inr 0) live_conn = Inr c" "state c = kConnected"
    using epoll_conn.echo_read_ok [OF inv live_conn_simps(1) ch text_arrives_facts(1) one_byte_contract live_conn_simps(5)
        text_arrives_facts(2) _ rm wf, of 9 "Inr 0"] by auto
  have "echo_run ?P (epoll_view map_kernel) ([] @ ''ping'') c"
    by (rule echo_next [OF live_conn_echo echo_traffic [OF echo_read [OF live_conn_simps(1) ch text_arrives_facts(1) one_byte_contract live_conn_simps(5)
        text_arrives_facts(2) _ rm wf c(1)]]]) simp
  then show ?thesis using c(2) by auto
qed

theorem echo_faithful_witness:
  "\<exists>c. echo_run (epoll_ops map_kernel) (epoll_view map_kernel) ''ping'' c \<and>
     sock_out c @ readable (output_buffer c) = ''ping'' \<and> readable (input_buffer c) = []"
  using pinged_run echo_faithful by blast

text \<open>The same on the poll-based poller.\<close>

lemma echo_faithful_poll:
  assumes "echo_run poll_ops poll_view recv c"
  shows "sock_out c @ readable (output_buffer c) = recv \<and> readable (input_buffer c) = []"
  using poll_conn.echo_run_inv [OF assms] by (simp add: echo_inv_def stream_def)

text \<open>
  Every request is answered: in any state of an open connection a readable event with data
  is handled without a fault, and if the socket takes at least one byte at each writable
  event, then after as many of these as bytes were waiting the client has been sent
  everything it ever sent.
\<close>

theorem echo_answers:
  assumes "echo_run (epoll_ops K) (epoll_view K) recv c" "state c = kConnected"
    "own_channel (epoll_ops K) c = Inr ch" "readv_contract readv" "write_contract write" "room 131070 (input_buffer c)"
    "readv (ch_fd ch) (read_iov (input_buffer c)) = Inr bs" "bs \<noteq> []" "room (length bs) (output_buffer c)"
    "\<forall>fd d. d \<noteq> [] \<longrightarrow> (\<exists>n. write fd d = Inr (Suc n))"
  shows "\<exists>c1 c2. conn_HandleRead (epoll_ops K) (echo_callbacks (epoll_ops K) write p) readv so c = Inr c1 \<and>
    ((\<lambda>r. res_bind r (conn_HandleWrite (epoll_ops K) write)) ^^ length (readable (output_buffer c1))) (Inr c1) = Inr c2 \<and>
    sock_out c2 = recv @ bs \<and> readable (output_buffer c2) = []"
proof -
  have "\<not> write_fails (epoll_ops K) write bs c" using assms(8,10) unfolding write_fails_def by (metis Inl_Inr_False)
  then obtain c1 where c1: "conn_HandleRead (epoll_ops K) (echo_callbacks (epoll_ops K) write p) readv so c = Inr c1"
    "state c1 = kConnected" "echo_inv (epoll_ops K) (epoll_view K) (recv @ bs) c1"
    using epoll_conn.echo_read_ok [OF epoll_conn.echo_run_inv [OF assms(1)] assms(2-9), of p so] by blast
  have "bs \<noteq> [] \<Longrightarrow> \<exists>n. write fd bs = Inr (Suc n)" for fd bs using assms(10) by blast
  from epoll_conn.echo_drain_ok [OF c1(3,2) assms(5) this] show ?thesis using c1(1) by blast
qed

theorem echo_answers_witness:
  "\<exists>c1 c2. conn_HandleRead (epoll_ops map_kernel) (echo_callbacks (epoll_ops map_kernel) one_byte 9) text_arrives (Inr 0) live_conn = Inr c1 \<and>
    ((\<lambda>r. res_bind r (conn_HandleWrite (epoll_ops map_kernel) one_byte)) ^^ length (readable (output_buffer c1))) (Inr c1) = Inr c2 \<and>
    sock_out c2 = ''ping'' \<and> readable (output_buffer c2) = []"
proof -
  obtain ch where ch: "own_channel (epoll_ops map_kernel) live_conn = Inr ch" using conn_invD [OF live_conn_inv] .
  have rm: "room (length ''ping'') (output_buffer live_conn)"
    by (rule live_conn_room)
  have w: "\<forall>fd d. d \<noteq> [] \<longrightarrow> (\<exists>n. one_byte fd d = Inr (Suc n))" by (auto simp: one_byte_def neq_Nil_conv)
  show ?thesis
    using echo_answers [OF live_conn_echo live_conn_simps(1) ch text_arrives_facts(1) one_byte_contract live_conn_simps(5)
        text_arrives_facts(2) _ rm w, of 9 "Inr 0"] by simp
qed

section \<open>The other server\<close>

text \<open>
  The ping-pong server: its \<open>OnMessage\<close> has the body of the echo server's; its \<open>OnConnection\<close> sets
  \<open>TCP_NODELAY\<close> on the connection's socket, here in the options of the descriptor.
\<close>

definition pingpong_OnMessage :: "'s poller_ops \<Rightarrow> write_call \<Rightarrow> ptr \<Rightarrow> 's connection \<Rightarrow> 's connection res" where
  "pingpong_OnMessage P write p c =
     res_bind (RetriveAllAsString (input_buffer c)) (\<lambda>(buffer, b).
     res_bind (Send_string P other_callbacks write True p (c\<lparr>input_buffer := b, strings := (strings c)(p \<mapsto> buffer)\<rparr>)) (\<lambda>c1.
       Inr (c1\<lparr>strings := (strings c1)(p := None)\<rparr>)))"

definition pingpong_OnConnection :: "cint \<Rightarrow> sockets \<Rightarrow> sockets" where
  "pingpong_OnConnection fd = sock_SetTcpNoDelay fd True"

lemma pingpong_echoes: "pingpong_OnMessage = OnMessage"
  by (intro ext) (simp add: pingpong_OnMessage_def OnMessage_def)

section \<open>Configuration of the echo server\<close>

text \<open>\<open>operator[]\<close> of the map gives an empty string for a missing key; \<open>atoi\<close> reads leading digits.\<close>

definition mp_at :: "config \<Rightarrow> string \<Rightarrow> string" where
  "mp_at c k = (case mp c k of None \<Rightarrow> [] | Some v \<Rightarrow> v)"

definition is_space :: "char \<Rightarrow> bool" where
  "is_space c \<longleftrightarrow> c \<in> {CHR '' '', CHR 0x09, CHR 0x0A, CHR 0x0B, CHR 0x0C, CHR 0x0D}"

definition atoi :: "string \<Rightarrow> int" where
  "atoi s =
     (case dropWhile is_space s of
        [] \<Rightarrow> 0
      | c # cs \<Rightarrow>
          if c = CHR ''-'' then - int (digits_val (takeWhile is_digit cs))
          else if c = CHR ''+'' then int (digits_val (takeWhile is_digit cs))
          else int (digits_val (takeWhile is_digit (c # cs))))"

text \<open>What \<open>main\<close> gives the server: address, name, number of threads.\<close>

definition echo_main :: "config \<Rightarrow> sockaddr_in \<times> string \<times> int" where
  "echo_main c = (InetAddr_port (word_of_int (atoi (mp_at c ''server_listen_port''))), mp_at c ''server_name'',
     atoi (mp_at c ''server_thread_num''))"

text \<open>
  What the ping-pong server's \<open>main\<close> makes of its arguments (\<open>argv[0]\<close> is the program): address, name,
  number of threads; with too few of them it exits. \<open>inet_addr\<close> is the C library's parser.
\<close>

definition pingpong_main :: "(string \<Rightarrow> 32 word) \<Rightarrow> string list \<Rightarrow> (sockaddr_in \<times> string \<times> int) option" where
  "pingpong_main inet_addr argv =
     (if length argv < 4 then None
      else Some (InetAddr_ip inet_addr (argv ! 1) (word_of_int (atoi (argv ! 2))), ''PingPong'', atoi (argv ! 3)))"

lemma digit_chars: "list_all (\<lambda>k. is_digit (digit_char k)) [0..<10]"
  by code_simp

lemma nat_digits_digits: "list_all is_digit (nat_digits n)"
proof (induction n rule: nat_digits.induct)
  case (1 n)
  have d: "is_digit (digit_char k)" if "k < 10" for k
    using digit_chars that by (auto simp: list_all_iff)
  show ?case
  proof (cases "n < 10")
    case True
    then show ?thesis using d by (subst nat_digits.simps) simp
  next
    case False
    then show ?thesis using d [of "n mod 10"] 1 by (subst nat_digits.simps) simp
  qed
qed

lemma atoi_nat_digits [simp]: "atoi (nat_digits n) = int n"
proof -
  obtain c cs where c: "nat_digits n = c # cs" by (cases "nat_digits n") auto
  have all: "list_all is_digit (nat_digits n)" by (rule nat_digits_digits)
  then have "is_digit c" using c by simp
  then have "\<not> is_space c" "c \<noteq> CHR ''-''" "c \<noteq> CHR ''+''" by (auto simp: is_digit_def is_space_def)
  moreover have "takeWhile is_digit (nat_digits n) = nat_digits n"
    using all by (simp add: takeWhile_eq_all_conv list_all_iff)
  ultimately show ?thesis using c by (simp add: atoi_def) (metis digits_val_nat_digits)
qed

lemma nat_digits_entry:
  assumes "list_all is_key k" "list_all is_dot k" "sep \<in> {''='', '' = ''}"
  shows "config_entry k sep (nat_digits n)"
proof -
  have "list_all is_digit (nat_digits n)" by (rule nat_digits_digits)
  moreover from this have "list_all is_dot (nat_digits n)" using is_digit_key by (auto simp: list_all_iff)
  moreover have "is_digit (hd (nat_digits n))"
    using calculation(1) nat_digits_nonempty [of n] by (cases "nat_digits n") auto
  ultimately show ?thesis using assms by (auto simp: config_entry_def is_key_def is_digit_def is_dot_def)
qed

text \<open>A file of two entries around a line without digits.\<close>

lemma PullConfig_around_text:
  assumes "config_entry k1 sep1 v1" "config_entry k2 sep2 v2" "list_all (\<lambda>c. \<not> is_digit c \<and> c \<noteq> CHR 0x0A) name_line"
  shows "\<exists>c. PullConfig (Some (k1 @ sep1 @ v1 @ [CHR 0x0A] @ name_line @ [CHR 0x0A] @ k2 @ sep2 @ v2 @ [CHR 0x0A])) Config_ctor = (True, c) \<and>
    mp c = [k1 \<mapsto> v1, k2 \<mapsto> v2]"
proof -
  have nl: "CHR 0x0A \<notin> set (k @ sep @ v)" if "config_entry k sep v" for k sep v
    using that by (auto simp: config_entry_def list_all_iff is_dot_def)
  define c1 where "c1 = Parse_line (Config_ctor\<lparr>cfg_buf := k1 @ sep1 @ v1\<rparr>)"
  define c2 where "c2 = Parse_line (c1\<lparr>cfg_buf := name_line\<rparr>)"
  define c3 where "c3 = Parse_line (c2\<lparr>cfg_buf := k2 @ sep2 @ v2\<rparr>)"
  have m1: "mp c1 = [k1 \<mapsto> v1]" using regex_search_entry [OF assms(1)] by (simp add: c1_def Parse_line_def Config_ctor_def)
  have "c2 = c1\<lparr>cfg_buf := name_line\<rparr>"
    using textual_value_ignored [of "c1\<lparr>cfg_buf := name_line\<rparr>"] assms(3) by (simp add: c2_def list_all_iff)
  then have m2: "mp c2 = mp c1" by simp
  have m3: "mp c3 = (mp c2)(k2 \<mapsto> v2)" using regex_search_entry [OF assms(2)] by (simp add: c3_def Parse_line_def)
  have e: "read_lines [] c3 = c3" by (subst read_lines.simps) simp
  have "CHR 0x0A \<notin> set name_line" using assms(3) by (auto simp: list_all_iff)
  then have "PullConfig (Some (k1 @ sep1 @ v1 @ [CHR 0x0A] @ name_line @ [CHR 0x0A] @ k2 @ sep2 @ v2 @ [CHR 0x0A])) Config_ctor = (True, c3)"
    using read_lines_line [OF nl [OF assms(1)], of "name_line @ CHR 0x0A # k2 @ sep2 @ v2 @ [CHR 0x0A]" Config_ctor]
      read_lines_line [of name_line "k2 @ sep2 @ v2 @ [CHR 0x0A]" c1]
      read_lines_line [OF nl [OF assms(2)], of "[]" c2] e
    by (simp add: PullConfig_def c1_def [symmetric] c2_def [symmetric] c3_def [symmetric])
  then show ?thesis using m1 m2 m3 by simp
qed

text \<open>
  The echo server gets its port and its number of threads from the configuration file:
  for decimal numbers on lines with these keys, with an equals sign with or without spaces, it
  listens on that port, modulo \<open>2^16\<close>, with that many threads. A name on a line without digits
  between them does not arrive: the server's name is empty.
\<close>

theorem echo_main_config:
  assumes "sep1 \<in> {''='', '' = ''}" "sep2 \<in> {''='', '' = ''}" "list_all (\<lambda>c. \<not> is_digit c \<and> c \<noteq> CHR 0x0A) name_line"
  shows "\<exists>c. PullConfig (Some (''server_listen_port'' @ sep1 @ nat_digits port @ [CHR 0x0A] @ name_line @ [CHR 0x0A] @
      ''server_thread_num'' @ sep2 @ nat_digits threads @ [CHR 0x0A])) Config_ctor = (True, c) \<and>
    echo_main c = (InetAddr_port (word_of_nat port), '''', int threads)"
proof -
  have "config_entry ''server_listen_port'' sep1 (nat_digits port)"
    by (rule nat_digits_entry [OF _ _ assms(1)]) (simp_all add: is_key_def is_dot_def)
  moreover have "config_entry ''server_thread_num'' sep2 (nat_digits threads)"
    by (rule nat_digits_entry [OF _ _ assms(2)]) (simp_all add: is_key_def is_dot_def)
  ultimately obtain c where
    c: "PullConfig (Some (''server_listen_port'' @ sep1 @ nat_digits port @ [CHR 0x0A] @ name_line @ [CHR 0x0A] @
      ''server_thread_num'' @ sep2 @ nat_digits threads @ [CHR 0x0A])) Config_ctor = (True, c)"
    "mp c = [''server_listen_port'' \<mapsto> nat_digits port, ''server_thread_num'' \<mapsto> nat_digits threads]"
    using PullConfig_around_text [OF _ _ assms(3)] by blast
  have "echo_main c = (InetAddr_port (word_of_nat port), '''', int threads)"
    by (simp add: echo_main_def mp_at_def c(2))
  then show ?thesis using c(1) by blast
qed

theorem echo_main_config_witness:
  "\<exists>c. PullConfig (Some (''server_listen_port'' @ ''='' @ nat_digits 8000 @ [CHR 0x0A] @ ''server_name=echo'' @ [CHR 0x0A] @
      ''server_thread_num'' @ '' = '' @ nat_digits 4 @ [CHR 0x0A])) Config_ctor = (True, c) \<and>
    echo_main c = (InetAddr_port (word_of_nat 8000), '''', 4)"
  using echo_main_config [of "''=''" "'' = ''" "''server_name=echo''" 8000 4] by (simp add: is_digit_def)

end
