(* ===== verification/Echo_Loop.thy ===== *)
theory Echo_Loop
  imports Reactor Echo_Server
begin

text \<open>
  A connection of the echo server on its event loop: the loop, its timers, the poller, the
  channel's dispatch, the buffers and the server's callback put together. The connection is
  the \<open>user\<close> data of the loop; its handlers and functors work on the loop's own poller and queue
  functors with \<open>QueueInLoop\<close>.
\<close>

section \<open>The connection as client of the loop\<close>

definition conn_in :: "('f, 'k, 's, 's connection) io \<Rightarrow> 's connection" where
  "conn_in w = (user w)\<lparr>poller_of := loop_poller w\<rparr>"

definition lift_conn ::
  "'k eventfd \<Rightarrow> ('s connection \<Rightarrow> 's connection res) \<Rightarrow> ('cb, task, 'k, 's, 's connection) reactor \<Rightarrow>
   ('cb, task, 'k, 's, 's connection) reactor res" where
  "lift_conn E f r =
     (let w = world r in
      res_bind (f (conn_in w)) (\<lambda>c.
        Inr (r\<lparr>world := w\<lparr>user := c\<lparr>tasks := []\<rparr>, loop_poller := poller_of c,
               ev_loop := fold (QueueInLoop E (thread_id (ev_loop w))) (tasks c) (ev_loop w)\<rparr>\<rparr>)))"

definition echo_client ::
  "'k eventfd \<Rightarrow> 's poller_ops \<Rightarrow> readv_call \<Rightarrow> write_call \<Rightarrow> errno + errno \<Rightarrow> ptr \<Rightarrow>
   ('cb, task, 'k, 's, 's connection) client" where
  "echo_client E P readv write so p =
     \<lparr>run_timer = \<lambda>_ w. w,
      run_event = \<lambda>q h r. if q = conn_chan (user (world r))
        then lift_conn E (conn_handler P (echo_callbacks P write p) readv write so h) r else Inr r,
      run_functor = \<lambda>t. lift_conn E (run_task P (echo_callbacks P write p) write t),
      owned = \<lambda>_ _. True\<rparr>"

text \<open>
  A loop that serves an open connection on which \<open>recv\<close> has been received: everything received
  is echoed or waits, and only write-complete functors are queued.
\<close>

definition serving :: "'s poller_ops \<Rightarrow> 's poller_view \<Rightarrow> bytes \<Rightarrow> ('cb, task, 'k, 's, 's connection) reactor \<Rightarrow> bool" where
  "serving P V recv r \<longleftrightarrow> tm_inv r \<and> echo_inv P V recv (conn_in (world r)) \<and> state (user (world r)) = kConnected \<and>
     tasks (user (world r)) = [] \<and> set (pending_functors (ev_loop (world r))) \<subseteq> {WriteCompleteTask} \<and>
     conn_chan (user (world r)) \<noteq> wakeup_channel (world r)"

section \<open>Steps of a turn\<close>

lemma conn_inv_polled:
  assumes "conn_inv P V c" "state c \<noteq> kConnecting" "polled P V (poller_of c) s'" "pv_inv V s'"
  shows "conn_inv P V (c\<lparr>poller_of := s'\<rparr>)"
proof -
  obtain ch where ch: "po_chans P (poller_of c) (conn_chan c) = Some ch" "events_ok ch"
    "pv_registered V (poller_of c) (conn_chan c) \<longrightarrow> pv_watch V (poller_of c) (ch_fd ch) = events ch"
    "conn_state_ok V c ch" using assms(1) unfolding conn_inv_def by blast
  have "same_channels (po_chans P (poller_of c)) (po_chans P s')" using assms(3) by (simp add: polled_def)
  from same_channelsD [where p = "conn_chan c", OF this ch(1)] obtain d where
    d: "po_chans P s' (conn_chan c) = Some d" "same_channel ch d" by blast
  have e: "ch_fd d = ch_fd ch" "events d = events ch" using same_channelD [OF d(2)] by simp_all
  have "events_ok d" "IsReading d = IsReading ch" "IsWriting d = IsWriting ch"
    using ch(2) e by (simp_all add: events_ok_def IsReading_def IsWriting_def)
  then show ?thesis using assms ch(3,4) d(1) e
    by (cases "state c") (auto simp: conn_inv_def conn_state_ok_def polled_def)
qed

lemma echo_inv_polled:
  assumes "echo_inv P V recv c" "state c \<noteq> kConnecting" "polled P V (poller_of c) s'" "pv_inv V s'"
  shows "echo_inv P V recv (c\<lparr>poller_of := s'\<rparr>)"
  using assms conn_inv_polled [of P V c s'] by (auto simp: echo_inv_def)

lemma fold_Queue:
  "pending_functors (fold (QueueInLoop E tid) ts l) = pending_functors l @ ts"
  "quit (fold (QueueInLoop E tid) ts l) = quit l" "thread_id (fold (QueueInLoop E tid) ts l) = thread_id l"
  by (induction ts arbitrary: l) simp_all

text \<open>Write-complete functors of the echo server leave the connection as it is.\<close>

lemma run_complete:
  assumes "serving P V recv r" "set fs \<subseteq> {WriteCompleteTask}"
  shows "\<exists>r'. run_functors (echo_client E P readv write so p) fs r = Inr r' \<and> serving P V recv r' \<and>
    conn_in (world r') = conn_in (world r) \<and> pending_functors (ev_loop (world r')) = pending_functors (ev_loop (world r))"
  using assms
proof (induction fs arbitrary: r)
  case (Cons f fs)
  then have f: "f = WriteCompleteTask" by simp
  define r1 where "r1 = r\<lparr>world := (world r)\<lparr>user := conn_in (world r)\<lparr>tasks := []\<rparr>\<rparr>\<rparr>"
  have t: "tasks (user (world r)) = []" using Cons.prems(1) by (simp add: serving_def)
  have step: "run_functor (echo_client E P readv write so p) f r = Inr r1"
    using t by (simp add: f echo_client_def lift_conn_def run_task_def Let_def r1_def conn_in_def)
  have c1: "conn_in (world r1) = conn_in (world r)" using t by (cases "user (world r)") (simp add: r1_def conn_in_def)
  have "tm_inv r1 = tm_inv r" "state (user (world r1)) = state (user (world r))" "tasks (user (world r1)) = []"
    "ev_loop (world r1) = ev_loop (world r)" "conn_chan (user (world r1)) = conn_chan (user (world r))"
    "wakeup_channel (world r1) = wakeup_channel (world r)"
    by (simp_all add: r1_def tm_inv_def conn_in_def)
  then have "serving P V recv r1" using Cons.prems(1) by (simp add: serving_def c1)
  moreover have "pending_functors (ev_loop (world r1)) = pending_functors (ev_loop (world r))" by (simp add: r1_def)
  ultimately show ?case using Cons.IH [of r1] Cons.prems(2) step c1 by auto
qed simp

lemma epoll_one_event:
  assumes "ep_inv K s" "epoll_wait_contract K" "epoll_wait K (events_len s) t (kern s) = Inr [(POLLIN, q)]"
  obtains s' d where "ep_Polling K t s [] = Inr (s', [q])" "ep_inv K s'" "polled (epoll_ops K) (epoll_view K) s s'"
    "ep_chans s' q = Some d" "revents d = POLLIN"
proof -
  obtain s' where s': "ep_Polling K t s [] = Inr (s', [q])" "ep_inv K s'" "\<exists>d. ep_chans s' q = Some d \<and> revents d = POLLIN"
    using ep_Polling_ok [OF assms(1,2), of t "[]"] assms(3) by auto
  have "pv_inv (epoll_view K) s" using assms(1) by simp
  from epoll_loop.polling_law [OF assms(2) this, of t] s'(1) have "polled (epoll_ops K) (epoll_view K) s s'" by auto
  then show thesis using that s' by blast
qed

lemma readable_dispatch:
  assumes "revents d = POLLIN" "has_read_cb d"
  shows "HandleEvent (\<lambda>_. True) d = [OnRead]"
  using assms by (simp add: HandleEvent_def HandleEventWithGuard_def event_flags split: option.split)

text \<open>
  The part of a message that goes to the socket at once: what \<open>write\<close> takes of it, if nothing was
  waiting before.
\<close>

definition taken :: "write_call \<Rightarrow> cint \<Rightarrow> bytes \<Rightarrow> 's connection \<Rightarrow> bytes" where
  "taken write fd data c =
     (if readable (output_buffer c) = [] then (case write fd data of Inl e \<Rightarrow> [] | Inr n \<Rightarrow> take n data) else [])"

lemma send_queue_sock: "send_queue P data c = Inr c' \<Longrightarrow> sock_out c' = sock_out c"
  by (auto simp: send_queue_def conn_set_def res_bind_eq_Inr split: if_splits)

lemma send_direct_quiet:
  "send_direct other_callbacks write fd data c = Inr (n, fault, c1) \<Longrightarrow>
   sock_out c1 = sock_out c @ (case write fd data of Inl e \<Rightarrow> [] | Inr m \<Rightarrow> take m data)"
  by (auto simp: send_direct_def Let_def split: sum.splits if_splits)

context conn_loop
begin

lemma SendInLoop_taken:
  assumes "conn_inv P V c" "open_state (state c)" "own_channel P c = Inr ch" "SendInLoop P other_callbacks write data c = Inr c'"
  shows "sock_out c' = sock_out c @ taken write (ch_fd ch) data c"
proof -
  have ch: "IsWriting ch \<longleftrightarrow> readable (output_buffer c) \<noteq> []" "buf_inv (output_buffer c)"
    using conn_inv_openD [OF assms(1,2)] assms(3) by (metis sum.inject(2))+
  have st: "state c \<noteq> kDisconnected" using assms(2) by (auto simp: open_state_def)
  obtain n fault c1 where c1: "(if readable (output_buffer c) = [] then send_direct other_callbacks write (ch_fd ch) data c
      else Inr (0, False, c)) = Inr (n, fault, c1)"
    "(if \<not> fault \<and> 0 < length data - n then send_queue P (drop n data) c1 else Inr c1) = Inr c'"
    using assms(3,4) st ch ReadableBytes_zero [OF ch(2)] unfolding SendInLoop_def by (auto simp: res_bind_eq_Inr)
  have "sock_out c1 = sock_out c @ taken write (ch_fd ch) data c"
    using c1(1) send_direct_quiet by (cases "readable (output_buffer c) = []") (fastforce simp: taken_def)+
  moreover have "sock_out c' = sock_out c1" using c1(2) send_queue_sock by (auto split: if_splits)
  ultimately show ?thesis by simp
qed

lemma echo_read_taken:
  assumes "echo_inv P V recv c" "state c = kConnected" "own_channel P c = Inr ch" "readv_contract readv" "room 131070 (input_buffer c)"
    "readv (ch_fd ch) (read_iov (input_buffer c)) = Inr bs" "bs \<noteq> []"
    and r: "conn_HandleRead P (echo_callbacks P write p) readv so c = Inr c'"
  shows "sock_out c' = sock_out c @ taken write (ch_fd ch) bs c"
proof -
  have i: "conn_inv P V c" "readable (input_buffer c) = []" using assms(1) by (auto simp: echo_inv_def)
  obtain b where b: "buf_inv b" "readable b = bs" "conn_inv P V (c\<lparr>input_buffer := b\<rparr>)"
    "conn_HandleRead P (echo_callbacks P write p) readv so c = OnMessage P write p (c\<lparr>input_buffer := b\<rparr>)"
    using HandleRead_ok [OF i(1) assms(3,4) assms(5) [unfolded room_def], of "echo_callbacks P write p" so] assms(6,7) i(2) by auto
  obtain b' where b': "RetriveAllAsString b = Inr (bs, b')" "buf_inv b'" using RetriveAllAsString_ok [OF b(1)] b(2) by blast
  let ?c = "c\<lparr>input_buffer := b', strings := (strings c)(p \<mapsto> bs)\<rparr>"
  have inv: "conn_inv P V ?c" using conn_inv_input [OF i(1) b'(2)] by simp
  obtain d where d: "SendInLoop P other_callbacks write bs ?c = Inr d" "c' = d\<lparr>strings := (strings d)(p := None)\<rparr>"
    using r b(4) b'(1) assms(2) by (auto simp: OnMessage_def Send_string_def res_bind_eq_Inr)
  have "sock_out d = sock_out ?c @ taken write (ch_fd ch) bs ?c"
    by (rule SendInLoop_taken [OF inv _ _ d(1)]) (use assms(2,3) in \<open>simp_all add: open_state_def own_channel_def\<close>)
  then show ?thesis using d(2) by (simp add: taken_def)
qed

end

text \<open>The handler: the loop after the read serves the connection with the new bytes.\<close>

lemma serve_read:
  assumes "tm_inv r" "echo_inv P V recv (conn_in (world r))" "state (user (world r)) = kConnected"
    "set (pending_functors (ev_loop (world r))) \<subseteq> {WriteCompleteTask}" "conn_chan (user (world r)) \<noteq> wakeup_channel (world r)"
    and read: "conn_HandleRead P (echo_callbacks P write p) readv so (conn_in (world r)) = Inr c" "state c = kConnected"
      "echo_inv P V (recv @ bs) c" "conn_chan c = conn_chan (user (world r))"
  shows "\<exists>r'. call_handlers E (echo_client E P readv write so p) (conn_chan (user (world r))) [OnRead] r = Inr r' \<and>
    serving P V (recv @ bs) r' \<and> sock_out (user (world r')) = sock_out c"
proof -
  define r' where "r' = r\<lparr>world := (world r)\<lparr>user := c\<lparr>tasks := []\<rparr>, loop_poller := poller_of c,
    ev_loop := fold (QueueInLoop E (thread_id (ev_loop (world r)))) (tasks c) (ev_loop (world r))\<rparr>\<rparr>"
  have "call_handlers E (echo_client E P readv write so p) (conn_chan (user (world r))) [OnRead] r = Inr r'"
    using assms(5) read(1) by (simp add: call_handler_def echo_client_def lift_conn_def Let_def r'_def)
  moreover have "set (tasks c) \<subseteq> {WriteCompleteTask}" using read(3) by (simp add: echo_inv_def)
  moreover have "conn_in (world r') = c\<lparr>tasks := []\<rparr>" by (cases c) (simp add: r'_def conn_in_def)
  moreover have "echo_inv P V (recv @ bs) (c\<lparr>tasks := []\<rparr>)" using read(3) by (simp add: echo_inv_def stream_def)
  ultimately show ?thesis using assms read(2,4)
    by (intro exI [of _ r']) (simp add: serving_def r'_def fold_Queue tm_inv_def)
qed

text \<open>The three parts of a turn: timers do nothing, the event is served, the functors are run.\<close>

lemma serve_timers:
  assumes "tm_inv r" "unat (GetCurrentMillisecs ts) < 2 ^ 63"
  shows "\<exists>r1. CheckAndHandle (world_run (run_timer (echo_client E P readv write so p))) ts r = Some (Inr r1) \<and>
    tm_inv r1 \<and> world r1 = world r"
proof -
  let ?U = "echo_client E P readv write so p"
  from check_loop_spec [OF assms, of "run_timer ?U"] obtain r1 ps where
    "CheckAndHandle (world_run (run_timer ?U)) ts r = Some (Inr r1)" "tm_inv r1"
    "world r1 = fold (\<lambda>q. run_timer ?U (callback (the (mem r q)))) ps (world r)" unfolding CheckAndHandle_def by blast
  moreover have "fold (\<lambda>q. run_timer ?U (callback (the (mem r q)))) ps w = w" for w
    by (induction ps) (simp_all add: echo_client_def)
  ultimately show ?thesis by simp
qed

lemma serve_functors:
  assumes "serving P V recv r"
  shows "\<exists>r'. loop_functors (echo_client E P readv write so p) r = Inr r' \<and> serving P V recv r' \<and>
    pending_functors (ev_loop (world r')) = [] \<and> sock_out (user (world r')) = sock_out (user (world r))"
proof -
  let ?U = "echo_client E P readv write so p"
  define fs where "fs = pending_functors (ev_loop (world r))"
  define r1 where "r1 = on_loop (\<lambda>_. snd (swap_pending (ev_loop (world r)))) r"
  have r1: "serving P V recv r1" "pending_functors (ev_loop (world r1)) = []" "set fs \<subseteq> {WriteCompleteTask}"
    using assms by (simp_all add: serving_def r1_def fs_def swap_pending_def conn_in_def tm_inv_def on_loop_def)
  obtain r2 where r2: "run_functors ?U fs r1 = Inr r2" "serving P V recv r2" "pending_functors (ev_loop (world r2)) = []"
    "conn_in (world r2) = conn_in (world r1)"
    using run_complete [OF r1(1,3)] r1(2) by metis
  have "sock_out (user (world r2)) = sock_out (user (world r1))" using arg_cong [OF r2(4), of sock_out] by (simp add: conn_in_def)
  then have o: "sock_out (user (world r2)) = sock_out (user (world r))" by (simp add: r1_def)
  have "loop_functors ?U r = Inr (on_loop end_pending r2)"
    using r2(1) by (simp add: loop_functors_def swap_pending_def r1_def fs_def)
  moreover have "serving P V recv (on_loop end_pending r2)" "pending_functors (ev_loop (world (on_loop end_pending r2))) = []"
    using r2(2,3) by (simp_all add: serving_def end_pending_def conn_in_def tm_inv_def on_loop_def)
  moreover have "sock_out (user (world (on_loop end_pending r2))) = sock_out (user (world r))" using o by simp
  ultimately show ?thesis by blast
qed

lemma serve_event:
  fixes r :: "('cb, task, 'k, 'e epoller, 'e epoller connection) reactor"
  defines "c \<equiv> conn_in (world r)"
  assumes S: "serving (epoll_ops K) (epoll_view K) recv r" and wait: "epoll_wait_contract K"
    "\<forall>t. epoll_wait K (events_len (poller_of c)) t (kern (poller_of c)) = Inr [(POLLIN, conn_chan c)]"
    and X: "polling X = ep_Polling K" and own: "own_channel (epoll_ops K) c = Inr ch" "has_read_cb ch"
    and calls: "readv_contract readv" "write_contract write" "room 131070 (input_buffer c)"
      "readv (ch_fd ch) (read_iov (input_buffer c)) = Inr bs" "bs \<noteq> []" "room (length bs) (output_buffer c)"
      "\<not> write_fails (epoll_ops K) write bs c"
  shows "\<exists>r'. PollAndHandleIoEvent (epoll_ops K) E (echo_client E (epoll_ops K) readv write so p) X r = Inr r' \<and>
    serving (epoll_ops K) (epoll_view K) (recv @ bs) r' \<and>
    sock_out (user (world r')) = sock_out c @ taken write (ch_fd ch) bs c"
proof -
  let ?P = "epoll_ops K" and ?V = "epoll_view K" and ?U = "echo_client E (epoll_ops K) readv write so p ::
    ('cb, task, 'k, 'e epoller, 'e epoller connection) client"
  have s: "tm_inv r" "echo_inv ?P ?V recv c" "state c = kConnected" using S by (simp_all add: serving_def c_def conn_in_def)
  obtain t where t: "poll_timeout (clock_test X) (clock_timeout X) r = Inr t" using poll_timeout_ok [OF s(1)] by blast
  have inv: "ep_inv K (poller_of c)" using conn_invD [of ?P ?V c] s(2) by (auto simp: echo_inv_def)
  obtain s1 d where s1: "ep_Polling K t (poller_of c) [] = Inr (s1, [conn_chan c])" "ep_inv K s1"
    "polled ?P ?V (poller_of c) s1" "ep_chans s1 (conn_chan c) = Some d" "revents d = POLLIN"
    using epoll_one_event [OF inv wait(1)] wait(2) by blast
  have ch: "ep_chans (poller_of c) (conn_chan c) = Some ch" using own(1) by (simp add: own_channel_def split: option.splits)
  have same: "same_channel ch d" using s1(3,4) ch by (auto simp: polled_def same_channels_def)
  have d: "ch_fd d = ch_fd ch" "has_read_cb d" using same_channelD [OF same] same_channel_cbs [OF same] own(2) by simp_all
  let ?c = "c\<lparr>poller_of := s1\<rparr>"
  have e: "echo_inv ?P ?V recv ?c" by (rule echo_inv_polled [OF s(2) _ s1(3)]) (simp_all add: s(3) s1(2))
  have o: "own_channel ?P ?c = Inr d" using s1(4) by (simp add: own_channel_def)
  have wf: "\<not> write_fails ?P write bs ?c" using own(1) calls(7) o d(1) by (simp add: write_fails_def)
  obtain c2 where c2: "conn_HandleRead ?P (echo_callbacks ?P write p) readv so ?c = Inr c2"
    "state c2 = kConnected" "echo_inv ?P ?V (recv @ bs) c2" "conn_chan c2 = conn_chan c"
    using epoll_conn.echo_read_ok [OF e _ o calls(1,2) _ _ calls(5) _ wf, of p so] calls(3,4,6) d(1) s(3) by auto
  have out: "sock_out c2 = sock_out c @ taken write (ch_fd ch) bs c"
    using epoll_conn.echo_read_taken [OF e _ o calls(1) _ _ calls(5) c2(1)] calls(3,4) d(1) s(3) by (simp add: taken_def)
  define r1 where "r1 = r\<lparr>world := (world r)\<lparr>loop_poller := s1, active_channels := [conn_chan c], poll_return_time := clock_return X\<rparr>\<rparr>"
  have r1: "conn_in (world r1) = ?c" "tm_inv r1" "state (user (world r1)) = kConnected" "conn_chan (user (world r1)) = conn_chan c"
    "set (pending_functors (ev_loop (world r1))) \<subseteq> {WriteCompleteTask}" "conn_chan (user (world r1)) \<noteq> wakeup_channel (world r1)"
    using S by (simp_all add: r1_def conn_in_def c_def tm_inv_def serving_def)
  obtain r' where r': "call_handlers E ?U (conn_chan c) [OnRead] r1 = Inr r'" "serving ?P ?V (recv @ bs) r'"
    "sock_out (user (world r')) = sock_out c2"
    using serve_read [OF r1(2) e [folded r1(1)] r1(3,5,6) c2(1) [folded r1(1)] c2(2,3) c2(4) [folded r1(4)], of E]
    unfolding r1(4) by blast
  have "HandleEvent (owned ?U u) d = [OnRead]" for u
    using readable_dispatch [OF s1(5) d(2)] by (simp add: echo_client_def)
  moreover have "po_chans ?P (loop_poller (world r1)) (conn_chan c) = Some d" using s1(4) by (simp add: r1_def)
  ultimately have "handle_active ?P E ?U [conn_chan c] r1 = Inr r'" using r'(1) by (simp del: call_handlers.simps)
  moreover have "poller_of c = loop_poller (world r)" by (simp add: c_def conn_in_def)
  ultimately have "PollAndHandleIoEvent ?P E ?U X r = Inr r'"
    using t s1(1) X by (simp add: PollAndHandleIoEvent_def Let_def r1_def del: handle_active.simps)
  then show ?thesis using r'(2,3) out by metis
qed

section \<open>A request through the whole stack\<close>

text \<open>
  C18. A request goes through the whole stack in one turn: let a loop serve a connection of the
  echo server, with whatever timers and functors, let \<open>epoll_wait\<close> report the connection's
  channel readable, \<open>readv\<close> deliver \<open>bs\<close>, and no \<open>write\<close> report the peer gone. Then the turn ends without a fault.
  If no answer was waiting, the socket has been given exactly the part of \<open>bs\<close> that \<open>write\<close> takes, all of it if
  \<open>write\<close> takes all; the rest waits in the output buffer, behind what waited before. Nothing is
  left unread and no functor is left pending.
\<close>

theorem echo_turn:
  assumes "serving (epoll_ops K) (epoll_view K) recv r" "epoll_wait_contract K"
    "\<forall>t. epoll_wait K (events_len (loop_poller (world r))) t (kern (loop_poller (world r))) = Inr [(POLLIN, conn_chan (user (world r)))]"
    "polling X = ep_Polling K" "unat (GetCurrentMillisecs (clock_check X)) < 2 ^ 63"
    "own_channel (epoll_ops K) (conn_in (world r)) = Inr ch" "has_read_cb ch"
    "readv_contract readv" "write_contract write" "room 131070 (input_buffer (user (world r)))"
    "readv (ch_fd ch) (read_iov (input_buffer (user (world r)))) = Inr bs" "bs \<noteq> []"
    "room (length bs) (output_buffer (user (world r)))" "\<not> write_fails (epoll_ops K) write bs (conn_in (world r))"
  shows "\<exists>r'. loop_turn (epoll_ops K) E (echo_client E (epoll_ops K) readv write so p) X r = Some (Inr r') \<and>
    serving (epoll_ops K) (epoll_view K) (recv @ bs) r' \<and>
    sock_out (user (world r')) = sock_out (user (world r)) @
      (if readable (output_buffer (user (world r))) = []
       then (case write (ch_fd ch) bs of Inl e \<Rightarrow> [] | Inr n \<Rightarrow> take n bs) else []) \<and>
    sock_out (user (world r')) @ readable (output_buffer (user (world r'))) = recv @ bs \<and>
    (readable (output_buffer (user (world r))) = [] \<and> write (ch_fd ch) bs = Inr (length bs) \<longrightarrow>
       sock_out (user (world r')) = recv @ bs) \<and>
    readable (input_buffer (user (world r'))) = [] \<and> pending_functors (ev_loop (world r')) = []"
proof -
  let ?P = "epoll_ops K" and ?V = "epoll_view K" and ?U = "echo_client E (epoll_ops K) readv write so p"
  have "tm_inv r" using assms(1) by (simp add: serving_def)
  from serve_timers [OF this assms(5)] obtain r1 where
    r1: "CheckAndHandle (world_run (run_timer ?U)) (clock_check X) r = Some (Inr r1)" "tm_inv r1" "world r1 = world r" by blast
  have "serving ?P ?V recv r1" using assms(1) r1(2,3) by (simp add: serving_def)
  from serve_event [OF this assms(2) _ assms(4) _ assms(7-9), of bs E so p] assms(3,6,10-14) r1(3) obtain r2 where
    r2: "PollAndHandleIoEvent ?P E ?U X r1 = Inr r2" "serving ?P ?V (recv @ bs) r2"
      "sock_out (user (world r2)) = sock_out (user (world r)) @ taken write (ch_fd ch) bs (user (world r))"
    by (auto simp: conn_in_def taken_def)
  from serve_functors [OF r2(2)] obtain r' where
    r': "loop_functors ?U r2 = Inr r'" "serving ?P ?V (recv @ bs) r'" "pending_functors (ev_loop (world r')) = []"
    "sock_out (user (world r')) = sock_out (user (world r2))" by blast
  have "loop_turn ?P E ?U X r = Some (Inr r')" using r1(1) r2(1) r'(1) by (simp add: loop_turn_def)
  moreover have "sock_out (user (world r')) @ readable (output_buffer (user (world r'))) = recv @ bs"
    "readable (input_buffer (user (world r'))) = []"
    using r'(2) by (simp_all add: serving_def echo_inv_def stream_def conn_in_def)
  moreover have out: "sock_out (user (world r')) = sock_out (user (world r)) @ taken write (ch_fd ch) bs (user (world r))"
    using r'(4) r2(3) by simp
  moreover have "sock_out (user (world r')) = recv @ bs"
    if "readable (output_buffer (user (world r))) = [] \<and> write (ch_fd ch) bs = Inr (length bs)"
    using out that assms(1) by (simp add: taken_def serving_def echo_inv_def stream_def conn_in_def)
  ultimately show ?thesis using r'(2,3) unfolding taken_def by blast
qed

text \<open>The sample connection of \<open>Echo_Server\<close> on a loop whose wake-up channel is at address 7.\<close>

definition echo_reactor :: "(nat, task, nat, (cint \<rightharpoonup> cint \<times> ptr) epoller, (cint \<rightharpoonup> cint \<times> ptr) epoller connection) reactor" where
  "echo_reactor = empty_manager
     \<lparr>ev_loop = \<lparr>looping = True, quit = False, thread_id = 1, pending_functors = [WriteCompleteTask],
                 calling_pending_functors = False, wake_fd = 0\<rparr>,
      loop_poller = poller_of live_conn, active_channels = [], wakeup_channel = 7, poll_return_time = 0, user = live_conn\<rparr>"

lemma live_poller:
  "events_len (poller_of live_conn) = 16" "kern (poller_of live_conn) 5 = Some (3, 0)"
  "\<exists>ch. own_channel (epoll_ops map_kernel) live_conn = Inr ch \<and> has_read_cb ch"
proof -
  obtain b where b: "Buffer_ctor kInitialSize = Inr b" using new_conn_eq(8) by blast
  have n: "poller_of new_conn = ep_set_chan 0 ((Channel_ctor 5)\<lparr>has_read_cb := True, has_write_cb := True,
              has_error_cb := True, has_close_cb := True\<rparr>) (epoller_init Map.empty Map.empty)"
    by (simp add: new_conn_ctor [unfolded TcpConnection_ctor_def CheckLoopNotNull_def b, simplified, symmetric] epoll_ops_def)
  define s where "s = \<lparr>ep_chans = [0 \<mapsto> \<lparr>ch_fd = 5, events = 3, revents = 0, index = 1, tie = Some 1,
      has_read_cb = True, has_write_cb = True, has_close_cb = True, has_error_cb = True\<rparr>],
    channel_maps = [5 \<mapsto> 0], events_len = 16, kern = [5 :: cint \<mapsto> (3 :: cint, 0 :: ptr)]\<rparr>"
  have l: "live_conn = new_conn\<lparr>state := kConnected, poller_of := s\<rparr>"
    by (simp add: live_conn_def ConnectionEstablished_def n s_def Let_def own_channel_def conn_set_def channel_set_def epoll_ops_def
        ep_UpdateChannel_def ep_Update_def ep_set_index_def ep_set_chan_def new_conn_eq(2) epoller_init_def map_kernel_def
        Channel_ctor_def Tie_def enable_read_def Set_Index_def epoll_index quiet_cb_def kInitEventSize_def event_flags)
  show "events_len (poller_of live_conn) = 16" "kern (poller_of live_conn) 5 = Some (3, 0)"
    "\<exists>ch. own_channel (epoll_ops map_kernel) live_conn = Inr ch \<and> has_read_cb ch"
    by (simp_all add: l own_channel_def new_conn_eq(2) s_def)
qed

theorem echo_turn_witness:
  "\<exists>r'. loop_turn (epoll_ops map_kernel) counter_efd (echo_client counter_efd (epoll_ops map_kernel) text_arrives one_byte (Inr 0) 9)
      (quiet_os 0) echo_reactor = Some (Inr r') \<and> sock_out (user (world r')) = ''p'' \<and>
    sock_out (user (world r')) @ readable (output_buffer (user (world r'))) = ''ping'' \<and>
    readable (input_buffer (user (world r'))) = [] \<and> pending_functors (ev_loop (world r')) = []"
proof -
  have w: "user (world echo_reactor) = live_conn" "loop_poller (world echo_reactor) = poller_of live_conn"
    "conn_in (world echo_reactor) = live_conn"
    by (simp_all add: echo_reactor_def empty_manager_def conn_in_def)
  have "serving (epoll_ops map_kernel) (epoll_view map_kernel) [] echo_reactor"
    using epoll_conn.echo_run_inv [OF live_conn_echo] live_conn_simps(1,2,9) empty_manager_inv
    unfolding serving_def w by (simp add: echo_reactor_def) (simp add: empty_manager_def)
  moreover have "\<forall>t. epoll_wait map_kernel (events_len (loop_poller (world echo_reactor))) t (kern (loop_poller (world echo_reactor))) =
      Inr [(POLLIN, conn_chan (user (world echo_reactor)))]"
    using live_poller(1,2) live_conn_simps(2) by (simp add: w map_kernel_def POLLIN_def)
  moreover obtain ch where "own_channel (epoll_ops map_kernel) (conn_in (world echo_reactor)) = Inr ch" "has_read_cb ch"
    using live_poller(3) by (auto simp: w)
  moreover have "polling (quiet_os 0) = ep_Polling map_kernel" "unat (GetCurrentMillisecs (clock_check (quiet_os 0))) < 2 ^ 63"
    by (simp_all add: quiet_os_def GetCurrentMillisecs_def signed_divide_int_def)
  moreover have "room 131070 (input_buffer (user (world echo_reactor)))" "room (length ''ping'') (output_buffer (user (world echo_reactor)))"
    "\<not> write_fails (epoll_ops map_kernel) one_byte ''ping'' (conn_in (world echo_reactor))"
    using live_conn_room live_conn_simps(5) by (simp_all add: w write_fails_def one_byte_def)
  ultimately obtain r' where
    r': "loop_turn (epoll_ops map_kernel) counter_efd (echo_client counter_efd (epoll_ops map_kernel) text_arrives one_byte (Inr 0) 9)
      (quiet_os 0) echo_reactor = Some (Inr r')"
    "sock_out (user (world r')) = sock_out live_conn @ (if readable (output_buffer live_conn) = []
       then (case one_byte (ch_fd ch) ''ping'' of Inl e \<Rightarrow> [] | Inr n \<Rightarrow> take n ''ping'') else [])"
    "sock_out (user (world r')) @ readable (output_buffer (user (world r'))) = ''ping''"
    "readable (input_buffer (user (world r'))) = []" "pending_functors (ev_loop (world r')) = []"
    using echo_turn [OF _ map_kernel_contract(2) _ _ _ _ _ text_arrives_facts(1) one_byte_contract _ text_arrives_facts(2),
        where r = echo_reactor and ch = ch and E = counter_efd and so = "Inr 0" and p = 9 and X = "quiet_os 0" and recv = "[]"]
    unfolding w by (metis append_Nil list.distinct(1))
  have "sock_out (user (world r')) = ''p''" using r'(2) live_conn_simps by (simp add: one_byte_def)
  with r' show ?thesis by blast
qed

end
