(* ===== verification/Connection_Set.thy ===== *)
theory Connection_Set
  imports Tcp_Connection
begin

text \<open>
  Many connections on one loop. The connections a \<open>TcpServer\<close> gives to an I/O loop share its
  poller (\<^verbatim>\<open>src/tcp_server.cc\<close>, \<open>NewConnection\<close> and \<open>RemoveConnectionInLoop\<close>): each keeps
  its own buffers and state, all of them change the one \<open>EpollPoller\<close>. The first part shows that
  every operation of a connection is local: it changes its own channel, the entry of its own
  descriptor in \<open>channel_maps_\<close> and in the kernel's interest list, and nothing else. The second
  part follows from it: the invariant of a connection survives whatever the others do.
\<close>

section \<open>What one channel may change\<close>

definition ep_others :: "'k epoll_kernel \<Rightarrow> ptr \<Rightarrow> 'k epoller \<Rightarrow> 'k epoller \<Rightarrow> bool" where
  "ep_others K p s t \<longleftrightarrow> (\<forall>q. q \<noteq> p \<longrightarrow> ep_chans t q = ep_chans s q) \<and>
     (\<forall>c. ep_chans s p = Some c \<longrightarrow> (\<exists>d. ep_chans t p = Some d \<and> ch_fd d = ch_fd c) \<and>
        (\<forall>fd. fd \<noteq> ch_fd c \<longrightarrow> channel_maps t fd = channel_maps s fd \<and>
           interest K (kern t) fd = interest K (kern s) fd))"

lemma ep_others_refl [simp]: "ep_others K p s s"
  by (simp add: ep_others_def)

lemma ep_others_trans [trans]:
  assumes "ep_others K p s t" "ep_others K p t u"
  shows "ep_others K p s u"
proof (cases "ep_chans s p")
  case None
  then show ?thesis using assms by (simp add: ep_others_def)
next
  case (Some c)
  then obtain d where "ep_chans t p = Some d" "ch_fd d = ch_fd c" using assms(1) by (auto simp: ep_others_def)
  then show ?thesis using assms Some by (auto simp: ep_others_def)
qed

lemma ep_others_Update:
  assumes "epoll_contract K" "ep_Update K op p s = Inr t"
  shows "ep_others K p s t"
  using assms(2) epoll_ctl_local [OF assms(1)]
  by (auto simp: ep_Update_def ep_others_def split: option.splits sum.splits if_splits)

lemma ep_others_set:
  assumes "\<And>c. ep_chans s p = Some c \<Longrightarrow> ch_fd d = ch_fd c"
  shows "ep_others K p s (ep_set_chan p d s)"
  using assms by (auto simp: ep_others_def ep_set_chan_def)

lemma ep_others_set_index: "ep_others K p s (ep_set_index p i s)"
  by (auto simp: ep_others_def ep_set_index_def Set_Index_def)

lemma ep_others_maps:
  assumes "ep_chans s p = Some c"
  shows "ep_others K p s (s\<lparr>channel_maps := (channel_maps s)(ch_fd c := x)\<rparr>)"
  using assms by (simp add: ep_others_def)

lemma ep_others_UpdateChannel:
  assumes "epoll_contract K" "ep_UpdateChannel K p s = Inr t"
  shows "ep_others K p s t"
proof -
  obtain c where c: "ep_chans s p = Some c"
    using assms(2) by (auto simp: ep_UpdateChannel_def split: option.splits)
  define s1 where "s1 = (if index c = kNew then s\<lparr>channel_maps := (channel_maps s)(ch_fd c \<mapsto> p)\<rparr> else s)"
  have s1: "ep_others K p s s1" using ep_others_maps [OF c] by (simp add: s1_def)
  consider (add) "ep_Update K EPOLL_CTL_ADD p (ep_set_index p kAdded s1) = Inr t"
    | (del) u where "ep_Update K EPOLL_CTL_DEL p s = Inr u" "t = ep_set_index p kDeleted u"
    | (mod) "ep_Update K EPOLL_CTL_MOD p s = Inr t"
    using assms(2) c
    by (auto simp: ep_UpdateChannel_def Let_def s1_def [symmetric] res_bind_eq_Inr split: if_splits)
  then show ?thesis
  proof cases
    case add
    note s1
    also have "ep_others K p s1 (ep_set_index p kAdded s1)" by (rule ep_others_set_index)
    also have "ep_others K p (ep_set_index p kAdded s1) t" using assms(1) add by (rule ep_others_Update)
    finally show ?thesis .
  next
    case del
    have "ep_others K p s u" using assms(1) del(1) by (rule ep_others_Update)
    also have "ep_others K p u t" unfolding del(2) by (rule ep_others_set_index)
    finally show ?thesis .
  next
    case mod
    with assms(1) show ?thesis by (rule ep_others_Update)
  qed
qed

lemma ep_others_RemoveChannel:
  assumes "epoll_contract K" "ep_RemoveChannel K p s = Inr t"
  shows "ep_others K p s t"
proof -
  obtain c where c: "ep_chans s p = Some c"
    using assms(2) by (auto simp: ep_RemoveChannel_def split: option.splits)
  define s1 where "s1 = s\<lparr>channel_maps := (channel_maps s)(ch_fd c := None)\<rparr>"
  obtain s2 where s2: "(if index c = kAdded then ep_Update K EPOLL_CTL_DEL p s1 else Inr s1) = Inr s2"
    "t = ep_set_index p kNew s2"
    using assms(2) c by (auto simp: ep_RemoveChannel_def Let_def s1_def [symmetric] res_bind_eq_Inr)
  have "ep_others K p s s1" unfolding s1_def using c by (rule ep_others_maps)
  also have "ep_others K p s1 s2"
    using s2(1) ep_others_Update [OF assms(1)] by (auto split: if_splits)
  also have "ep_others K p s2 t" unfolding s2(2) by (rule ep_others_set_index)
  finally show ?thesis .
qed

section \<open>Every operation of a connection is local\<close>

definition conn_local :: "'k epoll_kernel \<Rightarrow> 'k epoller connection \<Rightarrow> 'k epoller connection \<Rightarrow> bool" where
  "conn_local K c c' \<longleftrightarrow> conn_chan c' = conn_chan c \<and> ep_others K (conn_chan c) (poller_of c) (poller_of c')"

text \<open>The user's callbacks work on the connection they are given.\<close>

definition cb_local :: "'k epoll_kernel \<Rightarrow> 'k epoller callbacks \<Rightarrow> bool" where
  "cb_local K cb \<longleftrightarrow> (\<forall>e c c'. cb e c = Inr c' \<longrightarrow> conn_local K c c')"

lemma conn_local_same [simp]:
  "poller_of c' = poller_of c \<Longrightarrow> conn_chan c' = conn_chan c \<Longrightarrow> conn_local K c c'"
  by (simp add: conn_local_def)

lemma conn_local_trans [trans]:
  "conn_local K c d \<Longrightarrow> conn_local K d e \<Longrightarrow> conn_local K c e"
  by (auto simp: conn_local_def intro: ep_others_trans)

lemma conn_local_from [simp]:
  "conn_local K (c\<lparr>state := st\<rparr>) c' = conn_local K c c'"
  "conn_local K (c\<lparr>sock_out := x\<rparr>) c' = conn_local K c c'"
  "conn_local K (c\<lparr>tasks := ts\<rparr>) c' = conn_local K c c'"
  "conn_local K (c\<lparr>input_buffer := b\<rparr>) c' = conn_local K c c'"
  "conn_local K (c\<lparr>output_buffer := b\<rparr>) c' = conn_local K c c'"
  by (simp_all add: conn_local_def)

lemma conn_set_local:
  assumes "epoll_contract K" "conn_set (epoll_ops K) f c = Inr c'"
    "f \<in> {enable_read, disable_read, enable_write, disable_write, disable_all}"
  shows "conn_local K c c'"
proof -
  obtain ch t where ch: "ep_chans (poller_of c) (conn_chan c) = Some ch" "c' = c\<lparr>poller_of := t\<rparr>"
    "ep_UpdateChannel K (conn_chan c) (ep_set_chan (conn_chan c) (f ch) (poller_of c)) = Inr t"
    using assms(2)
    by (auto simp: conn_set_def channel_set_def epoll_ops_def res_bind_eq_Inr split: option.splits)
  have "ch_fd (f ch) = ch_fd ch" using assms(3) by (auto simp: channel_setters)
  then have "ep_others K (conn_chan c) (poller_of c) (ep_set_chan (conn_chan c) (f ch) (poller_of c))"
    using ch(1) by (intro ep_others_set) simp
  from ep_others_trans [OF this ep_others_UpdateChannel [OF assms(1) ch(3)]]
  show ?thesis using ch(2) by (simp add: conn_local_def)
qed

lemma po_remove_epoll [simp]: "po_remove (epoll_ops K) = ep_RemoveChannel K"
  by (simp add: epoll_ops_def)

lemma cb_localD: "cb_local K cb \<Longrightarrow> cb e c = Inr c' \<Longrightarrow> conn_local K c c'"
  unfolding cb_local_def by blast

lemma HandleClose_local:
  assumes "epoll_contract K" "cb_local K cb" "conn_HandleClose (epoll_ops K) cb c = Inr c'"
  shows "conn_local K c c'"
proof -
  obtain c1 c2 where s: "conn_set (epoll_ops K) disable_all (c\<lparr>state := kDisconnected\<rparr>) = Inr c1"
    "cb ConnectionCallback c1 = Inr c2" "cb CloseCallback c2 = Inr c'"
    using assms(3) by (auto simp: conn_HandleClose_def res_bind_eq_Inr)
  have "conn_local K c c1" using conn_set_local [OF assms(1) s(1)] by simp
  also have "conn_local K c1 c2" using assms(2) s(2) by (rule cb_localD)
  also have "conn_local K c2 c'" using assms(2) s(3) by (rule cb_localD)
  finally show ?thesis .
qed

lemma send_direct_local:
  assumes "cb_local K cb" "send_direct cb write fd data c = Inr (n, e, c')"
  shows "conn_local K c c'"
  using assms(2) cb_localD [OF assms(1), of WriteCompleteCallback "c\<lparr>sock_out := x\<rparr>" for x]
  by (auto simp: send_direct_def Let_def res_bind_eq_Inr split: sum.splits if_splits)

lemma send_queue_local:
  assumes "epoll_contract K" "send_queue (epoll_ops K) data c = Inr c'"
  shows "conn_local K c c'"
  using assms(2) conn_set_local [OF assms(1), of enable_write "c\<lparr>output_buffer := b\<rparr>" for b]
  by (auto simp: send_queue_def res_bind_eq_Inr split: if_splits)

lemma SendInLoop_local:
  assumes "epoll_contract K" "cb_local K cb" "SendInLoop (epoll_ops K) cb write data c = Inr c'"
  shows "conn_local K c c'"
proof (cases "state c = kDisconnected")
  case True
  then show ?thesis using assms(3) by (simp add: SendInLoop_def)
next
  case False
  then obtain ch n e c1 where s:
    "(if \<not> IsWriting ch \<and> ReadableBytes (output_buffer c) = 0
      then send_direct cb write (ch_fd ch) data c else Inr (0, False, c)) = Inr (n, e, c1)"
    "(if \<not> e \<and> 0 < length data - n then send_queue (epoll_ops K) (drop n data) c1 else Inr c1) = Inr c'"
    using assms(3) unfolding SendInLoop_def by (auto simp: res_bind_eq_Inr)
  have "conn_local K c c1" using s(1) send_direct_local [OF assms(2)] by (auto split: if_splits)
  also have "conn_local K c1 c'" using s(2) send_queue_local [OF assms(1)] by (auto split: if_splits)
  finally show ?thesis .
qed

lemma ShutdownInLoop_local: "ShutdownInLoop (epoll_ops K) c = Inr c' \<Longrightarrow> conn_local K c c'"
  by (auto simp: ShutdownInLoop_def ShutdownWrite_def res_bind_eq_Inr split: if_splits)

lemma run_task_local:
  assumes "epoll_contract K" "cb_local K cb" "run_task (epoll_ops K) cb write t c = Inr c'"
  shows "conn_local K c c'"
  using assms(3) SendInLoop_local [OF assms(1,2)] cb_localD [OF assms(2)] ShutdownInLoop_local
  by (cases t) (auto simp: run_task_def res_bind_eq_Inr)

lemma Established_local:
  assumes "epoll_contract K" "cb_local K cb" "ConnectionEstablished (epoll_ops K) cb self c = Inr c'"
  shows "conn_local K c c'"
proof -
  obtain ch c1 where s: "ep_chans (poller_of c) (conn_chan c) = Some ch" "cb ConnectionCallback c1 = Inr c'"
    "conn_set (epoll_ops K) enable_read
       (c\<lparr>state := kConnected, poller_of := ep_set_chan (conn_chan c) (Tie self ch) (poller_of c)\<rparr>) = Inr c1"
    using assms(3)
    by (auto simp: ConnectionEstablished_def own_channel_def epoll_ops_def Let_def res_bind_eq_Inr
        split: option.splits)
  let ?c0 = "c\<lparr>state := kConnected, poller_of := ep_set_chan (conn_chan c) (Tie self ch) (poller_of c)\<rparr>"
  have "conn_local K c ?c0"
    using s(1) by (auto simp: conn_local_def Tie_def intro!: ep_others_set)
  also have "conn_local K ?c0 c1" using assms(1) s(3) by (rule conn_set_local) simp
  also have "conn_local K c1 c'" using assms(2) s(2) by (rule cb_localD)
  finally show ?thesis .
qed

lemma Destroyed_local:
  assumes "epoll_contract K" "cb_local K cb" "ConnectionDestroyed (epoll_ops K) cb c = Inr c'"
  shows "conn_local K c c'"
proof -
  obtain c1 t where s: "(if state c = kConnected
        then res_bind (conn_set (epoll_ops K) disable_all (c\<lparr>state := kDisconnected\<rparr>)) (cb ConnectionCallback)
        else Inr c) = Inr c1" "ep_RemoveChannel K (conn_chan c1) (poller_of c1) = Inr t" "c' = c1\<lparr>poller_of := t\<rparr>"
    using assms(3)
    by (auto simp: ConnectionDestroyed_def conn_remove_def res_bind_eq_Inr split del: if_split)
  have "conn_local K c c1"
  proof (cases "state c = kConnected")
    case True
    then obtain c0 where c0: "conn_set (epoll_ops K) disable_all (c\<lparr>state := kDisconnected\<rparr>) = Inr c0"
      "cb ConnectionCallback c0 = Inr c1" using s(1) by (auto simp: res_bind_eq_Inr)
    have "conn_local K c c0" using conn_set_local [OF assms(1) c0(1)] by simp
    also have "conn_local K c0 c1" using assms(2) c0(2) by (rule cb_localD)
    finally show ?thesis .
  next
    case False
    then show ?thesis using s(1) by simp
  qed
  also have "conn_local K c1 c'"
    using ep_others_RemoveChannel [OF assms(1) s(2)] s(3) by (simp add: conn_local_def)
  finally show ?thesis .
qed

lemma HandleRead_local:
  assumes "epoll_contract K" "cb_local K cb" "conn_HandleRead (epoll_ops K) cb readv so c = Inr c'"
  shows "conn_local K c c'"
  using assms(3) cb_localD [OF assms(2), of MessageCallback "c\<lparr>input_buffer := b\<rparr>" for b]
    HandleClose_local [OF assms(1,2), of "c\<lparr>input_buffer := b\<rparr>" for b]
  by (auto simp: conn_HandleRead_def conn_HandleError_def Let_def res_bind_eq_Inr split: if_splits)

lemma drained_local:
  assumes "epoll_contract K" "conn_set (epoll_ops K) disable_write c = Inr c2"
    "c3 = (if write_complete_set c2 then queue_task WriteCompleteTask c2 else c2)"
    "(if state c3 = kDisconnecting then ShutdownInLoop (epoll_ops K) c3 else Inr c3) = Inr c'"
  shows "conn_local K c c'"
proof -
  have "conn_local K c c2" using assms(1,2) by (rule conn_set_local) simp
  also have "conn_local K c2 c3" using assms(3) by (simp add: queue_task_def)
  also have "conn_local K c3 c'" using assms(4) ShutdownInLoop_local by (auto split: if_splits)
  finally show ?thesis .
qed

lemma HandleWrite_cases:
  assumes "conn_HandleWrite P write c = Inr c'"
  obtains "c' = c" | x b where "c' = c\<lparr>sock_out := x, output_buffer := b\<rparr>"
  | x b c2 where "conn_set P disable_write (c\<lparr>sock_out := x, output_buffer := b\<rparr>) = Inr c2"
    "(let c3 = (if write_complete_set c2 then queue_task WriteCompleteTask c2 else c2) in
      if state c3 = kDisconnecting then ShutdownInLoop P c3 else Inr c3) = Inr c'"
proof -
  obtain ch where ch: "own_channel P c = Inr ch"
    using assms by (auto simp: conn_HandleWrite_def res_bind_eq_Inr)
  show thesis
  proof (cases "IsWriting ch")
    case False
    then show ?thesis using assms ch that(1) by (simp add: conn_HandleWrite_def)
  next
    case True
    then obtain n e where w: "WriteFd write (ch_fd ch) (output_buffer c) = Inr (n, e)"
      using assms ch by (auto simp: conn_HandleWrite_def res_bind_eq_Inr)
    let ?x = "sock_out c @ take (nat n) (readable (output_buffer c))"
    let ?b = "Retrive (word_of_int n) (output_buffer c)"
    consider "c' = c" | "c' = c\<lparr>sock_out := ?x, output_buffer := ?b\<rparr>"
      | c2 where "conn_set P disable_write (c\<lparr>sock_out := ?x, output_buffer := ?b\<rparr>) = Inr c2"
        "(let c3 = (if write_complete_set c2 then queue_task WriteCompleteTask c2 else c2) in
          if state c3 = kDisconnecting then ShutdownInLoop P c3 else Inr c3) = Inr c'"
      using assms ch True w
      by (cases "0 < n"; cases "ReadableBytes ?b = 0")
        (auto simp: conn_HandleWrite_def res_bind_eq_Inr Let_def split del: if_split)
    then show ?thesis using that by cases blast+
  qed
qed

lemma HandleWrite_local:
  assumes "epoll_contract K" "conn_HandleWrite (epoll_ops K) write c = Inr c'"
  shows "conn_local K c c'"
  using assms(2)
proof (cases rule: HandleWrite_cases)
  case (3 x b c2)
  have "conn_local K (c\<lparr>sock_out := x, output_buffer := b\<rparr>) c'" using 3(2) unfolding Let_def
    by (intro drained_local [OF assms(1) 3(1) refl])
  then show ?thesis by simp
qed simp_all

lemma Send_Buffer_local:
  assumes "epoll_contract K" "cb_local K cb" "Send_Buffer (epoll_ops K) cb write in_loop tmp b c = Inr (b', c')"
  shows "conn_local K c c'"
  using assms(3) SendInLoop_local [OF assms(1,2)]
  by (auto simp: Send_Buffer_def Let_def queue_task_def res_bind_eq_Inr split: if_splits)

lemma conn_op_local:
  assumes "epoll_contract K" "cb_local K cb" "conn_op K cb c c'"
  shows "conn_local K c c'"
  using assms(3)
proof cases
  case (run t ts wr)
  then show ?thesis using run_task_local [OF assms(1,2), of wr t "c\<lparr>tasks := ts\<rparr>"] by simp
next
  case event_read
  then show ?thesis using HandleRead_local [OF assms(1,2)] by blast
next
  case event_write
  then show ?thesis using HandleWrite_local [OF assms(1)] by blast
next
  case send_buffer
  then show ?thesis using Send_Buffer_local [OF assms(1,2)] by blast
qed (use SendInLoop_local [OF assms(1,2)] ShutdownInLoop_local in
      \<open>auto simp: Send_string_def Send_chars_def ShutDown_def queue_task_def conn_HandleError_def Let_def res_bind_eq_Inr
         split: if_splits option.splits dest!: ShutdownInLoop_local\<close>)

lemma conn_step_local:
  assumes "epoll_contract K" "cb_local K cb" "conn_step K cb c c'"
  shows "conn_local K c c'"
  using assms(3)
proof cases
  case established
  then show ?thesis using Established_local [OF assms(1,2)] by blast
next
  case op
  with assms(1,2) show ?thesis by (rule conn_op_local)
next
  case event_end
  then show ?thesis using HandleRead_local [OF assms(1,2)] by blast
next
  case event_close
  then show ?thesis using HandleClose_local [OF assms(1,2)] by blast
next
  case destroyed
  then show ?thesis using Destroyed_local [OF assms(1,2)] by blast
qed

section \<open>The connections of a loop\<close>

text \<open>
  \<open>members\<close> are the connections by the address of their channel, each with a note of what it has
  seen (for the echo server the bytes received from that client); \<open>shared\<close> is the loop's poller. A
  member is seen with the loop's poller in place (\<open>member\<close>).
\<close>

record ('k, 'g) conn_set =
  shared :: "'k epoller"
  members :: "ptr \<rightharpoonup> 'g \<times> 'k epoller connection"

definition member :: "('k, 'g) conn_set \<Rightarrow> ptr \<Rightarrow> ('g \<times> 'k epoller connection) option" where
  "member S p = map_option (\<lambda>(g, c). (g, c\<lparr>poller_of := shared S\<rparr>)) (members S p)"

text \<open>The connection at \<open>p\<close> acted: its new state and the poller it leaves.\<close>

definition put_member :: "ptr \<Rightarrow> 'g \<Rightarrow> 'k epoller connection \<Rightarrow> ('k, 'g) conn_set \<Rightarrow> ('k, 'g) conn_set" where
  "put_member p g c S = S\<lparr>shared := poller_of c, members := (members S)(p \<mapsto> (g, c))\<rparr>"

text \<open>
  The destructor: \<open>connections_\<close> and the functor of \<open>ConnectionDestroyed\<close> have dropped their
  references, the channel is freed with the connection and the descriptor is closed. Functors of
  \<open>Send\<close> and \<open>ShutDown\<close> that are still queued end with it here; in the code they hold the address of the connection without
  a reference, and would run on a freed object.
\<close>

definition drop_member :: "ptr \<Rightarrow> ('k, 'g) conn_set \<Rightarrow> ('k, 'g) conn_set" where
  "drop_member p S = S\<lparr>shared := (shared S)\<lparr>ep_chans := (ep_chans (shared S))(p := None)\<rparr>,
     members := (members S)(p := None)\<rparr>"

text \<open>
  A connection acts by \<open>act\<close>; \<open>NewConnection\<close> makes one and sets its callbacks, with nothing seen
  yet (\<open>g0\<close>), on a descriptor of \<open>accept\<close> that no open socket has. The poller may hold other
  channels from the start (the loop's own, the acceptor's), which change what is theirs.
\<close>

inductive conns_reachable ::
  "'k epoll_kernel \<Rightarrow> 'g \<Rightarrow> ('g \<Rightarrow> 'k epoller connection \<Rightarrow> 'g \<Rightarrow> 'k epoller connection \<Rightarrow> bool) \<Rightarrow>
   ('k, 'g) conn_set \<Rightarrow> bool" for K g0 act where
  none: "ep_inv K s \<Longrightarrow> conns_reachable K g0 act \<lparr>shared = s, members = Map.empty\<rparr>"
| connect: "conns_reachable K g0 act S \<Longrightarrow> ep_chans (shared S) p = None \<Longrightarrow>
    (\<forall>q d. ep_chans (shared S) q = Some d \<longrightarrow> ch_fd d \<noteq> fd) \<Longrightarrow>
    TcpConnection_ctor (epoll_ops K) (Some (shared S)) p fd = Inr c \<Longrightarrow>
    conns_reachable K g0 act (put_member p g0 (c\<lparr>write_complete_set := w\<rparr>) S)"
| act: "conns_reachable K g0 act S \<Longrightarrow> member S p = Some (g, c) \<Longrightarrow> act g c g' c' \<Longrightarrow>
    conns_reachable K g0 act (put_member p g' c' S)"
| poll: "conns_reachable K g0 act S \<Longrightarrow> ep_Polling K timeout (shared S) [] = Inr (s, active) \<Longrightarrow>
    conns_reachable K g0 act (S\<lparr>shared := s\<rparr>)"
| delete: "conns_reachable K g0 act S \<Longrightarrow> member S p = Some (g, c) \<Longrightarrow> state c = kDisconnected \<Longrightarrow>
    \<not> ep_registered (shared S) p \<Longrightarrow> conns_reachable K g0 act (drop_member p S)"
| foreign: "conns_reachable K g0 act S \<Longrightarrow> members S q = None \<Longrightarrow> ep_chans (shared S) q = Some d \<Longrightarrow>
    ep_others K q (shared S) s \<Longrightarrow> ep_inv K s \<Longrightarrow> conns_reachable K g0 act (S\<lparr>shared := s\<rparr>)"

lemma member_simps [simp]:
  "member (put_member p g c S) q =
     (if q = p then Some (g, c) else map_option (\<lambda>(g, d). (g, d\<lparr>poller_of := poller_of c\<rparr>)) (members S q))"
  "member (S\<lparr>shared := s\<rparr>) q = map_option (\<lambda>(g, d). (g, d\<lparr>poller_of := s\<rparr>)) (members S q)"
  "member (drop_member p S) q = (if q = p then None else
     map_option (\<lambda>(g, d). (g, d\<lparr>poller_of := (shared S)\<lparr>ep_chans := (ep_chans (shared S))(p := None)\<rparr>\<rparr>)) (members S q))"
  "shared (put_member p g c S) = poller_of c"
  "shared (drop_member p S) = (shared S)\<lparr>ep_chans := (ep_chans (shared S))(p := None)\<rparr>"
  by (auto simp: member_def put_member_def drop_member_def option.map_comp comp_def)

lemma member_shared: "member S p = Some (g, c) \<Longrightarrow> poller_of c = shared S"
  by (auto simp: member_def)

text \<open>What a connection's invariant depends on in the poller.\<close>

lemma conn_inv_view:
  assumes "conn_inv (epoll_ops K) (epoll_view K) c" "ep_chans (poller_of c) (conn_chan c) = Some ch"
    "ep_inv K t" "ep_chans t (conn_chan c) = Some (ch\<lparr>revents := r\<rparr>)"
    "channel_maps t (ch_fd ch) = channel_maps (poller_of c) (ch_fd ch)"
    "interest K (kern t) (ch_fd ch) = interest K (kern (poller_of c)) (ch_fd ch)"
  shows "conn_inv (epoll_ops K) (epoll_view K) (c\<lparr>poller_of := t\<rparr>)"
proof -
  have reg: "ep_registered t (conn_chan c) = ep_registered (poller_of c) (conn_chan c)"
    using assms(2,4) by (simp add: ep_registered_def)
  have w: "ep_watch K t (ch_fd ch) = ep_watch K (poller_of c) (ch_fd ch)"
    using assms(6) by (simp add: ep_watch_def)
  show ?thesis using assms reg w
    by (cases "state c") (simp_all add: conn_inv_def conn_state_ok_def events_ok_def IsReading_def IsWriting_def
        ep_fd_free_def)
qed

lemma FillActive_frame:
  assumes "ep_FillActiveChannels evs s active = Inr (t, act)"
  shows "kern t = kern s \<and> channel_maps t = channel_maps s \<and>
    (\<forall>q. map_option (\<lambda>c. c\<lparr>revents := 0\<rparr>) (ep_chans t q) = map_option (\<lambda>c. c\<lparr>revents := 0\<rparr>) (ep_chans s q))"
  using assms
proof (induction evs s active rule: ep_FillActiveChannels.induct)
  case (2 ev p evs s active)
  then obtain c where c: "ep_chans s p = Some c" by (auto split: option.splits)
  show ?case using "2.IH" [OF c] "2.prems" c by (auto simp: Set_Revents_def)
qed simp

lemma Polling_frame:
  assumes "ep_Polling K timeout s active = Inr (t, act)"
  shows "kern t = kern s \<and> channel_maps t = channel_maps s \<and>
    (\<forall>q. map_option (\<lambda>c. c\<lparr>revents := 0\<rparr>) (ep_chans t q) = map_option (\<lambda>c. c\<lparr>revents := 0\<rparr>) (ep_chans s q))"
  using assms
  by (auto simp: ep_Polling_def res_bind_eq_Inr split: sum.splits if_splits dest!: FillActive_frame)

lemma revents_only:
  assumes "map_option (\<lambda>c. c\<lparr>revents := 0\<rparr>) y = map_option (\<lambda>c. c\<lparr>revents := 0\<rparr>) (Some ch)"
  shows "\<exists>r. y = Some (ch\<lparr>revents := r\<rparr>)"
proof -
  obtain d where d: "y = Some d" "d\<lparr>revents := 0\<rparr> = ch\<lparr>revents := 0\<rparr>" using assms by (cases y) auto
  then have "d = ch\<lparr>revents := revents d\<rparr>" by (cases d; cases ch) simp
  then show ?thesis using d(1) by blast
qed

lemma ep_inv_free:
  assumes "ep_inv K s" "\<not> ep_registered s p"
  shows "ep_inv K (s\<lparr>ep_chans := (ep_chans s)(p := None)\<rparr>)"
proof -
  have "channel_maps s fd \<noteq> Some p" for fd using assms by (auto simp: ep_registered_def dest!: ep_invD(2))
  moreover have "(if q = p then None else ep_chans s q) = Some c \<longleftrightarrow> q \<noteq> p \<and> ep_chans s q = Some c" for q c by simp
  ultimately show ?thesis using ep_invD [OF assms(1)] unfolding ep_inv_def by (simp add: fun_upd_def) metis
qed

definition conns_inv ::
  "'k epoll_kernel \<Rightarrow> ('g \<Rightarrow> 'k epoller connection \<Rightarrow> bool) \<Rightarrow> ('k, 'g) conn_set \<Rightarrow> bool" where
  "conns_inv K good S \<longleftrightarrow> ep_inv K (shared S) \<and>
     (\<forall>p g c. member S p = Some (g, c) \<longrightarrow> conn_chan c = p \<and> good g c) \<and>
     (\<forall>p c q d. member S p \<noteq> None \<longrightarrow> ep_chans (shared S) p = Some c \<longrightarrow> q \<noteq> p \<longrightarrow>
        ep_chans (shared S) q = Some d \<longrightarrow> ch_fd d \<noteq> ch_fd c)"

section \<open>Members keep their invariants\<close>

text \<open>
  What the set asks of a connection and its steps: an invariant \<open>good\<close> that contains the
  connection's own and survives a change of the poller that keeps it, holds of a new
  connection and is kept by the local steps.
\<close>

locale conn_members =
  fixes K :: "'k epoll_kernel" and g0 :: 'g
    and act :: "'g \<Rightarrow> 'k epoller connection \<Rightarrow> 'g \<Rightarrow> 'k epoller connection \<Rightarrow> bool"
    and good :: "'g \<Rightarrow> 'k epoller connection \<Rightarrow> bool"
  assumes good_conn: "good g c \<Longrightarrow> conn_inv (epoll_ops K) (epoll_view K) c"
    and good_move: "good g c \<Longrightarrow> conn_inv (epoll_ops K) (epoll_view K) (c\<lparr>poller_of := t\<rparr>) \<Longrightarrow> good g (c\<lparr>poller_of := t\<rparr>)"
    and good_new: "conn_inv (epoll_ops K) (epoll_view K) c \<Longrightarrow> state c = kConnecting \<Longrightarrow> stream c = [] \<Longrightarrow>
      readable (input_buffer c) = [] \<Longrightarrow> tasks c = [] \<Longrightarrow> good g0 c"
    and act_good: "good g c \<Longrightarrow> act g c g' c' \<Longrightarrow> good g' c'"
    and act_local: "epoll_contract K \<Longrightarrow> act g c g' c' \<Longrightarrow> conn_local K c c'"
begin

lemma conns_invD:
  assumes "conns_inv K good S" "member S p = Some (g, c)"
  obtains ch where "conn_chan c = p" "good g c" "poller_of c = shared S"
    "ep_chans (shared S) p = Some ch"
    "\<forall>q d. q \<noteq> p \<longrightarrow> ep_chans (shared S) q = Some d \<longrightarrow> ch_fd d \<noteq> ch_fd ch"
proof -
  have c: "conn_chan c = p" "good g c" using assms unfolding conns_inv_def by blast+
  obtain ch where ch: "ep_chans (poller_of c) (conn_chan c) = Some ch"
    using good_conn [OF c(2)] by (auto simp: conn_inv_def)
  have "\<forall>q d. q \<noteq> p \<longrightarrow> ep_chans (shared S) q = Some d \<longrightarrow> ch_fd d \<noteq> ch_fd ch"
  proof (intro allI impI)
    fix q d
    assume q: "q \<noteq> p" "ep_chans (shared S) q = Some d"
    have "member S p \<noteq> None" "ep_chans (shared S) p = Some ch" using assms(2) ch c(1) member_shared [OF assms(2)] by simp_all
    then show "ch_fd d \<noteq> ch_fd ch" using assms(1) q unfolding conns_inv_def by blast
  qed
  then show thesis using that c ch member_shared [OF assms(2)] by simp
qed

text \<open>A member stays good on another poller that shows it the same channel, map entry and kernel entry.\<close>

lemma good_view:
  assumes inv: "conns_inv K good S" and m: "members S q = Some (g, d)" and t: "ep_inv K t"
    and x: "\<And>x. ep_chans (shared S) q = Some x \<Longrightarrow> \<exists>r. ep_chans t q = Some (x\<lparr>revents := r\<rparr>) \<and>
      channel_maps t (ch_fd x) = channel_maps (shared S) (ch_fd x) \<and>
      interest K (kern t) (ch_fd x) = interest K (kern (shared S)) (ch_fd x)"
  shows "conn_chan d = q \<and> good g (d\<lparr>poller_of := t\<rparr>)"
proof -
  have "member S q = Some (g, d\<lparr>poller_of := shared S\<rparr>)" using m by (simp add: member_def)
  from conns_invD [OF inv this] obtain y where y: "conn_chan d = q" "good g (d\<lparr>poller_of := shared S\<rparr>)"
    "ep_chans (shared S) q = Some y" by auto
  obtain r where r: "ep_chans t q = Some (y\<lparr>revents := r\<rparr>)" "channel_maps t (ch_fd y) = channel_maps (shared S) (ch_fd y)"
    "interest K (kern t) (ch_fd y) = interest K (kern (shared S)) (ch_fd y)" using x [OF y(3)] by blast
  have "conn_inv (epoll_ops K) (epoll_view K) (d\<lparr>poller_of := t\<rparr>)"
    using conn_inv_view [OF good_conn [OF y(2)] _ t, of y r] y r by simp
  then show ?thesis using y(1) good_move [OF y(2), of t] by simp
qed

text \<open>
  One connection acts: the others keep their invariants, and the new descriptor stays apart
  from theirs.
\<close>

lemma conns_inv_put:
  assumes inv: "conns_inv K good S" and oth: "ep_others K p s (poller_of c')" "ep_chans s p = Some ch"
    and s: "\<forall>q. q \<noteq> p \<longrightarrow> ep_chans s q = ep_chans (shared S) q" "kern s = kern (shared S)"
      "channel_maps s = channel_maps (shared S)" "ep_inv K s"
    and fd: "\<forall>q d. q \<noteq> p \<longrightarrow> ep_chans (shared S) q = Some d \<longrightarrow> ch_fd d \<noteq> ch_fd ch"
    and c': "conn_chan c' = p" "good g' c'"
  shows "conns_inv K good (put_member p g' c' S)"
proof -
  have ep: "ep_inv K (poller_of c')" using good_conn [OF c'(2)] by (simp add: conn_inv_def)
  obtain ch' where ch': "ep_chans (poller_of c') p = Some ch'" "ch_fd ch' = ch_fd ch"
    using oth by (auto simp: ep_others_def)
  have same: "ep_chans (poller_of c') q = ep_chans (shared S) q" if "q \<noteq> p" for q
    using that oth(1) s(1) by (simp add: ep_others_def)
  have old: "conn_chan d = q \<and> good g (d\<lparr>poller_of := poller_of c'\<rparr>)"
    if q: "q \<noteq> p" "members S q = Some (g, d)" for q g d
  proof (rule good_view [OF inv q(2) ep])
    fix x assume x: "ep_chans (shared S) q = Some x"
    have "ep_chans (poller_of c') q = Some (x\<lparr>revents := revents x\<rparr>)" using same [OF q(1)] x by simp
    then show "\<exists>r. ep_chans (poller_of c') q = Some (x\<lparr>revents := r\<rparr>) \<and>
      channel_maps (poller_of c') (ch_fd x) = channel_maps (shared S) (ch_fd x) \<and>
      interest K (kern (poller_of c')) (ch_fd x) = interest K (kern (shared S)) (ch_fd x)"
      using x q(1) oth fd s by (intro exI [of _ "revents x"]) (simp add: ep_others_def)
  qed
  have apart: "ch_fd y \<noteq> ch_fd x"
    if h: "member (put_member p g' c' S) q \<noteq> None" "ep_chans (poller_of c') q = Some x" "r \<noteq> q"
      "ep_chans (poller_of c') r = Some y" for q x r y
  proof (cases "q = p")
    case True
    then show ?thesis using h fd same ch' by auto
  next
    case q: False
    then obtain g m where "members S q = Some (g, m)" using h(1) by auto
    then have "member S q = Some (g, m\<lparr>poller_of := shared S\<rparr>)" by (simp add: member_def)
    from conns_invD [OF inv this] obtain z where z: "ep_chans (shared S) q = Some z"
      "\<forall>r d. r \<noteq> q \<longrightarrow> ep_chans (shared S) r = Some d \<longrightarrow> ch_fd d \<noteq> ch_fd z" .
    have x: "z = x" using h(2) same [OF q] z(1) by simp
    show ?thesis
    proof (cases "r = p")
      case True
      then show ?thesis using h(4) ch' fd q z(1) x by auto
    next
      case False
      then show ?thesis using h(3,4) same z(2) x by auto
    qed
  qed
  show ?thesis unfolding conns_inv_def member_simps using ep c' old apart by auto
qed

lemma conns_inv_connect:
  assumes inv: "conns_inv K good S" and p: "ep_chans (shared S) p = None"
    and fd: "\<forall>q d. ep_chans (shared S) q = Some d \<longrightarrow> ch_fd d \<noteq> fd"
    and c: "TcpConnection_ctor (epoll_ops K) (Some (shared S)) p fd = Inr c"
  shows "conns_inv K good (put_member p g0 (c\<lparr>write_complete_set := w\<rparr>) S)"
proof -
  have ep: "ep_inv K (shared S)" using inv by (simp add: conns_inv_def)
  have free: "ep_fd_free (shared S) fd"
    using fd ep_invD(2) [OF ep, of fd] by (cases "channel_maps (shared S) fd") (auto simp: ep_fd_free_def)
  have n: "conn_inv (epoll_ops K) (epoll_view K) c" "state c = kConnecting" "stream c = []"
    "readable (input_buffer c) = []" "tasks c = []"
    using epoll_conn.ctor_ok [of K "shared S" p fd] ep p free c by auto
  let ?c = "c\<lparr>write_complete_set := w\<rparr>"
  have new: "good g0 ?c"
    by (rule good_new) (use n in \<open>simp_all add: stream_def conn_inv_def conn_state_ok_def\<close>)
  obtain ch where ch: "poller_of c = ep_set_chan p ch (shared S)" "conn_chan c = p" "ch_fd ch = fd"
    using c by (auto simp: TcpConnection_ctor_def CheckLoopNotNull_def epoll_ops_def Channel_ctor_def res_bind_eq_Inr)
  have "ep_inv K (poller_of c)" using n(1) by (simp add: conn_inv_def)
  then show ?thesis
    by (intro conns_inv_put [OF inv, of p "poller_of c" ?c ch])
      (use ch new fd in \<open>simp_all add: ep_set_chan_def\<close>)
qed

lemma conns_inv_poll:
  assumes inv: "conns_inv K good S" and w: "epoll_wait_contract K"
    and poll: "ep_Polling K timeout (shared S) active = Inr (s, out)"
  shows "conns_inv K good (S\<lparr>shared := s\<rparr>)"
proof -
  have ep: "ep_inv K (shared S)" using inv by (simp add: conns_inv_def)
  have s: "ep_inv K s" using ep_Polling_ok [OF ep w, of timeout active] poll ep by (auto split: sum.splits)
  note fr = Polling_frame [OF poll]
  have old: "conn_chan d = q \<and> good g (d\<lparr>poller_of := s\<rparr>)" if q: "members S q = Some (g, d)" for q g d
  proof (rule good_view [OF inv q s])
    fix x assume "ep_chans (shared S) q = Some x"
    then have "\<exists>r. ep_chans s q = Some (x\<lparr>revents := r\<rparr>)" using revents_only [of "ep_chans s q" x] fr by simp
    then show "\<exists>r. ep_chans s q = Some (x\<lparr>revents := r\<rparr>) \<and>
      channel_maps s (ch_fd x) = channel_maps (shared S) (ch_fd x) \<and>
      interest K (kern s) (ch_fd x) = interest K (kern (shared S)) (ch_fd x)" using fr by simp
  qed
  have seen: "\<exists>u. ep_chans (shared S) z = Some u \<and> ch_fd u = ch_fd v" if v: "ep_chans s z = Some v" for z v
  proof -
    have "map_option (\<lambda>c. c\<lparr>revents := 0\<rparr>) (ep_chans (shared S) z) = map_option (\<lambda>c. c\<lparr>revents := 0\<rparr>) (Some v)"
      using fr v [symmetric] by metis
    from revents_only [OF this] show ?thesis by auto
  qed
  have "ch_fd y \<noteq> ch_fd x"
    if h: "members S q = Some (g, m)" "ep_chans s q = Some x" "r \<noteq> q" "ep_chans s r = Some y" for q g m x r y
  proof -
    have "member S q = Some (g, m\<lparr>poller_of := shared S\<rparr>)" using h(1) by (simp add: member_def)
    from conns_invD [OF inv this] obtain z where "ep_chans (shared S) q = Some z"
      "\<forall>r d. r \<noteq> q \<longrightarrow> ep_chans (shared S) r = Some d \<longrightarrow> ch_fd d \<noteq> ch_fd z" .
    then show ?thesis using seen [OF h(2)] seen [OF h(4)] h(3) by auto
  qed
  then show ?thesis unfolding conns_inv_def member_simps using s old by auto
qed

lemma conns_inv_drop:
  assumes inv: "conns_inv K good S" and p: "\<not> ep_registered (shared S) p"
  shows "conns_inv K good (drop_member p S)"
proof -
  let ?t = "(shared S)\<lparr>ep_chans := (ep_chans (shared S))(p := None)\<rparr>"
  have t: "ep_inv K ?t" using inv p by (intro ep_inv_free) (simp add: conns_inv_def)
  have old: "conn_chan d = q \<and> good g (d\<lparr>poller_of := ?t\<rparr>)" if q: "q \<noteq> p" "members S q = Some (g, d)" for q g d
  proof (rule good_view [OF inv q(2) t])
    fix x assume "ep_chans (shared S) q = Some x"
    then show "\<exists>r. ep_chans ?t q = Some (x\<lparr>revents := r\<rparr>) \<and>
      channel_maps ?t (ch_fd x) = channel_maps (shared S) (ch_fd x) \<and>
      interest K (kern ?t) (ch_fd x) = interest K (kern (shared S)) (ch_fd x)"
      using q(1) by (intro exI [of _ "revents x"]) simp
  qed
  have "ch_fd y \<noteq> ch_fd x"
    if h: "members S q = Some (g, m)" "ep_chans (shared S) q = Some x" "r \<noteq> q" "ep_chans (shared S) r = Some y"
    for q g m x r y
  proof -
    have "member S q = Some (g, m\<lparr>poller_of := shared S\<rparr>)" using h(1) by (simp add: member_def)
    from conns_invD [OF inv this] obtain z where "ep_chans (shared S) q = Some z"
      "\<forall>r d. r \<noteq> q \<longrightarrow> ep_chans (shared S) r = Some d \<longrightarrow> ch_fd d \<noteq> ch_fd z" .
    then show ?thesis using h by auto
  qed
  then show ?thesis unfolding conns_inv_def member_simps using t old by auto
qed

lemma conns_inv_foreign:
  assumes inv: "conns_inv K good S" and q: "members S q = None" "ep_chans (shared S) q = Some d"
    and s: "ep_others K q (shared S) s" "ep_inv K s"
  shows "conns_inv K good (S\<lparr>shared := s\<rparr>)"
proof -
  obtain e where e: "ep_chans s q = Some e" "ch_fd e = ch_fd d" using s(1) q(2) by (auto simp: ep_others_def)
  have same: "ep_chans s r = ep_chans (shared S) r" if "r \<noteq> q" for r using that s(1) by (simp add: ep_others_def)
  have apart: "ch_fd y \<noteq> ch_fd x"
    if m: "members S r = Some (g, m)" and x: "ep_chans (shared S) r = Some x" and y: "z \<noteq> r" "ep_chans (shared S) z = Some y"
    for r g m x z y
  proof -
    have "member S r = Some (g, m\<lparr>poller_of := shared S\<rparr>)" using m by (simp add: member_def)
    from conns_invD [OF inv this] show ?thesis using x y by auto
  qed
  have old: "conn_chan m = r \<and> good g (m\<lparr>poller_of := s\<rparr>)" if r: "members S r = Some (g, m)" for r g m
  proof (rule good_view [OF inv r s(2)])
    fix x assume x: "ep_chans (shared S) r = Some x"
    have ne: "r \<noteq> q" using r q(1) by auto
    have "ch_fd x \<noteq> ch_fd d" using apart [OF r x _ q(2)] ne by auto
    then show "\<exists>v. ep_chans s r = Some (x\<lparr>revents := v\<rparr>) \<and>
      channel_maps s (ch_fd x) = channel_maps (shared S) (ch_fd x) \<and>
      interest K (kern s) (ch_fd x) = interest K (kern (shared S)) (ch_fd x)"
      using s(1) q(2) x same [OF ne] by (intro exI [of _ "revents x"]) (simp add: ep_others_def)
  qed
  have "ch_fd y \<noteq> ch_fd x"
    if h: "members S r = Some (g, m)" "ep_chans s r = Some x" "z \<noteq> r" "ep_chans s z = Some y" for r g m x z y
  proof -
    have ne: "r \<noteq> q" using h(1) q(1) by auto
    have x: "ep_chans (shared S) r = Some x" using h(2) same [OF ne] by simp
    show ?thesis
    proof (cases "z = q")
      case True
      then show ?thesis using apart [OF h(1) x h(3)] q(2) h(4) e by auto
    next
      case False
      then show ?thesis using apart [OF h(1) x h(3)] h(4) same [OF False] by simp
    qed
  qed
  then show ?thesis unfolding conns_inv_def member_simps using s(2) old by auto
qed

lemma conns_reachable_inv:
  assumes "conns_reachable K g0 act S" and w: "epoll_wait_contract K"
  shows "conns_inv K good S"
  using assms(1)
proof (induction rule: conns_reachable.induct)
  case (none s)
  then show ?case by (simp add: conns_inv_def member_def)
next
  case (connect S p fd c w)
  then show ?case using conns_inv_connect by blast
next
  case (act S p g c g' c')
  obtain ch where c: "conn_chan c = p" "good g c" "poller_of c = shared S" "ep_chans (shared S) p = Some ch"
    "\<forall>q d. q \<noteq> p \<longrightarrow> ep_chans (shared S) q = Some d \<longrightarrow> ch_fd d \<noteq> ch_fd ch"
    using conns_invD [OF act.IH act.hyps(2)] by blast
  have ep: "ep_inv K (shared S)" using act.IH by (simp add: conns_inv_def)
  have loc: "conn_local K c c'" using ep_invD(1) [OF ep] act.hyps(3) by (rule act_local)
  have "good g' c'" using c(2) act.hyps(3) by (rule act_good)
  then show ?case
    by (intro conns_inv_put [OF act.IH, of p "shared S" c' ch]) (use c loc ep in \<open>simp_all add: conn_local_def\<close>)
next
  case (poll S timeout s active)
  then show ?case using conns_inv_poll [OF _ w] by blast
next
  case (delete S p g c)
  then show ?case using conns_inv_drop by blast
next
  case (foreign S q d s)
  then show ?case using conns_inv_foreign by blast
qed

text \<open>
  The kernel's entry for an open member names that member's channel and holds exactly the
  events it needs; a member that is not open is watched for nothing; and no other channel
  has the member's descriptor.
\<close>

lemma member_open:
  assumes "ep_inv K (shared S)" "good g c" "poller_of c = shared S" "conn_chan c = p" "open_state (state c)"
    "ep_chans (shared S) p = Some ch"
  shows "interest K (kern (shared S)) (ch_fd ch) =
      Some (if readable (output_buffer c) = [] then kReadEvent else kReadEvent OR kWriteEvent, p)"
  using open_added [OF good_conn [OF assms(2)] assms(5)] assms(3,4,6) by auto

lemma member_closed:
  assumes "ep_inv K (shared S)" "good g c" "poller_of c = shared S" "conn_chan c = p" "\<not> open_state (state c)"
    "ep_chans (shared S) p = Some ch" "\<forall>q d. q \<noteq> p \<longrightarrow> ep_chans (shared S) q = Some d \<longrightarrow> ch_fd d \<noteq> ch_fd ch"
  shows "ep_watch K (shared S) (ch_fd ch) = 0"
proof (cases "ep_registered (shared S) p")
  case True
  have inv: "conn_inv (epoll_ops K) (epoll_view K) c" using assms(2) by (rule good_conn)
  have "state c \<noteq> kConnecting" using registered_state [OF inv] True assms(3,4) by simp
  then have st: "state c = kDisconnected" using assms(5) not_open by blast
  then have "events ch = 0" using inv assms(3,4,6) by (auto simp: conn_inv_def conn_state_ok_def)
  then show ?thesis using inv assms(3,4,6) True by (auto simp: conn_inv_def)
next
  case False
  have "channel_maps (shared S) (ch_fd ch) = None"
  proof (rule ccontr)
    assume "channel_maps (shared S) (ch_fd ch) \<noteq> None"
    then obtain q where "channel_maps (shared S) (ch_fd ch) = Some q" by blast
    from ep_invD(2) [OF assms(1) this] obtain d where d: "ep_chans (shared S) q = Some d" "ch_fd d = ch_fd ch" "index d \<noteq> kNew"
      by blast
    then have "q = p" using assms(7) by blast
    then show False using d False by (auto simp: ep_registered_def)
  qed
  then show ?thesis using ep_invD(7) [OF assms(1)] by (simp add: ep_watch_def)
qed

lemma member_watched:
  assumes "conns_reachable K g0 act S" "epoll_wait_contract K" "member S p = Some (g, c)"
  shows "\<exists>ch. ep_chans (shared S) p = Some ch \<and>
    (if open_state (state c) then interest K (kern (shared S)) (ch_fd ch) =
       Some (if readable (output_buffer c) = [] then kReadEvent else kReadEvent OR kWriteEvent, p)
     else ep_watch K (shared S) (ch_fd ch) = 0) \<and>
    (\<forall>q d. q \<noteq> p \<longrightarrow> ep_chans (shared S) q = Some d \<longrightarrow> ch_fd d \<noteq> ch_fd ch)"
proof -
  have inv: "conns_inv K good S" using assms(1,2) by (rule conns_reachable_inv)
  then have ep: "ep_inv K (shared S)" by (simp add: conns_inv_def)
  obtain ch where c: "conn_chan c = p" "good g c" "poller_of c = shared S" "ep_chans (shared S) p = Some ch"
    "\<forall>q d. q \<noteq> p \<longrightarrow> ep_chans (shared S) q = Some d \<longrightarrow> ch_fd d \<noteq> ch_fd ch"
    using conns_invD [OF inv assms(3)] by blast
  show ?thesis
    using member_open [OF ep c(2,3,1) _ c(4)] member_closed [OF ep c(2,3,1) _ c(4,5)] c(4,5) by auto
qed

end

section \<open>Any server\<close>

lemma conn_members_user:
  assumes "cb_ok (epoll_ops K) (epoll_view K) cb" "cb_local K cb"
  shows "conn_members K () (\<lambda>_ c _ c'. conn_step K cb c c') (\<lambda>_. conn_inv (epoll_ops K) (epoll_view K))"
  using conn_step_inv [OF _ _ assms(1)] conn_step_local [OF _ assms(2)] by unfold_locales

text \<open>
  C4. Connections on one loop do not disturb each other: whatever the connections of a loop do,
  in any order, with the loop polling in between, connections arriving and being deleted, the
  kernel's entry for the descriptor of each open connection names that connection and asks
  for input, and for writability exactly while that connection has bytes waiting (no output
  is ever stuck, no idle connection spins on writability); one that is not yet or no longer
  open is watched for nothing; and no other live channel has its descriptor.
\<close>

theorem connections_isolated:
  assumes "cb_ok (epoll_ops K) (epoll_view K) cb" "cb_local K cb" "epoll_wait_contract K"
    "conns_reachable K () (\<lambda>_ c _ c'. conn_step K cb c c') S" "member S p = Some ((), c)"
  shows "\<exists>ch. ep_chans (shared S) p = Some ch \<and>
    (if open_state (state c) then interest K (kern (shared S)) (ch_fd ch) =
       Some (if readable (output_buffer c) = [] then kReadEvent else kReadEvent OR kWriteEvent, p)
     else ep_watch K (shared S) (ch_fd ch) = 0) \<and>
    (\<forall>q d. q \<noteq> p \<longrightarrow> ep_chans (shared S) q = Some d \<longrightarrow> ch_fd d \<noteq> ch_fd ch)"
  using conn_members.member_watched [OF conn_members_user [OF assms(1,2)] assms(4,3,5)] .

text \<open>A connection arrives and is established; the others keep their states.\<close>

definition accepted ::
  "('k, 'g) conn_set \<Rightarrow> ptr \<Rightarrow> cint \<Rightarrow> 'g \<Rightarrow> ('k, 'g) conn_set \<Rightarrow> 'k epoller connection \<Rightarrow> bool" where
  "accepted S p fd g S' c \<longleftrightarrow> member S' p = Some (g, c) \<and> state c = kConnected \<and> readable (output_buffer c) = [] \<and>
     write_index (input_buffer c) = kCheapPrepend \<and> write_index (output_buffer c) = kCheapPrepend \<and>
     (\<exists>ch. ep_chans (shared S') p = Some ch \<and> ch_fd ch = fd) \<and>
     (\<forall>q. q \<noteq> p \<longrightarrow> ep_chans (shared S') q = ep_chans (shared S) q \<and>
        map_option (\<lambda>(g, c). (g, state c)) (member S' q) = map_option (\<lambda>(g, c). (g, state c)) (member S q))"

context conn_members
begin

lemma accept_one:
  assumes r: "conns_reachable K g0 act S" "epoll_wait_contract K" "ep_chans (shared S) p = None"
    "\<forall>q d. ep_chans (shared S) q = Some d \<longrightarrow> ch_fd d \<noteq> fd"
    and est: "\<forall>c. conn_inv (epoll_ops K) (epoll_view K) c \<longrightarrow> state c = kConnecting \<longrightarrow>
      (\<exists>c'. act g0 c g0 c' \<and> state c' = kConnected \<and> input_buffer c' = input_buffer c \<and> output_buffer c' = output_buffer c)"
  shows "\<exists>S' c. conns_reachable K g0 act S' \<and> accepted S p fd g0 S' c"
proof -
  have ep: "ep_inv K (shared S)" using conns_reachable_inv [OF r(1,2)] by (simp add: conns_inv_def)
  have "ep_fd_free (shared S) fd"
    using r(4) ep_invD(2) [OF ep, of fd] by (cases "channel_maps (shared S) fd") (auto simp: ep_fd_free_def)
  then obtain c where c: "TcpConnection_ctor (epoll_ops K) (Some (shared S)) p fd = Inr c"
    "conn_inv (epoll_ops K) (epoll_view K) c" "state c = kConnecting"
    using epoll_conn.ctor_ok [of K "shared S" p fd] ep r(3) by auto
  obtain b ch where b: "Buffer_ctor kInitialSize = Inr b" "input_buffer c = b" "output_buffer c = b"
    "conn_chan c = p" "write_complete_set c = False" "poller_of c = ep_set_chan p ch (shared S)" "ch_fd ch = fd"
    using c(1) by (auto simp: TcpConnection_ctor_def CheckLoopNotNull_def epoll_ops_def Channel_ctor_def res_bind_eq_Inr)
  have bb: "readable b = []" "write_index b = kCheapPrepend"
    using Buffer_ctor_ok [of kInitialSize] b(1) by (auto simp: kInitialSize_def vec_max_size_def)
  have w: "c\<lparr>write_complete_set := False\<rparr> = c" using b(5) by (cases c) simp
  let ?S = "put_member p g0 c S"
  have r1: "conns_reachable K g0 act ?S" using conns_reachable.connect [OF r(1,3,4) c(1), of False] w by simp
  obtain c' where c': "act g0 c g0 c'" "state c' = kConnected" "input_buffer c' = b" "output_buffer c' = b"
    using est [rule_format, OF c(2,3)] unfolding b(2,3) by auto
  have r2: "conns_reachable K g0 act (put_member p g0 c' ?S)"
    by (rule conns_reachable.act [OF r1 _ c'(1)]) simp
  have l: "conn_local K c c'" using ep_invD(1) [OF ep] c'(1) by (rule act_local)
  have pc: "ep_chans (poller_of c) = (ep_chans (shared S))(p \<mapsto> ch)" using b(6) by (simp add: ep_set_chan_def)
  have "ep_others K p (poller_of c) (poller_of c')" using l b(4) by (simp add: conn_local_def)
  then have o: "\<exists>d. ep_chans (poller_of c') p = Some d \<and> ch_fd d = fd" "\<forall>q. q \<noteq> p \<longrightarrow> ep_chans (poller_of c') q = ep_chans (shared S) q"
    unfolding ep_others_def pc using b(7) by simp_all
  have m: "map_option (\<lambda>(g, c). (g, state c)) (member (put_member p g0 c' ?S) q) = map_option (\<lambda>(g, c). (g, state c)) (member S q)"
    if "q \<noteq> p" for q
    using that by (cases "members S q") (auto simp: member_def put_member_def)
  have "accepted S p fd g0 (put_member p g0 c' ?S) c'"
    unfolding accepted_def using o m bb c'(2-4) by simp
  with r2 show ?thesis by blast
qed

end

text \<open>
  For the witness: two connections, on descriptors 5 and 6, on the sample kernel, with callbacks
  that do nothing.
\<close>

lemma quiet_cb_local: "cb_local K quiet_cb"
  by (simp add: cb_local_def quiet_cb_def)

definition empty_set :: "(cint \<rightharpoonup> cint \<times> ptr, 'g) conn_set" where
  "empty_set = \<lparr>shared = epoller_init Map.empty Map.empty, members = Map.empty\<rparr>"

lemma empty_set_reachable: "conns_reachable map_kernel g0 act empty_set"
  unfolding empty_set_def using init_epoller_inv by (rule conns_reachable.none)

lemma empty_set_chans [simp]: "ep_chans (shared empty_set) q = None"
  by (simp add: empty_set_def epoller_init_def)

lemma accepted_next:
  assumes "accepted empty_set 0 5 g S c"
  shows "ep_chans (shared S) 1 = None" "\<forall>q d. ep_chans (shared S) q = Some d \<longrightarrow> ch_fd d \<noteq> 6"
proof -
  have a: "\<exists>ch. ep_chans (shared S) 0 = Some ch \<and> ch_fd ch = 5" "\<And>q. q \<noteq> 0 \<Longrightarrow> ep_chans (shared S) q = None"
    using assms by (simp_all add: accepted_def)
  show "ep_chans (shared S) 1 = None" using a(2) by simp
  show "\<forall>q d. ep_chans (shared S) q = Some d \<longrightarrow> ch_fd d \<noteq> 6"
  proof (intro allI impI)
    fix q d assume "ep_chans (shared S) q = Some d"
    then show "ch_fd d \<noteq> 6" using a(1) a(2) [of q] by (cases "q = 0") auto
  qed
qed

lemma quiet_pair:
  "\<exists>S c d. conns_reachable map_kernel () (\<lambda>_ c _ c'. conn_step map_kernel quiet_cb c c') S \<and>
    member S 0 = Some ((), c) \<and> state c = kConnected \<and> member S 1 = Some ((), d) \<and> state d = kConnected"
proof -
  let ?act = "\<lambda>(_ :: unit) c (_ :: unit) c'. conn_step map_kernel quiet_cb c c'"
  note M = conn_members_user [OF quiet_cb_ok quiet_cb_local, of map_kernel]
  have est: "\<forall>c. conn_inv (epoll_ops map_kernel) (epoll_view map_kernel) c \<longrightarrow> state c = kConnecting \<longrightarrow>
      (\<exists>c'. ?act () c () c' \<and> state c' = kConnected \<and> input_buffer c' = input_buffer c \<and> output_buffer c' = output_buffer c)"
  proof (intro allI impI)
    fix c assume c: "conn_inv (epoll_ops map_kernel) (epoll_view map_kernel) c" "state c = kConnecting"
    from epoll_conn.ConnectionEstablished_ok [OF c, of quiet_cb 1] obtain c' where
      "ConnectionEstablished (epoll_ops map_kernel) quiet_cb 1 c = Inr c'" "state c' = kConnected"
      "input_buffer c' = input_buffer c" "output_buffer c' = output_buffer c" by (auto simp: quiet_cb_def)
    then show "\<exists>c'. ?act () c () c' \<and> state c' = kConnected \<and> input_buffer c' = input_buffer c \<and> output_buffer c' = output_buffer c"
      using conn_step.established [OF c(2)] by blast
  qed
  obtain S c where S: "conns_reachable map_kernel () ?act S" "accepted empty_set 0 5 () S c"
    using conn_members.accept_one [OF M empty_set_reachable map_kernel_contract(2) _ _ est, of 0 5] by auto
  obtain T d where T: "conns_reachable map_kernel () ?act T" "accepted S 1 6 () T d"
    using conn_members.accept_one [OF M S(1) map_kernel_contract(2) accepted_next [OF S(2)] est] by blast
  have "member T 1 = Some ((), d)" "state d = kConnected"
    "map_option (\<lambda>(g, c). (g, state c)) (member T 0) = map_option (\<lambda>(g, c). (g, state c)) (member S 0)"
    using T(2) by (simp_all add: accepted_def)
  moreover have "member S 0 = Some ((), c)" "state c = kConnected" using S(2) by (simp_all add: accepted_def)
  ultimately show ?thesis using T(1) by (cases "member T 0") auto
qed

theorem connections_isolated_witness:
  "\<exists>S c ch. conns_reachable map_kernel () (\<lambda>_ c _ c'. conn_step map_kernel quiet_cb c c') S \<and>
    member S 0 = Some ((), c) \<and> member S 1 \<noteq> None \<and> ep_chans (shared S) 0 = Some ch \<and>
    interest map_kernel (kern (shared S)) (ch_fd ch) =
      Some (if readable (output_buffer c) = [] then kReadEvent else kReadEvent OR kWriteEvent, 0)"
proof -
  obtain S c d where S: "conns_reachable map_kernel () (\<lambda>_ c _ c'. conn_step map_kernel quiet_cb c c') S"
    "member S 0 = Some ((), c)" "state c = kConnected" "member S 1 = Some ((), d)" using quiet_pair by blast
  have o: "open_state (state c)" using S(3) by (simp add: open_state_def)
  obtain ch where ch: "ep_chans (shared S) 0 = Some ch" "interest map_kernel (kern (shared S)) (ch_fd ch) =
      Some (if readable (output_buffer c) = [] then kReadEvent else kReadEvent OR kWriteEvent, 0)"
    using connections_isolated [OF quiet_cb_ok quiet_cb_local map_kernel_contract(2) S(1,2)] o by auto
  show ?thesis by (intro exI [of _ S] exI [of _ c] exI [of _ ch] conjI) (use S ch in simp_all)
qed

text \<open>
  C25. Every connection of a loop stays well formed: in each reachable state the indices of both its
  buffers lie between the prepend area and the end of the vector, in order, the vector is not
  larger than allowed; its channel's mask is made of the read and the write event only, and the
  channel's index is one of the three values \<open>kNew\<close>, \<open>kAdded\<close>, \<open>kDeleted\<close>.
\<close>

theorem connections_well_formed:
  assumes "cb_ok (epoll_ops K) (epoll_view K) cb" "cb_local K cb" "epoll_wait_contract K"
    "conns_reachable K () (\<lambda>_ c _ c'. conn_step K cb c c') S" "member S p = Some ((), c)"
    "b = input_buffer c \<or> b = output_buffer c"
  shows "unat kCheapPrepend \<le> unat (read_index b) \<and> read_index b \<le> write_index b \<and>
    unat (write_index b) \<le> length (buf b) \<and> length (buf b) \<le> vec_max_size \<and>
    (\<exists>ch. ep_chans (shared S) p = Some ch \<and> events ch \<in> {0, kReadEvent, kWriteEvent, kReadEvent OR kWriteEvent} \<and>
       index ch \<in> {kNew, kAdded, kDeleted})"
proof -
  note M = conn_members_user [OF assms(1,2)]
  have inv: "conns_inv K (\<lambda>_. conn_inv (epoll_ops K) (epoll_view K)) S"
    using conn_members.conns_reachable_inv [OF M assms(4,3)] .
  then have ep: "ep_inv K (shared S)" by (simp add: conns_inv_def)
  obtain ch where c: "conn_chan c = p" "conn_inv (epoll_ops K) (epoll_view K) c" "poller_of c = shared S"
    "ep_chans (shared S) p = Some ch" using conn_members.conns_invD [OF M inv assms(5)] .
  have b: "buf_inv b" using c(2) assms(6) by (auto simp: conn_inv_def)
  have "events_ok ch" using c by (auto simp: conn_inv_def)
  then have "events ch \<in> {0, kReadEvent, kWriteEvent, kReadEvent OR kWriteEvent}"
    by (auto simp: events_ok_def event_flags)
  then show ?thesis using b c(4) ep_invD(3) [OF ep c(4)] by (simp add: buf_inv_def word_le_nat_alt)
qed

theorem connections_well_formed_witness:
  "\<exists>S c. conns_reachable map_kernel () (\<lambda>_ c _ c'. conn_step map_kernel quiet_cb c c') S \<and>
    member S 0 = Some ((), c) \<and> read_index (input_buffer c) \<le> write_index (input_buffer c) \<and>
    (\<exists>ch. ep_chans (shared S) 0 = Some ch \<and> index ch \<in> {kNew, kAdded, kDeleted})"
proof -
  obtain S c d where S: "conns_reachable map_kernel () (\<lambda>_ c _ c'. conn_step map_kernel quiet_cb c c') S"
    "member S 0 = Some ((), c)" using quiet_pair by blast
  have i: "input_buffer c = input_buffer c \<or> input_buffer c = output_buffer c" by simp
  from connections_well_formed [OF quiet_cb_ok quiet_cb_local map_kernel_contract(2) S i] S show ?thesis by blast
qed

end
