(* ===== verification/Tcp_Server.thy ===== *)
theory Tcp_Server
  imports Acceptor
begin

text \<open>
  \<open>EventLoopThreadPool\<close> (\<^verbatim>\<open>include/event_loop_thread_pool.h\<close>, \<^verbatim>\<open>src/event_loop_thread_poll.cc\<close>) and
  \<open>TcpServer\<close> (\<^verbatim>\<open>include/tcp_server.h\<close>, \<^verbatim>\<open>src/tcp_server.cc\<close>): which loop gets a connection, the map
  of live connections, and the functors that pass between the base loop and the I/O loops.
  A loop is named by its address; its thread runs its functors in the order they were queued
  (shown for \<open>EventLoop\<close> in the theory \<open>Event_Loop\<close>).
\<close>

section \<open>The thread pool\<close>

record thread_pool =
  base_loop :: ptr
  pool_name :: string
  pool_started :: bool
  num_threads :: cint
  next_loop :: nat
  thread_names :: "string list"
  loops :: "ptr list"
  init_calls :: "ptr list"

definition EventLoopThreadPool_ctor :: "ptr \<Rightarrow> string \<Rightarrow> thread_pool" where
  "EventLoopThreadPool_ctor base name_arg =
     \<lparr>base_loop = base, pool_name = name_arg, pool_started = False, num_threads = 0, next_loop = 0,
      thread_names = [], loops = [], init_calls = []\<rparr>"

definition SetThreadNum :: "cint \<Rightarrow> thread_pool \<Rightarrow> thread_pool" where
  "SetThreadNum n pl = pl\<lparr>num_threads := n\<rparr>"

text \<open>
  One turn of the loop in \<open>Start\<close>: \<open>new_loop i\<close> is the loop that the \<open>i\<close>-th thread creates and
  \<open>StartLoop\<close> returns; the thread has called the initialisation callback on it by then.
\<close>

definition start_thread :: "(nat \<Rightarrow> ptr) \<Rightarrow> bool \<Rightarrow> nat \<Rightarrow> thread_pool \<Rightarrow> thread_pool" where
  "start_thread new_loop has_cb i pl =
     pl\<lparr>thread_names := thread_names pl @
          [take (length (pool_name pl) + 31) (pool_name pl @ int_to_string (int i))],
        loops := loops pl @ [new_loop i],
        init_calls := (if has_cb then init_calls pl @ [new_loop i] else init_calls pl)\<rparr>"

definition pool_Start :: "(nat \<Rightarrow> ptr) \<Rightarrow> bool \<Rightarrow> thread_pool \<Rightarrow> thread_pool" where
  "pool_Start new_loop has_cb pl =
     (let pl1 = fold (start_thread new_loop has_cb) [0..<nat (sint (num_threads pl))] (pl\<lparr>pool_started := True\<rparr>) in
      if num_threads pl1 = 1 \<and> has_cb then pl1\<lparr>init_calls := init_calls pl1 @ [base_loop pl1]\<rparr> else pl1)"

definition GetNextLoop :: "thread_pool \<Rightarrow> (ptr \<times> thread_pool) res" where
  "GetNextLoop pl =
     (if loops pl = [] then Inr (base_loop pl, pl)
      else if next_loop pl < length (loops pl)
      then let n = next_loop pl + 1 in
        Inr (loops pl ! next_loop pl, pl\<lparr>next_loop := (if length (loops pl) \<le> n then 0 else n)\<rparr>)
      else Inl OutOfBounds)"

definition GetAllLoops :: "thread_pool \<Rightarrow> ptr list" where
  "GetAllLoops pl = (if loops pl = [] then [base_loop pl] else loops pl)"

definition pool_inv :: "thread_pool \<Rightarrow> bool" where
  "pool_inv pl \<longleftrightarrow> (if loops pl = [] then next_loop pl = 0 else next_loop pl < length (loops pl))"

text \<open>\<open>k\<close> calls of \<open>GetNextLoop\<close> in a row.\<close>

fun take_loops :: "nat \<Rightarrow> thread_pool \<Rightarrow> (ptr list \<times> thread_pool) res" where
  "take_loops 0 pl = Inr ([], pl)"
| "take_loops (Suc k) pl =
     res_bind (take_loops k pl) (\<lambda>(ls, p). res_bind (GetNextLoop p) (\<lambda>(l, p'). Inr (ls @ [l], p')))"

lemma pool_Start_loops:
  "loops (pool_Start new_loop has_cb pl) = loops pl @ map new_loop [0..<nat (sint (num_threads pl))]"
  "next_loop (pool_Start new_loop has_cb pl) = next_loop pl" "base_loop (pool_Start new_loop has_cb pl) = base_loop pl"
proof -
  have "loops (fold (start_thread new_loop cb) is q) = loops q @ map new_loop is \<and>
      next_loop (fold (start_thread new_loop cb) is q) = next_loop q \<and>
      base_loop (fold (start_thread new_loop cb) is q) = base_loop q" for "is" q cb
    by (induction "is" arbitrary: q) (simp_all add: start_thread_def)
  then show "loops (pool_Start new_loop has_cb pl) = loops pl @ map new_loop [0..<nat (sint (num_threads pl))]"
    "next_loop (pool_Start new_loop has_cb pl) = next_loop pl" "base_loop (pool_Start new_loop has_cb pl) = base_loop pl"
    by (simp_all add: pool_Start_def Let_def)
qed

lemma GetNextLoop_ok:
  assumes "pool_inv pl"
  shows "\<exists>l pl'. GetNextLoop pl = Inr (l, pl') \<and> pool_inv pl' \<and> l \<in> set (GetAllLoops pl) \<and>
    loops pl' = loops pl \<and> base_loop pl' = base_loop pl"
  using assms by (auto simp: GetNextLoop_def pool_inv_def GetAllLoops_def Let_def split: if_splits)

text \<open>The round so far: the loops before \<open>next_\<close> have been taken once more than the others.\<close>

lemma take_loops_counts:
  assumes "loops pl \<noteq> []" "distinct (loops pl)" "next_loop pl = 0"
  shows "\<exists>ls pl' c. take_loops k pl = Inr (ls, pl') \<and> loops pl' = loops pl \<and> length ls = k \<and>
    next_loop pl' < length (loops pl) \<and>
    (\<forall>i < length (loops pl). count_list ls (loops pl ! i) = (if i < next_loop pl' then c + 1 else c))"
proof (induction k)
  case 0
  then show ?case using assms by auto
next
  case (Suc k)
  then obtain ls p c where p: "take_loops k pl = Inr (ls, p)" "loops p = loops pl" "length ls = k"
    "next_loop p < length (loops pl)"
    "\<forall>i < length (loops pl). count_list ls (loops pl ! i) = (if i < next_loop p then c + 1 else c)" by blast
  let ?n = "next_loop p" and ?L = "loops pl"
  let ?n' = "if length ?L \<le> ?n + 1 then 0 else ?n + 1"
  have step: "take_loops (Suc k) pl = Inr (ls @ [?L ! ?n], p\<lparr>next_loop := ?n'\<rparr>)"
    using p assms(1) by (simp add: GetNextLoop_def Let_def)
  have cnt: "count_list (ls @ [?L ! ?n]) (?L ! i) = (if i \<le> ?n then c + 1 else c)" if "i < length ?L" for i
    using that p(4,5) assms(2) by (auto simp: nth_eq_iff_index_eq)
  show ?case
  proof (cases "length ?L \<le> ?n + 1")
    case True
    then have "count_list (ls @ [?L ! ?n]) (?L ! i) = c + 1" if "i < length ?L" for i using cnt [OF that] that by simp
    then show ?thesis using step True p(2,3) assms(1)
      by (intro exI [of _ "ls @ [?L ! ?n]"] exI [of _ "p\<lparr>next_loop := ?n'\<rparr>"] exI [of _ "c + 1"]) simp
  next
    case False
    then show ?thesis using step cnt p(2,3)
      by (intro exI [of _ "ls @ [?L ! ?n]"] exI [of _ "p\<lparr>next_loop := ?n'\<rparr>"] exI [of _ c]) (auto simp: less_Suc_eq_le)
  qed
qed

text \<open>
  C27. Round robin: of any number of connections handed out by \<open>GetNextLoop\<close> after \<open>Start\<close>, no
  loop of the pool gets more than one more than any other.
\<close>

theorem round_robin_fair:
  assumes "0 < sint (num_threads pl)" "loops pl = []" "next_loop pl = 0" "inj_on new_loop {..<nat (sint (num_threads pl))}"
  shows "\<exists>ls pl'. take_loops k (pool_Start new_loop has_cb pl) = Inr (ls, pl') \<and> length ls = k \<and>
    set ls \<subseteq> set (loops pl') \<and> length (loops pl') = nat (sint (num_threads pl)) \<and>
    (\<forall>l m. l \<in> set (loops pl') \<and> m \<in> set (loops pl') \<longrightarrow> count_list ls l \<le> count_list ls m + 1)"
proof -
  let ?p = "pool_Start new_loop has_cb pl"
  let ?n = "nat (sint (num_threads pl))"
  have L: "loops ?p = map new_loop [0..<?n]" "next_loop ?p = 0" using assms(2,3) by (simp_all add: pool_Start_loops)
  have d: "distinct (loops ?p)" "loops ?p \<noteq> []"
    using L(1) assms(1,4) by (simp_all add: distinct_map atLeast0LessThan)
  obtain ls pl' c where t: "take_loops k ?p = Inr (ls, pl')" "loops pl' = loops ?p" "length ls = k"
    "next_loop pl' < length (loops ?p)"
    "\<forall>i < length (loops ?p). count_list ls (loops ?p ! i) = (if i < next_loop pl' then c + 1 else c)"
    using take_loops_counts [OF d(2,1) L(2)] by blast
  have cc: "c \<le> count_list ls l \<and> count_list ls l \<le> c + 1" if "l \<in> set (loops ?p)" for l
    using that t(5) by (auto simp: in_set_conv_nth)
  have fair: "count_list ls l \<le> count_list ls m + 1" if "l \<in> set (loops ?p)" "m \<in> set (loops ?p)" for l m
    using cc [OF that(1)] cc [OF that(2)] by simp
  have sub: "take_loops j ?p = Inr (ls', q) \<Longrightarrow> set ls' \<subseteq> set (loops ?p) \<and> loops q = loops ?p" for j ls' q
  proof (induction j arbitrary: ls' q)
    case (Suc j)
    then obtain l0 q0 l where "take_loops j ?p = Inr (l0, q0)" "GetNextLoop q0 = Inr (l, q)" "ls' = l0 @ [l]"
      by (auto simp: res_bind_eq_Inr)
    then show ?case using Suc.IH d(2) by (auto simp: GetNextLoop_def Let_def split: if_splits)
  qed simp
  show ?thesis using t(1,2,3) fair sub [OF t(1)] L(1) by auto
qed

theorem round_robin_fair_witness:
  "\<exists>ls pl'. take_loops 5 (pool_Start (\<lambda>i. i + 100) True (SetThreadNum 3 (EventLoopThreadPool_ctor 1 ''srv''))) = Inr (ls, pl') \<and>
    length ls = 5 \<and> (\<forall>l m. l \<in> set (loops pl') \<and> m \<in> set (loops pl') \<longrightarrow> count_list ls l \<le> count_list ls m + 1)"
proof -
  let ?p = "SetThreadNum 3 (EventLoopThreadPool_ctor 1 ''srv'')"
  have "0 < sint (num_threads ?p)" "loops ?p = []" "next_loop ?p = 0"
    "inj_on (\<lambda>i. i + 100) {..<nat (sint (num_threads ?p))}"
    by (simp_all add: SetThreadNum_def EventLoopThreadPool_ctor_def)
  from round_robin_fair [OF this, of 5 True] show ?thesis by blast
qed

text \<open>
  The initialisation callback: with one thread it also runs on the base loop, and with none
  (the server that "has only one thread") it does not run at all.
\<close>

lemma pool_init_calls:
  assumes "init_calls pl = []"
  shows "init_calls (pool_Start new_loop True pl) =
    map new_loop [0..<nat (sint (num_threads pl))] @ (if num_threads pl = 1 then [base_loop pl] else [])"
proof -
  have "init_calls (fold (start_thread new_loop True) is q) = init_calls q @ map new_loop is \<and>
      num_threads (fold (start_thread new_loop True) is q) = num_threads q \<and>
      base_loop (fold (start_thread new_loop True) is q) = base_loop q" for "is" q
    by (induction "is" arbitrary: q) (simp_all add: start_thread_def)
  then show ?thesis using assms by (simp add: pool_Start_def Let_def) (simp add: start_thread_def)
qed

section \<open>The server\<close>

text \<open>Functors the server gives to loops, each about one connection object.\<close>

datatype srv_task = ListenTask | EstablishTask ptr | DestroyTask ptr | RemoveTask ptr

record conn_obj =
  obj_name :: string
  obj_loop :: ptr

text \<open>
  \<open>queues\<close> and \<open>ran\<close> hold, for each loop, the functors queued and run so far; \<open>closed_conns\<close> the
  connections whose close callback has been called.
\<close>

record server =
  srv_name :: string
  ip_port :: string
  next_conn_id :: cint
  srv_started :: cint
  pool :: thread_pool
  connection_maps :: "string \<rightharpoonup> ptr"
  conn_objs :: "ptr \<rightharpoonup> conn_obj"
  next_conn_ptr :: ptr
  queues :: "ptr \<Rightarrow> srv_task list"
  ran :: "ptr \<Rightarrow> srv_task list"
  closed_conns :: "ptr set"

definition TcpServer_ctor :: "ptr option \<Rightarrow> sockaddr_in \<Rightarrow> string \<Rightarrow> server res" where
  "TcpServer_ctor loop listen_addr name_arg =
     (case loop of
        None \<Rightarrow> Inl Fatal
      | Some l \<Rightarrow> Inr \<lparr>srv_name = name_arg, ip_port = ToIpPort listen_addr, next_conn_id = 1, srv_started = 0,
          pool = EventLoopThreadPool_ctor l name_arg, connection_maps = Map.empty, conn_objs = Map.empty,
          next_conn_ptr = 0, queues = (\<lambda>l. []), ran = (\<lambda>l. []), closed_conns = {}\<rparr>)"

definition srv_queue :: "ptr \<Rightarrow> srv_task \<Rightarrow> server \<Rightarrow> server" where
  "srv_queue l t s = s\<lparr>queues := (queues s)(l := queues s l @ [t])\<rparr>"

definition RemoveconnectionInLoop :: "ptr \<Rightarrow> server \<Rightarrow> server res" where
  "RemoveconnectionInLoop p s =
     (case conn_objs s p of
        None \<Rightarrow> Inl UseAfterFree
      | Some c \<Rightarrow> Inr (srv_queue (obj_loop c) (DestroyTask p)
          (s\<lparr>connection_maps := (connection_maps s)(obj_name c := None)\<rparr>)))"

text \<open>Loop \<open>l\<close> runs a functor.\<close>

definition srv_exec :: "ptr \<Rightarrow> srv_task \<Rightarrow> server \<Rightarrow> server res" where
  "srv_exec l t s =
     (let s1 = s\<lparr>ran := (ran s)(l := ran s l @ [t])\<rparr> in
      case t of RemoveTask p \<Rightarrow> RemoveconnectionInLoop p s1 | _ \<Rightarrow> Inr s1)"

text \<open>\<open>RunInLoop\<close> of loop \<open>l\<close>, called in the thread of loop \<open>cur\<close>.\<close>

definition srv_RunInLoop :: "ptr \<Rightarrow> ptr \<Rightarrow> srv_task \<Rightarrow> server \<Rightarrow> server res" where
  "srv_RunInLoop cur l t s = (if cur = l then srv_exec l t s else Inr (srv_queue l t s))"

definition srv_Start :: "(nat \<Rightarrow> ptr) \<Rightarrow> bool \<Rightarrow> ptr \<Rightarrow> server \<Rightarrow> server res" where
  "srv_Start new_loop has_cb cur s =
     (let s1 = s\<lparr>srv_started := srv_started s + 1\<rparr> in
      if srv_started s = 0
      then srv_RunInLoop cur (base_loop (pool s1)) ListenTask (s1\<lparr>pool := pool_Start new_loop has_cb (pool s1)\<rparr>)
      else Inr s1)"

text \<open>\<open>snprintf\<close> into 64 bytes keeps at most 63 characters.\<close>

definition conn_name :: "server \<Rightarrow> string" where
  "conn_name s = srv_name s @ take 63 (CHR ''-'' # ip_port s @ CHR ''#'' # int_to_string (sint (next_conn_id s)))"

definition NewConnection :: "server \<Rightarrow> server res" where
  "NewConnection s =
     res_bind (GetNextLoop (pool s)) (\<lambda>(io_loop, pl).
       let nm = conn_name s; p = next_conn_ptr s;
           s1 = s\<lparr>pool := pl, next_conn_id := next_conn_id s + 1, next_conn_ptr := p + 1,
                  conn_objs := (conn_objs s)(p \<mapsto> \<lparr>obj_name = nm, obj_loop = io_loop\<rparr>),
                  connection_maps := (connection_maps s)(nm \<mapsto> p)\<rparr>
       in srv_RunInLoop (base_loop pl) io_loop (EstablishTask p) s1)"

definition RemoveConnection :: "ptr \<Rightarrow> ptr \<Rightarrow> server \<Rightarrow> server res" where
  "RemoveConnection cur p s = srv_RunInLoop cur (base_loop (pool s)) (RemoveTask p) s"

text \<open>The destructor, run in the base loop's thread; \<open>ps\<close> lists the connections in the map's order.\<close>

fun TcpServer_dtor :: "ptr list \<Rightarrow> server \<Rightarrow> server res" where
  "TcpServer_dtor [] s = Inr s"
| "TcpServer_dtor (p # ps) s =
     (case conn_objs s p of
        None \<Rightarrow> Inl UseAfterFree
      | Some c \<Rightarrow> res_bind (srv_RunInLoop (base_loop (pool s)) (obj_loop c) (DestroyTask p) s) (TcpServer_dtor ps))"

section \<open>Runs of the server\<close>

text \<open>
  The base loop accepts, loops run what was queued on them, and a connection that has been
  established and is not closed yet may close, which calls the server's close callback in the
  connection's loop. A connection closes once: the runs leave out the event (a hang-up with urgent
  data and no input) on which \<open>Channel\<close> calls two handlers that close, see \<open>hang_up_closes_twice\<close>.
\<close>

inductive srv_step :: "server \<Rightarrow> server \<Rightarrow> bool" where
  start: "srv_Start new_loop has_cb (base_loop (pool s)) s = Inr t \<Longrightarrow> srv_step s t"
| accept: "NewConnection s = Inr t \<Longrightarrow> srv_step s t"
| run_functor: "queues s l = f # fs \<Longrightarrow> srv_exec l f (s\<lparr>queues := (queues s)(l := fs)\<rparr>) = Inr t \<Longrightarrow> srv_step s t"
| close: "conn_objs s p = Some c \<Longrightarrow> EstablishTask p \<in> set (ran s (obj_loop c)) \<Longrightarrow> p \<notin> closed_conns s \<Longrightarrow>
    RemoveConnection (obj_loop c) p (s\<lparr>closed_conns := insert p (closed_conns s)\<rparr>) = Inr t \<Longrightarrow> srv_step s t"

inductive srv_reachable :: "ptr \<Rightarrow> sockaddr_in \<Rightarrow> string \<Rightarrow> server \<Rightarrow> bool" for l a nm where
  srv_made: "TcpServer_ctor (Some l) a nm = Inr s \<Longrightarrow> srv_reachable l a nm s"
| srv_more: "srv_reachable l a nm s \<Longrightarrow> srv_step s t \<Longrightarrow> srv_reachable l a nm t"

section \<open>Invariant of the server\<close>

definition hist :: "server \<Rightarrow> ptr \<Rightarrow> srv_task list" where
  "hist s x = ran s x @ queues s x"

definition about :: "ptr \<Rightarrow> srv_task \<Rightarrow> bool" where
  "about p t \<longleftrightarrow> t = EstablishTask p \<or> t = DestroyTask p"

definition name_of :: "sockaddr_in \<Rightarrow> string \<Rightarrow> ptr \<Rightarrow> string" where
  "name_of a nm p = nm @ take 63 (CHR ''-'' # ToIpPort a @ CHR ''#'' # int_to_string (sint (word_of_nat (Suc p) :: cint)))"

text \<open>\<open>R\<close> are the connections taken out of the map.\<close>

definition srv_core :: "ptr set \<Rightarrow> ptr \<Rightarrow> sockaddr_in \<Rightarrow> string \<Rightarrow> server \<Rightarrow> bool" where
  "srv_core R l a nm s \<longleftrightarrow>
     base_loop (pool s) = l \<and> srv_name s = nm \<and> ip_port s = ToIpPort a \<and>
     next_conn_id s = word_of_nat (Suc (next_conn_ptr s)) \<and> pool_inv (pool s) \<and>
     (\<forall>p. conn_objs s p \<noteq> None \<longleftrightarrow> p < next_conn_ptr s) \<and> R \<subseteq> {..<next_conn_ptr s} \<and>
     (\<forall>p c. conn_objs s p = Some c \<longrightarrow> obj_name c = name_of a nm p) \<and>
     (\<forall>x p. next_conn_ptr s \<le> p \<longrightarrow> filter (about p) (hist s x) = []) \<and>
     (\<forall>p c. conn_objs s p = Some c \<longrightarrow> filter (about p) (hist s (obj_loop c)) =
        EstablishTask p # (if p \<in> R then [DestroyTask p] else [])) \<and>
     (\<forall>p c x. conn_objs s p = Some c \<longrightarrow> x \<noteq> obj_loop c \<longrightarrow> filter (about p) (hist s x) = []) \<and>
     (next_conn_ptr s < 2 ^ 31 \<longrightarrow> (\<forall>n p. connection_maps s n = Some p \<longleftrightarrow>
        (\<exists>c. conn_objs s p = Some c \<and> obj_name c = n \<and> p \<notin> R)))"

definition srv_close :: "ptr \<Rightarrow> server \<Rightarrow> bool" where
  "srv_close l s \<longleftrightarrow> closed_conns s \<subseteq> {..<next_conn_ptr s} \<and>
     (\<forall>p. count_list (hist s l) (RemoveTask p) = (if p \<in> closed_conns s then 1 else 0)) \<and>
     (\<forall>x p. x \<noteq> l \<longrightarrow> RemoveTask p \<notin> set (hist s x))"

definition removed :: "ptr \<Rightarrow> server \<Rightarrow> ptr set" where
  "removed l s = {p. RemoveTask p \<in> set (ran s l)}"

definition srv_inv :: "ptr \<Rightarrow> sockaddr_in \<Rightarrow> string \<Rightarrow> server \<Rightarrow> bool" where
  "srv_inv l a nm s \<longleftrightarrow> srv_core (removed l s) l a nm s \<and> srv_close l s"

lemma name_of_inj:
  assumes "Suc p < 2 ^ 31" "Suc q < 2 ^ 31"
  shows "name_of a nm p = name_of a nm q \<longleftrightarrow> p = q"
proof -
  have id: "sint (word_of_nat (Suc r) :: cint) = int (Suc r)" if "Suc r < 2 ^ 31" for r
  proof -
    have "signed_take_bit 31 (int (Suc r)) = int (Suc r)"
      using that by (intro signed_take_bit_int_eq_self) auto
    then show ?thesis by (simp add: signed_of_nat del: of_nat_Suc)
  qed
  have len: "length (int_to_string (int (Suc r))) \<le> 10" if "Suc r < 2 ^ 31" for r
  proof -
    have "Suc r < 10 ^ 10" using that by simp
    then show ?thesis using length_nat_digits [of "Suc r" 10] by (simp add: int_to_string_def nat_add_distrib)
  qed
  have t: "name_of a nm r = nm @ CHR ''-'' # ToIpPort a @ CHR ''#'' # int_to_string (int (Suc r))" if "Suc r < 2 ^ 31" for r
    unfolding name_of_def id [OF that] using len [OF that] length_ToIpPort [of a] by simp
  show ?thesis unfolding t [OF assms(1)] t [OF assms(2)] by simp
qed

lemma removal_ok:
  assumes "srv_core R l a nm s" "conn_objs s p = Some c" "p \<notin> R" "srv_close l s"
  shows "\<exists>t. RemoveconnectionInLoop p s = Inr t \<and> srv_core (insert p R) l a nm t \<and> srv_close l t \<and> ran t = ran s"
proof -
  let ?t = "srv_queue (obj_loop c) (DestroyTask p) (s\<lparr>connection_maps := (connection_maps s)(obj_name c := None)\<rparr>)"
  have h: "hist ?t x = hist s x @ (if x = obj_loop c then [DestroyTask p] else [])" for x
    by (simp add: hist_def srv_queue_def)
  have pn: "p < next_conn_ptr s" using assms(1,2) by (auto simp: srv_core_def)
  have f: "conn_objs ?t = conn_objs s" "next_conn_ptr ?t = next_conn_ptr s" "closed_conns ?t = closed_conns s"
    "pool ?t = pool s" "srv_name ?t = srv_name s" "ip_port ?t = ip_port s" "next_conn_id ?t = next_conn_id s"
    "connection_maps ?t = (connection_maps s)(obj_name c := None)"
    by (simp_all add: srv_queue_def)
  have other: "filter (about q) (hist ?t x) = filter (about q) (hist s x)" if "q \<noteq> p" for q x
    using that by (simp add: h about_def)
  have mine: "filter (about p) (hist ?t (obj_loop c)) = [EstablishTask p, DestroyTask p]"
  proof -
    have "filter (about p) (hist s (obj_loop c)) = [EstablishTask p]"
      using assms(1,2,3) by (simp add: srv_core_def)
    then show ?thesis by (simp only: h filter_append) (simp add: about_def)
  qed
  have map: "(connection_maps ?t n = Some q) = (\<exists>d. conn_objs s q = Some d \<and> obj_name d = n \<and> q \<notin> insert p R)"
    if "next_conn_ptr s < 2 ^ 31" for n q
  proof -
    have qp: "q = p" if "conn_objs s q = Some d" "obj_name d = obj_name c" for d
    proof -
      have "q < next_conn_ptr s" using assms(1) that(1) by (auto simp: srv_core_def)
      moreover have "name_of a nm q = name_of a nm p" using assms(1,2) that by (auto simp: srv_core_def)
      ultimately show "q = p" using name_of_inj [of q p] pn \<open>next_conn_ptr s < 2 ^ 31\<close> by auto
    qed
    have "(connection_maps s n = Some q) = (\<exists>d. conn_objs s q = Some d \<and> obj_name d = n \<and> q \<notin> R)"
      using assms(1) that by (simp add: srv_core_def)
    then show ?thesis using f(8) qp assms(2) by auto
  qed
  have "srv_core (insert p R) l a nm ?t"
  proof -
    have "filter (about q) (hist ?t (obj_loop d)) = EstablishTask q # (if q \<in> insert p R then [DestroyTask q] else [])"
      if "conn_objs s q = Some d" for q d
      using that other [of q] mine assms(1,2) by (cases "q = p") (auto simp: srv_core_def)
    moreover have "filter (about q) (hist ?t x) = []" if "next_conn_ptr s \<le> q" for q x
      using that other [of q x] pn assms(1) by (auto simp: srv_core_def)
    moreover have "filter (about q) (hist ?t x) = []" if "conn_objs s q = Some d" "x \<noteq> obj_loop d" for q d x
    proof -
      have "filter (about q) (hist s x) = []" using that assms(1) unfolding srv_core_def by blast
      moreover have "hist ?t x = hist s x" if "q = p"
        unfolding h using that \<open>conn_objs s q = Some d\<close> \<open>x \<noteq> obj_loop d\<close> assms(2) by simp
      ultimately show ?thesis using other [of q x] by (cases "q = p") simp_all
    qed
    ultimately show ?thesis using assms(1) pn map unfolding srv_core_def f by simp
  qed
  moreover have "srv_close l ?t" using assms(4) by (auto simp: srv_close_def f h)
  moreover have "ran ?t = ran s" by (simp add: srv_queue_def)
  ultimately show ?thesis using assms(2) by (simp add: RemoveconnectionInLoop_def)
qed

text \<open>
  What the invariant sees of a state: the same with other tasks in the histories as long as
  the tasks about connections are the same.
\<close>

lemma srv_core_cong:
  assumes "srv_core R l a nm s"
    "\<forall>x p. filter (about p) (hist t x) = filter (about p) (hist s x)" "conn_objs t = conn_objs s"
    "next_conn_ptr t = next_conn_ptr s" "next_conn_id t = next_conn_id s" "connection_maps t = connection_maps s"
    "srv_name t = srv_name s" "ip_port t = ip_port s" "base_loop (pool t) = base_loop (pool s)" "pool_inv (pool t)"
  shows "srv_core R l a nm t"
  using assms unfolding srv_core_def by simp

lemma about_others [simp]: "\<not> about p ListenTask" "\<not> about p (RemoveTask q)"
  by (simp_all add: about_def)

lemma srv_removal:
  assumes "srv_core (removed l s) l a nm s1" "p < next_conn_ptr s1" "RemoveTask p \<notin> set (ran s l)"
    "ran s1 l = ran s l @ [RemoveTask p]" "srv_close l s1"
  shows "\<exists>t. RemoveconnectionInLoop p s1 = Inr t \<and> srv_inv l a nm t"
proof -
  have "conn_objs s1 p \<noteq> None" using assms(1,2) unfolding srv_core_def by blast
  then obtain c where c: "conn_objs s1 p = Some c" by blast
  have "p \<notin> removed l s" using assms(3) by (simp add: removed_def)
  from removal_ok [OF assms(1) c this assms(5)] obtain t where t: "RemoveconnectionInLoop p s1 = Inr t"
    "srv_core (insert p (removed l s)) l a nm t" "srv_close l t" "ran t = ran s1" by blast
  have "removed l t = insert p (removed l s)" using t(4) assms(4) by (auto simp: removed_def)
  then show ?thesis using t by (simp add: srv_inv_def)
qed

lemma srv_exec_inv:
  assumes "srv_inv l a nm s" "queues s x = f # fs"
  shows "\<exists>t. srv_exec x f (s\<lparr>queues := (queues s)(x := fs)\<rparr>) = Inr t \<and> srv_inv l a nm t"
proof -
  let ?s1 = "s\<lparr>queues := (queues s)(x := fs), ran := (ran s)(x := ran s x @ [f])\<rparr>"
  have core: "srv_core (removed l s) l a nm s" and cl: "srv_close l s" using assms(1) by (simp_all add: srv_inv_def)
  have h: "hist ?s1 y = hist s y" for y using assms(2) by (simp add: hist_def)
  have core1: "srv_core (removed l s) l a nm ?s1"
    by (rule srv_core_cong [OF core]) (use core h in \<open>simp_all add: srv_core_def\<close>)
  have cl1: "srv_close l ?s1" using cl h by (simp add: srv_close_def)
  show ?thesis
  proof (cases "\<exists>p. f = RemoveTask p")
    case False
    then have "removed l ?s1 = removed l s" by (auto simp: removed_def)
    then have "srv_inv l a nm ?s1" using core1 cl1 by (simp add: srv_inv_def)
    then show ?thesis using False by (cases f) (simp_all add: srv_exec_def Let_def)
  next
    case True
    then obtain p where p: "f = RemoveTask p" by blast
    have in_hist: "RemoveTask p \<in> set (hist s x)" using assms(2) p by (simp add: hist_def)
    then have x: "x = l" using cl by (auto simp: srv_close_def)
    have "count_list (hist s l) (RemoveTask p) \<noteq> 0" using in_hist x by (simp add: count_list_0_iff)
    then have c1: "p \<in> closed_conns s" "count_list (hist s l) (RemoveTask p) = 1"
      using cl by (auto simp: srv_close_def split: if_splits)
    then have "count_list (ran s l) (RemoveTask p) = 0" using assms(2) p x by (simp add: hist_def)
    then have "RemoveTask p \<notin> set (ran s l)" by (simp add: count_list_0_iff)
    moreover have "p < next_conn_ptr s" using c1(1) cl by (auto simp: srv_close_def)
    ultimately obtain t where "RemoveconnectionInLoop p ?s1 = Inr t" "srv_inv l a nm t"
      using srv_removal [OF core1, of p] cl1 p x by auto
    then show ?thesis using p by (simp add: srv_exec_def Let_def)
  qed
qed

lemma srv_close_step:
  assumes "srv_inv l a nm s" "conn_objs s p = Some c" "p \<notin> closed_conns s"
  shows "\<exists>t. RemoveConnection (obj_loop c) p (s\<lparr>closed_conns := insert p (closed_conns s)\<rparr>) = Inr t \<and> srv_inv l a nm t"
proof -
  have core: "srv_core (removed l s) l a nm s" and cl: "srv_close l s" using assms(1) by (simp_all add: srv_inv_def)
  have pn: "p < next_conn_ptr s" and b: "base_loop (pool s) = l" using core assms(2) by (auto simp: srv_core_def)
  have cnt: "count_list (hist s l) (RemoveTask p) = 0" using cl assms(3) by (simp add: srv_close_def)
  show ?thesis
  proof (cases "obj_loop c = l")
    case False
    let ?t = "s\<lparr>closed_conns := insert p (closed_conns s), queues := (queues s)(l := queues s l @ [RemoveTask p])\<rparr>"
    have h: "hist ?t y = hist s y @ (if y = l then [RemoveTask p] else [])" for y by (simp add: hist_def)
    have "srv_core (removed l s) l a nm ?t"
      by (rule srv_core_cong [OF core]) (use core h in \<open>simp_all add: srv_core_def\<close>)
    moreover have "srv_close l ?t" using cl pn assms(3) unfolding srv_close_def h by auto
    moreover have "removed l ?t = removed l s" by (simp add: removed_def)
    ultimately show ?thesis using False b
      by (simp add: RemoveConnection_def srv_RunInLoop_def srv_queue_def srv_inv_def)
  next
    case True
    let ?s1 = "s\<lparr>closed_conns := insert p (closed_conns s), ran := (ran s)(l := ran s l @ [RemoveTask p])\<rparr>"
    have h: "hist ?s1 y = (if y = l then ran s l @ RemoveTask p # queues s l else hist s y)" for y by (simp add: hist_def)
    have "srv_close l ?s1" using cl pn assms(3) unfolding srv_close_def h by (auto simp: hist_def)
    moreover have "srv_core (removed l s) l a nm ?s1"
      by (rule srv_core_cong [OF core]) (use core in \<open>simp_all add: srv_core_def hist_def\<close>)
    moreover have "RemoveTask p \<notin> set (ran s l)" using cnt by (simp add: hist_def count_list_0_iff)
    ultimately obtain t where "RemoveconnectionInLoop p ?s1 = Inr t" "srv_inv l a nm t"
      using srv_removal [of l s a nm ?s1 p] pn by auto
    then show ?thesis using True b
      by (simp add: RemoveConnection_def srv_RunInLoop_def srv_exec_def Let_def)
  qed
qed

text \<open>
  Accepting connection \<open>p\<close> on loop \<open>x\<close>: the histories get its \<open>EstablishTask\<close> on \<open>x\<close>, at the end
  or, when it is run at once, before what is still queued.
\<close>

lemma srv_accept_inv:
  assumes inv: "srv_inv l a nm s" and p: "p = next_conn_ptr s"
    and other: "\<And>P y. \<not> P (EstablishTask p) \<Longrightarrow> filter P (hist t y) = filter P (hist s y)"
    and new: "filter (about p) (hist t x) = [EstablishTask p]"
      "\<And>y. y \<noteq> x \<Longrightarrow> hist t y = hist s y"
    and f: "conn_objs t = (conn_objs s)(p \<mapsto> \<lparr>obj_name = name_of a nm p, obj_loop = x\<rparr>)"
      "connection_maps t = (connection_maps s)(name_of a nm p \<mapsto> p)" "next_conn_ptr t = Suc p"
      "next_conn_id t = word_of_nat (Suc (Suc p))" "srv_name t = nm" "ip_port t = ToIpPort a"
      "base_loop (pool t) = l" "pool_inv (pool t)" "closed_conns t = closed_conns s" "removed l t = removed l s"
  shows "srv_inv l a nm t"
proof -
  let ?R = "removed l s"
  have core: "srv_core ?R l a nm s" and cl: "srv_close l s" using inv by (simp_all add: srv_inv_def)
  have R: "?R \<subseteq> {..<p}" and objs: "\<And>q. conn_objs s q \<noteq> None \<longleftrightarrow> q < p"
    and old_new: "\<And>q y. p \<le> q \<Longrightarrow> filter (about q) (hist s y) = []"
    and names: "\<And>q c. conn_objs s q = Some c \<Longrightarrow> obj_name c = name_of a nm q"
    and old: "\<And>q c. conn_objs s q = Some c \<Longrightarrow> filter (about q) (hist s (obj_loop c)) =
        EstablishTask q # (if q \<in> ?R then [DestroyTask q] else [])"
    and maps: "p < 2 ^ 31 \<Longrightarrow> \<forall>n q. connection_maps s n = Some q \<longleftrightarrow>
        (\<exists>c. conn_objs s q = Some c \<and> obj_name c = n \<and> q \<notin> ?R)"
    using core by (simp_all add: srv_core_def p)
  have away: "conn_objs s q = Some c \<Longrightarrow> y \<noteq> obj_loop c \<Longrightarrow> filter (about q) (hist s y) = []" for q c y
    using core by (simp add: srv_core_def)
  have same: "filter (about q) (hist t y) = filter (about q) (hist s y)" if "q \<noteq> p" for q y
    using that by (intro other) (simp add: about_def)
  have 1: "filter (about q) (hist t y) = []" if "Suc p \<le> q" for q y
    using that same [of q y] old_new [of q y] by simp
  have 2: "filter (about q) (hist t (obj_loop c)) = EstablishTask q # (if q \<in> ?R then [DestroyTask q] else [])"
    if "conn_objs t q = Some c" for q c
    using that f(1) new(1) R old [of q c] same [of q "obj_loop c"] by (cases "q = p") auto
  have 3: "connection_maps t n = Some q \<longleftrightarrow> (\<exists>c. conn_objs t q = Some c \<and> obj_name c = n \<and> q \<notin> ?R)"
    if bound: "Suc p < 2 ^ 31" for n q
  proof -
    have neq: "name_of a nm r \<noteq> name_of a nm p" if "r < p" for r
      using that bound name_of_inj [of r p] by simp
    have m: "connection_maps s n = Some q \<longleftrightarrow> (\<exists>c. conn_objs s q = Some c \<and> obj_name c = n \<and> q \<notin> ?R)"
      using maps bound by simp
    show ?thesis
    proof (cases "q = p")
      case True
      then have "conn_objs s q = None" using objs [of q] by simp
      then show ?thesis using True R m f(1,2) by auto
    next
      case False
      then show ?thesis using m neq [of q] names objs [of q] f(1,2) by auto
    qed
  qed
  have 4: "conn_objs t q \<noteq> None \<longleftrightarrow> q < Suc p" for q using objs [of q] f(1) by auto
  have 5: "obj_name c = name_of a nm q" if "conn_objs t q = Some c" for q c
    using that names f(1) by (cases "q = p") auto
  have 6: "filter (about q) (hist t y) = []" if "conn_objs t q = Some c" "y \<noteq> obj_loop c" for q c y
    using that f(1) same [of q y] away [of q c y] new(2) [of y] old_new [of q y] by (cases "q = p") auto
  have 7: "?R \<subseteq> {..<Suc p}" using R by auto
  have "\<forall>y q. Suc p \<le> q \<longrightarrow> filter (about q) (hist t y) = []"
    "\<forall>q c. conn_objs t q = Some c \<longrightarrow> filter (about q) (hist t (obj_loop c)) =
      EstablishTask q # (if q \<in> ?R then [DestroyTask q] else [])"
    "\<forall>q c y. conn_objs t q = Some c \<longrightarrow> y \<noteq> obj_loop c \<longrightarrow> filter (about q) (hist t y) = []"
    "Suc p < 2 ^ 31 \<longrightarrow> (\<forall>n q. connection_maps t n = Some q \<longleftrightarrow> (\<exists>c. conn_objs t q = Some c \<and> obj_name c = n \<and> q \<notin> ?R))"
    "\<forall>q. conn_objs t q \<noteq> None \<longleftrightarrow> q < Suc p" "\<forall>q c. conn_objs t q = Some c \<longrightarrow> obj_name c = name_of a nm q"
    using 1 2 6 3 4 5 by blast+
  then have "srv_core ?R l a nm t"
    unfolding srv_core_def f(3) using f(4-8) 7 by (intro conjI) assumption+
  moreover have "srv_close l t"
  proof -
    have c: "count_list (hist t y) (RemoveTask q) = count_list (hist s y) (RemoveTask q)" for q y
      using other [of "(=) (RemoveTask q)" y] by (simp add: count_list_eq_length_filter)
    then have "RemoveTask q \<in> set (hist t y) \<longleftrightarrow> RemoveTask q \<in> set (hist s y)" for q y
      by (metis count_list_0_iff)
    then show ?thesis using cl c f(3,9) p by (auto simp: srv_close_def)
  qed
  ultimately show ?thesis using f(10) by (simp add: srv_inv_def)
qed

lemma srv_accept_step:
  assumes "srv_inv l a nm s"
  shows "\<exists>t. NewConnection s = Inr t \<and> srv_inv l a nm t"
proof -
  let ?p = "next_conn_ptr s"
  have core: "srv_core (removed l s) l a nm s" using assms(1) by (simp add: srv_inv_def)
  then have pi: "pool_inv (pool s)" and b: "base_loop (pool s) = l" and sn: "srv_name s = nm" "ip_port s = ToIpPort a"
    "next_conn_id s = word_of_nat (Suc ?p)" and none: "\<And>y. filter (about ?p) (hist s y) = []"
    unfolding srv_core_def by blast+
  obtain x pl where g: "GetNextLoop (pool s) = Inr (x, pl)" "pool_inv pl" "base_loop pl = l"
    using GetNextLoop_ok [OF pi] b by auto
  have name: "conn_name s = name_of a nm ?p" using sn by (simp add: conn_name_def name_of_def)
  let ?s1 = "s\<lparr>pool := pl, next_conn_id := next_conn_id s + 1, next_conn_ptr := ?p + 1,
      conn_objs := (conn_objs s)(?p \<mapsto> \<lparr>obj_name = name_of a nm ?p, obj_loop = x\<rparr>),
      connection_maps := (connection_maps s)(name_of a nm ?p \<mapsto> ?p)\<rparr>"
  have N: "NewConnection s = srv_RunInLoop l x (EstablishTask ?p) ?s1"
    using g name by (simp add: NewConnection_def Let_def)
  have nf: "filter (about ?p) (ran s x) = []" "filter (about ?p) (queues s x) = []"
    using none [of x] by (simp_all add: hist_def)
  show ?thesis
  proof (cases "l = x")
    case True
    let ?t = "?s1\<lparr>ran := (ran s)(x := ran s x @ [EstablishTask ?p])\<rparr>"
    have "srv_inv l a nm ?t"
      by (rule srv_accept_inv [OF assms refl, where x = x])
        (use g sn nf in \<open>auto simp: hist_def about_def removed_def\<close>)
    then show ?thesis using N True by (simp add: srv_RunInLoop_def srv_exec_def Let_def)
  next
    case False
    let ?t = "?s1\<lparr>queues := (queues s)(x := queues s x @ [EstablishTask ?p])\<rparr>"
    have "srv_inv l a nm ?t"
      by (rule srv_accept_inv [OF assms refl, where x = x])
        (use g sn nf in \<open>auto simp: hist_def about_def removed_def\<close>)
    then show ?thesis using N False by (simp add: srv_RunInLoop_def srv_queue_def)
  qed
qed

lemma pool_Start_inv: "pool_inv pl \<Longrightarrow> pool_inv (pool_Start new_loop has_cb pl)"
  by (auto simp: pool_inv_def pool_Start_loops split: if_splits)

lemma srv_start_step:
  assumes "srv_inv l a nm s" "srv_Start new_loop has_cb (base_loop (pool s)) s = Inr t"
  shows "srv_inv l a nm t"
proof -
  have core: "srv_core (removed l s) l a nm s" and cl: "srv_close l s" using assms(1) by (simp_all add: srv_inv_def)
  have b: "base_loop (pool s) = l" "pool_inv (pool s)" using core by (simp_all add: srv_core_def)
  have "srv_core (removed l s) l a nm t \<and> srv_close l t \<and> removed l t = removed l s"
  proof (cases "srv_started s = 0")
    case True
    let ?pl = "pool_Start new_loop has_cb (pool s)"
    have t: "t = s\<lparr>srv_started := srv_started s + 1, pool := ?pl, ran := (ran s)(l := ran s l @ [ListenTask])\<rparr>"
      using assms(2) b True by (simp add: srv_Start_def srv_RunInLoop_def srv_exec_def Let_def)
    have h: "filter P (hist t y) = filter P (hist s y)" if "\<not> P ListenTask" for P y
      using that by (simp add: t hist_def)
    have c: "count_list (hist t y) (RemoveTask q) = count_list (hist s y) (RemoveTask q)" for q y
      using h [of "(=) (RemoveTask q)" y] by (simp add: count_list_eq_length_filter)
    then have m: "RemoveTask q \<in> set (hist t y) \<longleftrightarrow> RemoveTask q \<in> set (hist s y)" for q y
      by (metis count_list_0_iff)
    have "srv_core (removed l s) l a nm t"
      by (rule srv_core_cong [OF core])
        (use h b pool_Start_inv [OF b(2)] in \<open>simp_all add: t pool_Start_loops\<close>)
    moreover have "srv_close l t" using cl c m unfolding srv_close_def by (simp add: t)
    moreover have "removed l t = removed l s" by (auto simp: t removed_def)
    ultimately show ?thesis by blast
  next
    case False
    then have t: "t = s\<lparr>srv_started := srv_started s + 1\<rparr>" using assms(2) by (simp add: srv_Start_def)
    have "srv_core (removed l s) l a nm t"
      by (rule srv_core_cong [OF core]) (use b in \<open>simp_all add: t hist_def\<close>)
    then show ?thesis using cl by (simp add: t srv_close_def hist_def removed_def)
  qed
  then show ?thesis by (simp add: srv_inv_def)
qed

lemma srv_step_inv: "srv_step s t \<Longrightarrow> srv_inv l a nm s \<Longrightarrow> srv_inv l a nm t"
proof (induction rule: srv_step.induct)
  case (start new_loop has_cb s t)
  then show ?case using srv_start_step by blast
next
  case (accept s t)
  then show ?case using srv_accept_step [of l a nm s] by auto
next
  case (run_functor s x f fs t)
  then show ?case using srv_exec_inv [of l a nm s x f fs] by auto
next
  case (close s p c t)
  then show ?case using srv_close_step [of l a nm s p c] by auto
qed

lemma srv_reachable_inv: "srv_reachable l a nm s \<Longrightarrow> srv_inv l a nm s"
proof (induction rule: srv_reachable.induct)
  case (srv_made s)
  then show ?case
    by (auto simp: TcpServer_ctor_def srv_inv_def srv_core_def srv_close_def hist_def removed_def
        EventLoopThreadPool_ctor_def pool_inv_def)
next
  case (srv_more s t)
  then show ?case using srv_step_inv by blast
qed

section \<open>Properties of the server\<close>

text \<open>
  C26. As long as the server has accepted fewer than \<open>2^31\<close> connections, its map holds exactly
  the connections that were accepted and not removed yet, each under its own name: no
  connection is lost to another of the same name.
\<close>

theorem connection_map_exact:
  assumes "srv_reachable l a nm s" "next_conn_ptr s < 2 ^ 31"
  shows "connection_maps s n = Some p \<longleftrightarrow>
    p < next_conn_ptr s \<and> map_option obj_name (conn_objs s p) = Some n \<and> RemoveTask p \<notin> set (ran s l)"
proof -
  have core: "srv_core (removed l s) l a nm s" using srv_reachable_inv [OF assms(1)] by (simp add: srv_inv_def)
  then have "connection_maps s n = Some p \<longleftrightarrow> (\<exists>c. conn_objs s p = Some c \<and> obj_name c = n \<and> p \<notin> removed l s)"
    "conn_objs s p \<noteq> None \<longleftrightarrow> p < next_conn_ptr s"
    using assms(2) unfolding srv_core_def by blast+
  then show ?thesis by (auto simp: removed_def)
qed

text \<open>
  The life of every accepted connection on its I/O loop: \<open>ConnectionEstablished\<close> is given to
  that loop exactly once, \<open>ConnectionDestroyed\<close> at most once and always behind it, and it has
  been given exactly when the base loop has taken the connection out of the map; a connection
  that closes is removed exactly once.
\<close>

theorem connection_lifecycle:
  assumes "srv_reachable l a nm s" "conn_objs s p = Some c"
  shows "filter (\<lambda>t. t = EstablishTask p \<or> t = DestroyTask p) (ran s (obj_loop c) @ queues s (obj_loop c)) =
      EstablishTask p # (if RemoveTask p \<in> set (ran s l) then [DestroyTask p] else []) \<and>
    count_list (ran s l @ queues s l) (RemoveTask p) = (if p \<in> closed_conns s then 1 else 0)"
proof -
  have core: "srv_core (removed l s) l a nm s" and cl: "srv_close l s"
    using srv_reachable_inv [OF assms(1)] by (simp_all add: srv_inv_def)
  have "filter (about p) (hist s (obj_loop c)) = EstablishTask p # (if p \<in> removed l s then [DestroyTask p] else [])"
    using core assms(2) unfolding srv_core_def by blast
  moreover have "about p = (\<lambda>t. t = EstablishTask p \<or> t = DestroyTask p)" by (auto simp: about_def)
  moreover have "count_list (hist s l) (RemoveTask p) = (if p \<in> closed_conns s then 1 else 0)"
    using cl unfolding srv_close_def by blast
  ultimately show ?thesis by (simp add: hist_def removed_def)
qed

text \<open>For the witnesses: a server without threads that has accepted one connection.\<close>

definition one_conn_server :: server where
  "one_conn_server = projr (NewConnection (projr (TcpServer_ctor (Some 1) (InetAddr_port 8000) ''srv'')))"

lemma one_conn_eqs:
  "NewConnection (projr (TcpServer_ctor (Some 1) (InetAddr_port 8000) ''srv'')) = Inr one_conn_server"
  "next_conn_ptr one_conn_server = 1" "ran one_conn_server 1 = [EstablishTask 0]" "queues one_conn_server 1 = []"
  "map_option obj_loop (conn_objs one_conn_server 0) = Some 1"
  "map_option obj_name (conn_objs one_conn_server 0) = Some (name_of (InetAddr_port 8000) ''srv'' 0)"
  "closed_conns one_conn_server = {}"
  by (simp_all add: one_conn_server_def NewConnection_def TcpServer_ctor_def GetNextLoop_def
      EventLoopThreadPool_ctor_def Let_def srv_RunInLoop_def srv_exec_def conn_name_def name_of_def)

lemma one_conn_reachable: "srv_reachable 1 (InetAddr_port 8000) ''srv'' one_conn_server"
proof (rule srv_more [OF srv_made])
  show "TcpServer_ctor (Some 1) (InetAddr_port 8000) ''srv'' = Inr (projr (TcpServer_ctor (Some 1) (InetAddr_port 8000) ''srv''))"
    by (simp add: TcpServer_ctor_def)
  show "srv_step (projr (TcpServer_ctor (Some 1) (InetAddr_port 8000) ''srv'')) one_conn_server"
    by (rule srv_step.accept [OF one_conn_eqs(1)])
qed

theorem connection_map_exact_witness:
  "connection_maps one_conn_server (name_of (InetAddr_port 8000) ''srv'' 0) = Some 0"
  using connection_map_exact [OF one_conn_reachable, of "name_of (InetAddr_port 8000) ''srv'' 0" 0] one_conn_eqs
  by simp

theorem connection_lifecycle_witness:
  "filter (\<lambda>t. t = EstablishTask 0 \<or> t = DestroyTask 0) (ran one_conn_server 1 @ queues one_conn_server 1) =
      [EstablishTask 0] \<and> count_list (ran one_conn_server 1 @ queues one_conn_server 1) (RemoveTask 0) = 0"
proof -
  obtain c where c: "conn_objs one_conn_server 0 = Some c" "obj_loop c = 1" using one_conn_eqs(5) by auto
  show ?thesis using connection_lifecycle [OF one_conn_reachable c(1)] c(2) one_conn_eqs by simp
qed

end
