(* ===== verification/Server_Run.thy ===== *)
theory Server_Run
  imports Connection_Set Tcp_Server
begin

text \<open>
  The whole server: \<open>TcpServer\<close> (\<^verbatim>\<open>src/tcp_server.cc\<close>) with the connections themselves on the pollers
  of their I/O loops. \<open>Tcp_Server\<close> records which functors are queued and run; here running
  \<open>ConnectionEstablished\<close> or \<open>ConnectionDestroyed\<close> is the method of \<^verbatim>\<open>src/tcp_connection.cc\<close> on the
  connection object, and a connection that closes calls the server. What the connection's methods
  need (that it has just been made, that its channel is registered, that it is not half closed)
  is proved to hold whenever the server calls them. What the program built on the server does
  with its connections is the record \<open>service\<close>, its contract the locale \<open>server_conns\<close>.
\<close>

section \<open>The state\<close>

text \<open>
  The server and, for each loop, its poller and the connections on it, each with what the
  program has seen of it so far.
\<close>

record ('k, 'g) whole =
  srv :: server
  sets :: "ptr \<Rightarrow> ('k, 'g) conn_set"

text \<open>What a functor of the server does to the connections of the loop that runs it.\<close>

fun task_effect :: "'k epoll_kernel \<Rightarrow> 'k epoller callbacks \<Rightarrow> srv_task \<Rightarrow> ('k, 'g) conn_set \<Rightarrow> ('k, 'g) conn_set res" where
  "task_effect K cb (EstablishTask p) S =
     (case member S p of
        None \<Rightarrow> Inl UseAfterFree
      | Some (g, c) \<Rightarrow> res_bind (ConnectionEstablished (epoll_ops K) cb p c) (\<lambda>c'. Inr (put_member p g c' S)))"
| "task_effect K cb (DestroyTask p) S =
     (case member S p of
        None \<Rightarrow> Inl UseAfterFree
      | Some (g, c) \<Rightarrow> res_bind (ConnectionDestroyed (epoll_ops K) cb c) (\<lambda>c'. Inr (put_member p g c' S)))"
| "task_effect K cb ListenTask S = Inr S"
| "task_effect K cb (RemoveTask p) S = Inr S"

text \<open>Loop \<open>x\<close> runs its oldest functor.\<close>

definition whole_run :: "'k epoll_kernel \<Rightarrow> 'k epoller callbacks \<Rightarrow> ptr \<Rightarrow> ('k, 'g) whole \<Rightarrow> ('k, 'g) whole res" where
  "whole_run K cb x W =
     (case queues (srv W) x of
        [] \<Rightarrow> Inr W
      | f # fs \<Rightarrow>
        res_bind (srv_exec x f ((srv W)\<lparr>queues := (queues (srv W))(x := fs)\<rparr>)) (\<lambda>t.
        res_bind (task_effect K cb f (sets W x)) (\<lambda>S. Inr (W\<lparr>srv := t, sets := (sets W)(x := S)\<rparr>))))"

text \<open>
  A connection arrives on descriptor \<open>fd\<close>: \<open>NewConnection\<close> chooses its loop and makes the object,
  whose channel is at the connection's own address here, and if that loop is the server's
  own, \<open>ConnectionEstablished\<close> runs at once.
\<close>

definition whole_accept ::
  "'k epoll_kernel \<Rightarrow> 'g \<Rightarrow> 'k epoller callbacks \<Rightarrow> bool \<Rightarrow> cint \<Rightarrow> ('k, 'g) whole \<Rightarrow> ('k, 'g) whole res" where
  "whole_accept K g0 cb w fd W =
     (let p = next_conn_ptr (srv W) in
      res_bind (NewConnection (srv W)) (\<lambda>t.
        case conn_objs t p of
          None \<Rightarrow> Inl UseAfterFree
        | Some ob \<Rightarrow>
            let x = obj_loop ob in
            res_bind (TcpConnection_ctor (epoll_ops K) (Some (shared (sets W x))) p fd) (\<lambda>c.
              let S = put_member p g0 (c\<lparr>write_complete_set := w\<rparr>) (sets W x) in
              res_bind (if EstablishTask p \<in> set (ran t x) then task_effect K cb (EstablishTask p) S else Inr S) (\<lambda>S'.
                Inr (W\<lparr>srv := t, sets := (sets W)(x := S')\<rparr>)))))"

text \<open>
  The connection at \<open>p\<close> on loop \<open>x\<close> closes (\<open>close\<close> is \<open>HandleClose\<close>, or \<open>HandleRead\<close> at the end of the
  stream): the last thing it does is to call the server.
\<close>

definition whole_close ::
  "('k epoller connection \<Rightarrow> 'k epoller connection res) \<Rightarrow> ptr \<Rightarrow> ptr \<Rightarrow> ('k, 'g) whole \<Rightarrow> ('k, 'g) whole res" where
  "whole_close close x p W =
     (case member (sets W x) p of
        None \<Rightarrow> Inl UseAfterFree
      | Some (g, c) \<Rightarrow> res_bind (close c) (\<lambda>c'.
          res_bind (RemoveConnection x p ((srv W)\<lparr>closed_conns := insert p (closed_conns (srv W))\<rparr>)) (\<lambda>t.
            Inr (W\<lparr>srv := t, sets := (sets W)(x := put_member p g c' (sets W x))\<rparr>))))"

section \<open>Steps\<close>

text \<open>
  What a program does with the connections of its server: what it keeps of a new connection,
  its callbacks, the traffic of a connection that has been established, and the ways a
  connection can close.
\<close>

record ('k, 'g) service =
  fresh :: 'g
  calls :: "'k epoller callbacks"
  traffic :: "'g \<Rightarrow> 'k epoller connection \<Rightarrow> 'g \<Rightarrow> 'k epoller connection \<Rightarrow> bool"
  closing :: "'g \<Rightarrow> 'k epoller connection \<Rightarrow> ('k epoller connection \<Rightarrow> 'k epoller connection res) \<Rightarrow> bool"

text \<open>
  What the base loop, the I/O loops, the users and the kernel do, in any order. The kernel gives a
  descriptor that no open socket has, and a new object lies where no other is. A connection
  object is freed at the earliest when its last functor has run. \<open>whole_op\<close> are the steps of
  the connections that neither make nor free one; channels of others (of the loop itself, of the acceptor)
  change what is theirs. As in \<open>srv_step\<close>, a connection closes once.
\<close>

inductive whole_op :: "'k epoll_kernel \<Rightarrow> ('k, 'g) service \<Rightarrow> ('k, 'g) whole \<Rightarrow> ('k, 'g) whole \<Rightarrow> bool" for K U where
  w_run: "whole_run K (calls U) x W = Inr W' \<Longrightarrow> whole_op K U W W'"
| w_traffic: "member (sets W x) p = Some (g, c) \<Longrightarrow> state c \<noteq> kConnecting \<Longrightarrow> traffic U g c g' c' \<Longrightarrow>
    whole_op K U W (W\<lparr>sets := (sets W)(x := put_member p g' c' (sets W x))\<rparr>)"
| w_close: "member (sets W x) p = Some (g, c) \<Longrightarrow> open_state (state c) \<Longrightarrow> closing U g c f \<Longrightarrow>
    whole_close f x p W = Inr W' \<Longrightarrow> whole_op K U W W'"
| w_poll: "ep_Polling K timeout (shared (sets W x)) [] = Inr (s, active) \<Longrightarrow>
    whole_op K U W (W\<lparr>sets := (sets W)(x := (sets W x)\<lparr>shared := s\<rparr>)\<rparr>)"

inductive whole_step :: "'k epoll_kernel \<Rightarrow> ('k, 'g) service \<Rightarrow> ('k, 'g) whole \<Rightarrow> ('k, 'g) whole \<Rightarrow> bool" for K U where
  w_start: "srv_Start new_loop has_cb (base_loop (pool (srv W))) (srv W) = Inr t \<Longrightarrow> whole_step K U W (W\<lparr>srv := t\<rparr>)"
| w_accept: "(\<forall>x. ep_chans (shared (sets W x)) (next_conn_ptr (srv W)) = None) \<Longrightarrow>
    (\<forall>x q d. ep_chans (shared (sets W x)) q = Some d \<longrightarrow> ch_fd d \<noteq> fd) \<Longrightarrow>
    whole_accept K (fresh U) (calls U) w fd W = Inr W' \<Longrightarrow> whole_step K U W W'"
| w_op: "whole_op K U W W' \<Longrightarrow> whole_step K U W W'"
| w_free: "member (sets W x) p = Some (g, c) \<Longrightarrow> DestroyTask p \<in> set (ran (srv W) x) \<Longrightarrow>
    whole_step K U W (W\<lparr>sets := (sets W)(x := drop_member p (sets W x))\<rparr>)"
| w_foreign: "members (sets W x) q = None \<Longrightarrow> ep_chans (shared (sets W x)) q = Some d \<Longrightarrow>
    ep_others K q (shared (sets W x)) s \<Longrightarrow> ep_inv K s \<Longrightarrow>
    whole_step K U W (W\<lparr>sets := (sets W)(x := (sets W x)\<lparr>shared := s\<rparr>)\<rparr>)"

inductive whole_reachable ::
  "'k epoll_kernel \<Rightarrow> ('k, 'g) service \<Rightarrow> ptr \<Rightarrow> sockaddr_in \<Rightarrow> string \<Rightarrow> ('k, 'g) whole \<Rightarrow> bool" for K U l a nm where
  w_made: "TcpServer_ctor (Some l) a nm = Inr s \<Longrightarrow> (\<forall>x. ep_inv K (e x)) \<Longrightarrow>
    whole_reachable K U l a nm \<lparr>srv = s, sets = (\<lambda>x. \<lparr>shared = e x, members = Map.empty\<rparr>)\<rparr>"
| w_more: "whole_reachable K U l a nm W \<Longrightarrow> whole_step K U W W' \<Longrightarrow> whole_reachable K U l a nm W'"

section \<open>Invariant\<close>

text \<open>What the server's history says of a connection, and what the connection shows.\<close>

definition life :: "server \<Rightarrow> ptr \<Rightarrow> ptr \<Rightarrow> conn_state \<times> bool \<Rightarrow> bool" where
  "life s x p = (\<lambda>(st, reg).
     (st = kConnecting \<longleftrightarrow> EstablishTask p \<notin> set (ran s x)) \<and> (st = kDisconnected \<longleftrightarrow> p \<in> closed_conns s) \<and>
     (reg \<longleftrightarrow> EstablishTask p \<in> set (ran s x) \<and> DestroyTask p \<notin> set (ran s x)))"

definition seen :: "('k, 'g) conn_set \<Rightarrow> ptr \<Rightarrow> (conn_state \<times> bool) option" where
  "seen S p = map_option (\<lambda>(_, c). (state c, ep_registered (shared S) p)) (member S p)"

definition whole_inv ::
  "'k epoll_kernel \<Rightarrow> 'g \<Rightarrow> ('g \<Rightarrow> 'k epoller connection \<Rightarrow> 'g \<Rightarrow> 'k epoller connection \<Rightarrow> bool) \<Rightarrow>
   ptr \<Rightarrow> sockaddr_in \<Rightarrow> string \<Rightarrow> ('k, 'g) whole \<Rightarrow> bool" where
  "whole_inv K g0 act l a nm W \<longleftrightarrow> srv_inv l a nm (srv W) \<and>
     (\<forall>x. conns_reachable K g0 act (sets W x)) \<and>
     (\<forall>x p v. seen (sets W x) p = Some v \<longrightarrow>
        map_option obj_loop (conn_objs (srv W) p) = Some x \<and> life (srv W) x p v) \<and>
     (\<forall>x p. map_option obj_loop (conn_objs (srv W) p) = Some x \<longrightarrow> DestroyTask p \<notin> set (ran (srv W) x) \<longrightarrow>
        seen (sets W x) p \<noteq> None)"

lemma whole_invD:
  assumes "whole_inv K g0 act l a nm W"
  shows "srv_inv l a nm (srv W)" "conns_reachable K g0 act (sets W x)"
    "seen (sets W x) p = Some v \<Longrightarrow> map_option obj_loop (conn_objs (srv W) p) = Some x"
    "seen (sets W x) p = Some v \<Longrightarrow> life (srv W) x p v"
    "map_option obj_loop (conn_objs (srv W) p) = Some x \<Longrightarrow> DestroyTask p \<notin> set (ran (srv W) x) \<Longrightarrow> seen (sets W x) p \<noteq> None"
  using assms unfolding whole_inv_def by blast+

text \<open>The server did nothing that concerns \<open>q\<close>.\<close>

definition same_life :: "server \<Rightarrow> server \<Rightarrow> ptr \<Rightarrow> bool" where
  "same_life s t q \<longleftrightarrow> conn_objs t q = conn_objs s q \<and> (q \<in> closed_conns t \<longleftrightarrow> q \<in> closed_conns s) \<and>
     (\<forall>x. (EstablishTask q \<in> set (ran t x) \<longleftrightarrow> EstablishTask q \<in> set (ran s x)) \<and>
          (DestroyTask q \<in> set (ran t x) \<longleftrightarrow> DestroyTask q \<in> set (ran s x)))"

lemma same_life_life: "same_life s t q \<Longrightarrow> life t x q v = life s x q v"
  by (cases v) (simp add: same_life_def life_def)

lemma same_life_refl [simp]: "same_life s s q"
  by (simp add: same_life_def)

lemma whole_inv_upd:
  assumes inv: "whole_inv K g0 act l a nm W" and t: "srv_inv l a nm t"
    and S: "conns_reachable K g0 act S"
    and oth: "\<And>q. q \<noteq> p \<Longrightarrow> seen S q = seen (sets W x) q" "\<And>q. q \<noteq> p \<Longrightarrow> same_life (srv W) t q"
    and own: "\<And>y. map_option obj_loop (conn_objs (srv W) p) = Some y \<Longrightarrow> y = x"
      "map_option obj_loop (conn_objs t p) = Some x"
      "\<And>v. seen S p = Some v \<Longrightarrow> life t x p v" "seen S p = None \<Longrightarrow> DestroyTask p \<in> set (ran t x)"
  shows "whole_inv K g0 act l a nm (W\<lparr>srv := t, sets := (sets W)(x := S)\<rparr>)"
proof -
  have 1: "map_option obj_loop (conn_objs t q) = Some y \<and> life t y q v"
    if h: "seen (((sets W)(x := S)) y) q = Some v" for y q v
  proof (cases "q = p")
    case True
    show ?thesis
    proof (cases "y = x")
      case True
      then show ?thesis using h \<open>q = p\<close> own(2,3) by simp
    next
      case False
      then have "map_option obj_loop (conn_objs (srv W) p) = Some y"
        using h \<open>q = p\<close> whole_invD(3) [OF inv] by simp
      then show ?thesis using own(1) False by blast
    qed
  next
    case False
    then have "seen (sets W y) q = Some v" using h oth(1) by (cases "y = x") auto
    then have "map_option obj_loop (conn_objs (srv W) q) = Some y" "life (srv W) y q v"
      using whole_invD(3,4) [OF inv] by blast+
    moreover have "conn_objs t q = conn_objs (srv W) q" using oth(2) [OF False] by (simp add: same_life_def)
    ultimately show ?thesis using same_life_life [OF oth(2) [OF False]] by simp
  qed
  have 2: "seen (((sets W)(x := S)) y) q \<noteq> None"
    if h: "map_option obj_loop (conn_objs t q) = Some y" "DestroyTask q \<notin> set (ran t y)" for y q
  proof (cases "q = p")
    case True
    then have "y = x" using h(1) own(2) by simp
    moreover have "seen S p \<noteq> None" using own(4) h(2) True \<open>y = x\<close> by blast
    ultimately show ?thesis using True by simp
  next
    case False
    then have sl: "same_life (srv W) t q" by (rule oth(2))
    then have "seen (sets W y) q \<noteq> None" using h whole_invD(5) [OF inv] by (simp add: same_life_def)
    then show ?thesis using oth(1) [OF False] by (cases "y = x") auto
  qed
  have 3: "conns_reachable K g0 act (((sets W)(x := S)) y)" for y
    using S whole_invD(2) [OF inv] by simp
  have f: "srv (W\<lparr>srv := t, sets := (sets W)(x := S)\<rparr>) = t" "sets (W\<lparr>srv := t, sets := (sets W)(x := S)\<rparr>) = (sets W)(x := S)"
    by simp_all
  show ?thesis unfolding whole_inv_def f using t 1 2 3 by blast
qed

section \<open>What the server's functions do to the histories\<close>

lemma srv_exec_eff:
  "srv_exec x f s = Inr t \<Longrightarrow> ran t = (ran s)(x := ran s x @ [f]) \<and> conn_objs t = conn_objs s \<and> closed_conns t = closed_conns s"
  by (cases f) (auto simp: srv_exec_def Let_def RemoveconnectionInLoop_def srv_queue_def split: option.splits)

lemma srv_RunInLoop_eff:
  "srv_RunInLoop cur x f s = Inr t \<Longrightarrow> conn_objs t = conn_objs s \<and> closed_conns t = closed_conns s \<and>
     (ran t = ran s \<or> ran t = (ran s)(x := ran s x @ [f]))"
  by (auto simp: srv_RunInLoop_def srv_queue_def split: if_splits dest!: srv_exec_eff)

lemma same_lifeI:
  assumes "conn_objs t q = conn_objs s q" "q \<in> closed_conns t \<longleftrightarrow> q \<in> closed_conns s"
    "ran t = ran s \<or> ran t = (ran s)(x := ran s x @ [f])" "\<not> about q f"
  shows "same_life s t q"
  using assms by (auto simp: same_life_def about_def split: if_splits)

lemma hist_task:
  assumes "srv_inv l a nm s" "f \<in> set (hist s x)" "about p f"
  shows "map_option obj_loop (conn_objs s p) = Some x"
proof -
  have core: "srv_core (removed l s) l a nm s" using assms(1) by (simp add: srv_inv_def)
  have ne: "filter (about p) (hist s x) \<noteq> []" using assms(2,3) by (auto simp: filter_empty_conv)
  have "\<not> next_conn_ptr s \<le> p" using core ne unfolding srv_core_def by blast
  then have "conn_objs s p \<noteq> None" using core by (simp add: srv_core_def)
  then obtain c where c: "conn_objs s p = Some c" by blast
  have "\<forall>q c y. conn_objs s q = Some c \<longrightarrow> y \<noteq> obj_loop c \<longrightarrow> filter (about q) (hist s y) = []"
    using core by (simp add: srv_core_def)
  then have "x = obj_loop c" using c ne by blast
  then show ?thesis using c by simp
qed

lemma hist_tasks:
  assumes "srv_inv l a nm s" "map_option obj_loop (conn_objs s p) = Some x"
  shows "filter (about p) (ran s x) @ filter (about p) (queues s x) =
    EstablishTask p # (if RemoveTask p \<in> set (ran s l) then [DestroyTask p] else [])"
proof -
  have core: "srv_core (removed l s) l a nm s" using assms(1) by (simp add: srv_inv_def)
  obtain c where c: "conn_objs s p = Some c" "obj_loop c = x" using assms(2) by auto
  have "\<forall>p c. conn_objs s p = Some c \<longrightarrow> filter (about p) (hist s (obj_loop c)) =
      EstablishTask p # (if p \<in> removed l s then [DestroyTask p] else [])"
    using core unfolding srv_core_def by (elim conjE)
  then have "filter (about p) (hist s x) = EstablishTask p # (if p \<in> removed l s then [DestroyTask p] else [])"
    using c by blast
  then show ?thesis by (simp add: hist_def removed_def)
qed

lemma removed_closed:
  assumes "srv_inv l a nm s" "RemoveTask p \<in> set (ran s l)"
  shows "p \<in> closed_conns s"
proof -
  have "count_list (hist s l) (RemoveTask p) = (if p \<in> closed_conns s then 1 else 0)"
    using assms(1) by (simp add: srv_inv_def srv_close_def)
  moreover have "count_list (hist s l) (RemoveTask p) \<noteq> 0" using assms(2) by (simp add: hist_def count_list_0_iff)
  ultimately show ?thesis by (auto split: if_splits)
qed

lemma ran_about: "f \<in> set (ran s x) \<Longrightarrow> about p f \<Longrightarrow> f \<in> set (filter (about p) (ran s x))"
  by simp

text \<open>The functor at the head of a queue is the first of its kind.\<close>

lemma head_establish:
  assumes "srv_inv l a nm s" "queues s x = EstablishTask p # fs"
  shows "map_option obj_loop (conn_objs s p) = Some x" "EstablishTask p \<notin> set (ran s x)" "DestroyTask p \<notin> set (ran s x)"
proof -
  show o: "map_option obj_loop (conn_objs s p) = Some x"
    using assms hist_task [of l a nm s "EstablishTask p" x p] by (simp add: hist_def about_def)
  have f: "filter (about p) (ran s x) @ EstablishTask p # filter (about p) fs =
      EstablishTask p # (if RemoveTask p \<in> set (ran s l) then [DestroyTask p] else [])"
    using hist_tasks [OF assms(1) o] assms(2) by (simp add: about_def)
  have "filter (about p) (ran s x) = []"
    using f by (cases "filter (about p) (ran s x)") (auto simp: Cons_eq_append_conv append_eq_Cons_conv split: if_splits)
  then show "EstablishTask p \<notin> set (ran s x)" "DestroyTask p \<notin> set (ran s x)"
    by (auto simp: filter_empty_conv about_def)
qed

lemma head_destroy:
  assumes "srv_inv l a nm s" "queues s x = DestroyTask p # fs"
  shows "map_option obj_loop (conn_objs s p) = Some x" "EstablishTask p \<in> set (ran s x)" "DestroyTask p \<notin> set (ran s x)"
    "p \<in> closed_conns s"
proof -
  show o: "map_option obj_loop (conn_objs s p) = Some x"
    using assms hist_task [of l a nm s "DestroyTask p" x p] by (simp add: hist_def about_def)
  have f: "filter (about p) (ran s x) @ DestroyTask p # filter (about p) fs =
      EstablishTask p # (if RemoveTask p \<in> set (ran s l) then [DestroyTask p] else [])"
    using hist_tasks [OF assms(1) o] assms(2) by (simp add: about_def)
  have r: "filter (about p) (ran s x) = [EstablishTask p] \<and> RemoveTask p \<in> set (ran s l)"
    using f by (cases "filter (about p) (ran s x)") (auto simp: append_eq_Cons_conv split: if_splits)
  then have "set (filter (about p) (ran s x)) = {EstablishTask p}" by simp
  then show "EstablishTask p \<in> set (ran s x)" "DestroyTask p \<notin> set (ran s x)" by (auto simp: about_def)
  show "p \<in> closed_conns s" using removed_closed [OF assms(1)] r by blast
qed

lemma destroyed_closed:
  assumes "srv_inv l a nm s" "DestroyTask p \<in> set (ran s x)"
  shows "p \<in> closed_conns s"
proof -
  have o: "map_option obj_loop (conn_objs s p) = Some x"
    using assms hist_task [of l a nm s "DestroyTask p" x p] by (simp add: hist_def about_def)
  have "DestroyTask p \<in> set (filter (about p) (ran s x) @ filter (about p) (queues s x))"
    using assms(2) by (simp add: about_def)
  then have "RemoveTask p \<in> set (ran s l)" unfolding hist_tasks [OF assms(1) o] by (auto split: if_splits)
  with assms(1) show ?thesis by (rule removed_closed)
qed

section \<open>Every step keeps the invariant\<close>

lemma seen_put:
  "seen (put_member p g c' S) p = Some (state c', ep_registered (poller_of c') p)"
  "q \<noteq> p \<Longrightarrow> ep_chans (poller_of c') q = ep_chans (shared S) q \<Longrightarrow> seen (put_member p g c' S) q = seen S q"
proof -
  show "seen (put_member p g c' S) p = Some (state c', ep_registered (poller_of c') p)" by (simp add: seen_def)
  assume q: "q \<noteq> p" "ep_chans (poller_of c') q = ep_chans (shared S) q"
  then have "ep_registered (poller_of c') q = ep_registered (shared S) q" by (simp add: ep_registered_def)
  then show "seen (put_member p g c' S) q = seen S q"
    using q(1) by (cases "members S q") (auto simp: seen_def member_def put_member_def)
qed

lemma seen_member: "member S p = Some (g, c) \<Longrightarrow> seen S p = Some (state c, ep_registered (poller_of c) p)"
  by (simp add: seen_def member_shared)

lemma seen_poll:
  assumes "ep_Polling K timeout (shared S) [] = Inr (s, active)"
  shows "seen (S\<lparr>shared := s\<rparr>) q = seen S q"
proof -
  have m: "map_option (\<lambda>c. c\<lparr>revents := 0\<rparr>) (ep_chans s q) = map_option (\<lambda>c. c\<lparr>revents := 0\<rparr>) (ep_chans (shared S) q)"
    using Polling_frame [OF assms] by blast
  have "map_option index (map_option (\<lambda>c. c\<lparr>revents := 0\<rparr>) (ep_chans s q)) =
      map_option index (map_option (\<lambda>c. c\<lparr>revents := 0\<rparr>) (ep_chans (shared S) q))" unfolding m ..
  then have "map_option index (ep_chans s q) = map_option index (ep_chans (shared S) q)"
    by (simp add: option.map_comp comp_def)
  then have "ep_registered s q = ep_registered (shared S) q"
    by (cases "ep_chans s q"; cases "ep_chans (shared S) q") (simp_all add: ep_registered_def)
  then show ?thesis by (cases "members S q") (auto simp: seen_def member_def)
qed

lemma open_registered:
  "conn_inv (epoll_ops K) (epoll_view K) c \<Longrightarrow> open_state (state c) \<Longrightarrow> ep_registered (poller_of c) (conn_chan c)"
  using open_added by blast

lemma open_life: "open_state st \<Longrightarrow> life s x p (st, True) \<longleftrightarrow>
    EstablishTask p \<in> set (ran s x) \<and> p \<notin> closed_conns s \<and> DestroyTask p \<notin> set (ran s x)"
  by (auto simp: life_def open_state_def)

lemma whole_upd_same: "W\<lparr>srv := srv W, sets := S\<rparr> = W\<lparr>sets := S\<rparr>"
  by simp

text \<open>The server acts, no connection is concerned.\<close>

lemma whole_srv:
  assumes inv: "whole_inv K g0 act l a nm W" and t: "srv_inv l a nm t" and sl: "\<And>q. same_life (srv W) t q"
  shows "whole_inv K g0 act l a nm (W\<lparr>srv := t\<rparr>)"
proof -
  have objs: "conn_objs t q = conn_objs (srv W) q" for q using sl [of q] by (simp add: same_life_def)
  have 1: "map_option obj_loop (conn_objs t q) = Some x \<and> life t x q v" if "seen (sets W x) q = Some v" for x q v
    using that whole_invD(3,4) [OF inv] objs same_life_life [OF sl] by simp
  have 2: "seen (sets W x) q \<noteq> None" if "map_option obj_loop (conn_objs t q) = Some x" "DestroyTask q \<notin> set (ran t x)" for x q
    using that whole_invD(5) [OF inv] objs sl [of q] by (simp add: same_life_def)
  have f: "srv (W\<lparr>srv := t\<rparr>) = t" "sets (W\<lparr>srv := t\<rparr>) = sets W" by simp_all
  show ?thesis unfolding whole_inv_def f using t 1 2 whole_invD(2) [OF inv] by blast
qed

lemma w_start_inv:
  assumes inv: "whole_inv K g0 act l a nm W"
    and s: "srv_Start new_loop has_cb (base_loop (pool (srv W))) (srv W) = Inr t"
  shows "whole_inv K g0 act l a nm (W\<lparr>srv := t\<rparr>)"
proof (rule whole_srv [OF inv srv_start_step [OF whole_invD(1) [OF inv] s]])
  fix q
  let ?b = "base_loop (pool (srv W))"
  consider u where "t = (srv W)\<lparr>srv_started := u\<rparr>"
    | u v where "srv_RunInLoop ?b ?b ListenTask ((srv W)\<lparr>srv_started := u, pool := v\<rparr>) = Inr t"
    using s by (auto simp: srv_Start_def Let_def split: if_splits)
  then have "conn_objs t = conn_objs (srv W) \<and> closed_conns t = closed_conns (srv W) \<and>
      (ran t = ran (srv W) \<or> ran t = (ran (srv W))(?b := ran (srv W) ?b @ [ListenTask]))"
  proof cases
    case 2
    from srv_RunInLoop_eff [OF this] show ?thesis by simp
  qed simp
  then show "same_life (srv W) t q"
    by (intro same_lifeI [of t q "srv W" "base_loop (pool (srv W))" ListenTask]) simp_all
qed

lemma w_poll_inv:
  assumes inv: "whole_inv K g0 act l a nm W" and p: "ep_Polling K timeout (shared (sets W x)) [] = Inr (s, active)"
  shows "whole_inv K g0 act l a nm (W\<lparr>sets := (sets W)(x := (sets W x)\<lparr>shared := s\<rparr>)\<rparr>)"
proof -
  let ?N = "(sets W)(x := (sets W x)\<lparr>shared := s\<rparr>)"
  have r: "conns_reachable K g0 act (?N y)" for y
    using whole_invD(2) [OF inv] conns_reachable.poll [OF whole_invD(2) [OF inv] p] by simp
  have sn: "seen (?N y) q = seen (sets W y) q" for y q using seen_poll [OF p] by simp
  have f: "srv (W\<lparr>sets := ?N\<rparr>) = srv W" "sets (W\<lparr>sets := ?N\<rparr>) = ?N" by simp_all
  show ?thesis unfolding whole_inv_def f sn using whole_invD [OF inv] r by blast
qed

lemma w_foreign_inv:
  assumes inv: "whole_inv K g0 act l a nm W" and q: "members (sets W x) q = None" "ep_chans (shared (sets W x)) q = Some d"
    and s: "ep_others K q (shared (sets W x)) s" "ep_inv K s"
  shows "whole_inv K g0 act l a nm (W\<lparr>sets := (sets W)(x := (sets W x)\<lparr>shared := s\<rparr>)\<rparr>)"
proof -
  let ?N = "(sets W)(x := (sets W x)\<lparr>shared := s\<rparr>)"
  have r: "conns_reachable K g0 act (?N y)" for y
    using whole_invD(2) [OF inv] conns_reachable.foreign [OF whole_invD(2) [OF inv] q s] by simp
  have "seen ((sets W x)\<lparr>shared := s\<rparr>) p = seen (sets W x) p" for p
  proof (cases "members (sets W x) p")
    case (Some gc)
    then have "p \<noteq> q" using q(1) by auto
    then have "ep_chans s p = ep_chans (shared (sets W x)) p" using s(1) by (simp add: ep_others_def)
    then show ?thesis using Some by (cases gc) (simp add: seen_def member_def ep_registered_def)
  qed (simp add: seen_def member_def)
  then have sn: "seen (?N y) p = seen (sets W y) p" for y p by simp
  have f: "srv (W\<lparr>sets := ?N\<rparr>) = srv W" "sets (W\<lparr>sets := ?N\<rparr>) = ?N" by simp_all
  show ?thesis unfolding whole_inv_def f sn using whole_invD [OF inv] r by blast
qed

lemma NewConnection_eff:
  assumes "NewConnection s = Inr t"
  shows "\<exists>ob. conn_objs t = (conn_objs s)(next_conn_ptr s \<mapsto> ob) \<and> closed_conns t = closed_conns s \<and>
    (\<exists>pl. GetNextLoop (pool s) = Inr (obj_loop ob, pl)) \<and>
    (ran t = ran s \<or> ran t = (ran s)(obj_loop ob := ran s (obj_loop ob) @ [EstablishTask (next_conn_ptr s)]))"
  using assms by (auto simp: NewConnection_def Let_def res_bind_eq_Inr dest!: srv_RunInLoop_eff)

text \<open>
  A step of the connections keeps the descriptor of every channel, and leaves the channels of
  others and their entries alone, but for the events a poll reports.
\<close>

definition op_frame :: "('k, 'g) whole \<Rightarrow> ('k, 'g) whole \<Rightarrow> bool" where
  "op_frame W W' \<longleftrightarrow>
     (\<forall>x q. map_option ch_fd (ep_chans (shared (sets W' x)) q) = map_option ch_fd (ep_chans (shared (sets W x)) q)) \<and>
     (\<forall>x q. members (sets W' x) q = None \<longleftrightarrow> members (sets W x) q = None) \<and>
     (\<forall>x q ch. members (sets W x) q = None \<longrightarrow> ep_chans (shared (sets W x)) q = Some ch \<longrightarrow>
        (\<exists>r. ep_chans (shared (sets W' x)) q = Some (ch\<lparr>revents := r\<rparr>)) \<and>
        channel_maps (shared (sets W' x)) (ch_fd ch) = channel_maps (shared (sets W x)) (ch_fd ch))"

lemma revents_self: "\<exists>r. ch = ch\<lparr>revents := r\<rparr>"
  by (rule exI [of _ "revents ch"]) simp

lemma op_frame_same: "sets W' = sets W \<Longrightarrow> op_frame W W'"
  unfolding op_frame_def using revents_self by auto

lemma op_frame_poll:
  assumes "ep_Polling K timeout (shared (sets W x)) [] = Inr (s, active)"
    "sets W' = (sets W)(x := (sets W x)\<lparr>shared := s\<rparr>)"
  shows "op_frame W W'"
proof -
  note fr = Polling_frame [OF assms(1)]
  have fd: "map_option ch_fd (ep_chans s q) = map_option ch_fd (ep_chans (shared (sets W x)) q)" for q
  proof -
    have "map_option ch_fd (map_option (\<lambda>c. c\<lparr>revents := 0\<rparr>) (ep_chans s q)) =
        map_option ch_fd (map_option (\<lambda>c. c\<lparr>revents := 0\<rparr>) (ep_chans (shared (sets W x)) q))" using fr by simp
    then show ?thesis by (simp add: option.map_comp comp_def)
  qed
  have rv: "\<exists>r. ep_chans s q = Some (ch\<lparr>revents := r\<rparr>)" if "ep_chans (shared (sets W x)) q = Some ch" for q ch
    using revents_only [of "ep_chans s q" ch] fr that by simp
  have "\<exists>r. ep_chans (shared (sets W y)) q = Some (ch\<lparr>revents := r\<rparr>)" if "ep_chans (shared (sets W y)) q = Some ch" for y q ch
    using that by (intro exI [of _ "revents ch"]) simp
  then show ?thesis unfolding op_frame_def assms(2) using fd rv fr by simp
qed

text \<open>A new connection adds its own channel and the entries of its own descriptor.\<close>

definition accept_frame :: "('k, 'g) whole \<Rightarrow> cint \<Rightarrow> ('k, 'g) whole \<Rightarrow> bool" where
  "accept_frame W fd W' \<longleftrightarrow> (\<exists>x g c ch pl. GetNextLoop (pool (srv W)) = Inr (x, pl) \<and> member (sets W' x) (next_conn_ptr (srv W)) = Some (g, c) \<and>
     ep_chans (shared (sets W' x)) (next_conn_ptr (srv W)) = Some ch \<and> ch_fd ch = fd \<and>
     (\<forall>y q. y \<noteq> x \<or> q \<noteq> next_conn_ptr (srv W) \<longrightarrow> ep_chans (shared (sets W' y)) q = ep_chans (shared (sets W y)) q \<and>
        (members (sets W' y) q = None \<longleftrightarrow> members (sets W y) q = None)) \<and>
     (\<forall>y f. f \<noteq> fd \<longrightarrow> channel_maps (shared (sets W' y)) f = channel_maps (shared (sets W y)) f))"

lemma accept_frame_put:
  assumes "ep_chans (poller_of d) (next_conn_ptr (srv W)) = Some ch" "ch_fd ch = fd"
    "\<And>q. q \<noteq> next_conn_ptr (srv W) \<Longrightarrow> ep_chans (poller_of d) q = ep_chans (shared (sets W x)) q"
    "\<And>f. f \<noteq> fd \<Longrightarrow> channel_maps (poller_of d) f = channel_maps (shared (sets W x)) f"
    "sets W' = (sets W)(x := put_member (next_conn_ptr (srv W)) g d (sets W x))"
    "GetNextLoop (pool (srv W)) = Inr (x, pl)"
  shows "accept_frame W fd W'"
  unfolding accept_frame_def assms(5)
  by (intro exI [of _ x] exI [of _ g] exI [of _ d] exI [of _ ch] exI [of _ pl] conjI)
    (use assms(1-4,6) in \<open>auto simp: put_member_def member_def\<close>)

section \<open>The contract of a service\<close>

text \<open>
  Each connection of the service keeps \<open>good\<close>; traffic neither opens nor closes it and leaves
  its registration alone; the methods the server calls, and every way of closing, succeed on
  a connection in the right state.
\<close>

locale server_conns = conn_members K "fresh U" act good
  for K :: "'k epoll_kernel" and U :: "('k, 'g) service" and act good +
  assumes traffic_act: "good g c \<Longrightarrow> traffic U g c g' c' \<Longrightarrow> state c \<noteq> kConnecting \<Longrightarrow> act g c g' c'"
    and traffic_state: "good g c \<Longrightarrow> traffic U g c g' c' \<Longrightarrow> state c \<noteq> kConnecting \<Longrightarrow>
      state c' \<noteq> kConnecting \<and> (state c' = kDisconnected \<longleftrightarrow> state c = kDisconnected)"
    and traffic_registered: "good g c \<Longrightarrow> traffic U g c g' c' \<Longrightarrow> state c \<noteq> kConnecting \<Longrightarrow>
      ep_registered (poller_of c') (conn_chan c) \<longleftrightarrow> ep_registered (poller_of c) (conn_chan c)"
    and establish: "good g c \<Longrightarrow> state c = kConnecting \<Longrightarrow>
      \<exists>c'. ConnectionEstablished (epoll_ops K) (calls U) self c = Inr c' \<and> act g c g c' \<and> open_state (state c')"
    and destroy: "good g c \<Longrightarrow> state c = kDisconnected \<Longrightarrow> ep_registered (poller_of c) (conn_chan c) \<Longrightarrow>
      \<exists>c'. ConnectionDestroyed (epoll_ops K) (calls U) c = Inr c' \<and> act g c g c' \<and> state c' = kDisconnected \<and>
        \<not> ep_registered (poller_of c') (conn_chan c)"
    and closes: "good g c \<Longrightarrow> open_state (state c) \<Longrightarrow> closing U g c f \<Longrightarrow>
      \<exists>c'. f c = Inr c' \<and> act g c g c' \<and> state c' = kDisconnected \<and> ep_registered (poller_of c') (conn_chan c)"
begin

lemma member_facts:
  assumes inv: "whole_inv K (fresh U) act l a nm W" and w: "epoll_wait_contract K"
    and m: "member (sets W x) p = Some (g, c)"
  shows "conn_chan c = p" "good g c" "poller_of c = shared (sets W x)"
    "epoll_contract K" "map_option obj_loop (conn_objs (srv W) p) = Some x"
    "life (srv W) x p (state c, ep_registered (poller_of c) p)"
proof -
  have "conns_inv K good (sets W x)" using whole_invD(2) [OF inv] w by (rule conns_reachable_inv)
  then show "conn_chan c = p" "good g c" "poller_of c = shared (sets W x)"
    using m member_shared [OF m] unfolding conns_inv_def by blast+
  then show "epoll_contract K" using good_conn [of g c] ep_invD(1) [of K "poller_of c"] by (simp add: conn_inv_def)
  show "map_option obj_loop (conn_objs (srv W) p) = Some x" "life (srv W) x p (state c, ep_registered (poller_of c) p)"
    using whole_invD(3,4) [OF inv seen_member [OF m]] by simp_all
qed

text \<open>A step of one connection, with what the server does at the same time.\<close>

lemma whole_act:
  assumes inv: "whole_inv K (fresh U) act l a nm W" and w: "epoll_wait_contract K"
    and m: "member (sets W x) p = Some (g, c)" and st: "act g c g' c'" and t: "srv_inv l a nm t"
    and oth: "\<And>q. q \<noteq> p \<Longrightarrow> same_life (srv W) t q" and obj: "conn_objs t p = conn_objs (srv W) p"
    and life: "life t x p (state c', ep_registered (poller_of c') p)"
  shows "whole_inv K (fresh U) act l a nm (W\<lparr>srv := t, sets := (sets W)(x := put_member p g' c' (sets W x))\<rparr>)"
proof (rule whole_inv_upd [OF inv t, where p = p])
  note f = member_facts [OF inv w m]
  show "conns_reachable K (fresh U) act (put_member p g' c' (sets W x))"
    using whole_invD(2) [OF inv] m st by (rule conns_reachable.act)
  have "conn_local K c c'" using f(4) st by (rule act_local)
  then have o: "q \<noteq> p \<Longrightarrow> ep_chans (poller_of c') q = ep_chans (shared (sets W x)) q" for q
    using f(1,3) by (simp add: conn_local_def ep_others_def)
  show "seen (put_member p g' c' (sets W x)) q = seen (sets W x) q" if "q \<noteq> p" for q
    using that o [OF that] by (rule seen_put(2))
  show "same_life (srv W) t q" if "q \<noteq> p" for q using that by (rule oth)
  show "y = x" if "map_option obj_loop (conn_objs (srv W) p) = Some y" for y using that f(5) by simp
  show "map_option obj_loop (conn_objs t p) = Some x" using f(5) obj by simp
  show "life t x p v" if "seen (put_member p g' c' (sets W x)) p = Some v" for v
    using that life by (simp add: seen_put(1))
  show "DestroyTask p \<in> set (ran t x)" if "seen (put_member p g' c' (sets W x)) p = None"
    using that by (simp add: seen_put(1))
qed

lemma act_frame:
  assumes inv: "whole_inv K (fresh U) act l a nm W" and w: "epoll_wait_contract K"
    and m: "member (sets W x) p = Some (g, c)" and st: "act g c g' c'"
    and W': "sets W' = (sets W)(x := put_member p g' c' (sets W x))"
  shows "op_frame W W'"
proof -
  note f = member_facts [OF inv w m]
  let ?s = "shared (sets W x)" and ?t = "poller_of c'"
  have ci: "conns_inv K good (sets W x)" using whole_invD(2) [OF inv] w by (rule conns_reachable_inv)
  obtain ch where ch: "ep_chans ?s p = Some ch" "\<forall>q d. q \<noteq> p \<longrightarrow> ep_chans ?s q = Some d \<longrightarrow> ch_fd d \<noteq> ch_fd ch"
    using conns_invD [OF ci m] by blast
  have loc: "ep_others K p ?s ?t" using act_local [OF f(4) st] f(1,3) by (simp add: conn_local_def)
  have mp: "members (sets W x) p \<noteq> None" using m by (auto simp: member_def)
  have fd: "map_option ch_fd (ep_chans ?t q) = map_option ch_fd (ep_chans ?s q)" for q
    using loc ch(1) by (cases "q = p") (auto simp: ep_others_def)
  have kept: "(\<exists>r. ep_chans ?t q = Some (d\<lparr>revents := r\<rparr>)) \<and> channel_maps ?t (ch_fd d) = channel_maps ?s (ch_fd d)"
    if q: "members (sets W x) q = None" "ep_chans ?s q = Some d" for q d
  proof -
    have ne: "q \<noteq> p" using q(1) mp by auto
    then have "ch_fd d \<noteq> ch_fd ch" using ch(2) q(2) by blast
    then show ?thesis using loc ch(1) q(2) ne by (auto simp: ep_others_def intro!: exI [of _ "revents d"])
  qed
  have "\<exists>r. ep_chans (shared (sets W y)) q = Some (d\<lparr>revents := r\<rparr>)" if "ep_chans (shared (sets W y)) q = Some d" for y q d
    using that by (intro exI [of _ "revents d"]) simp
  then show ?thesis unfolding op_frame_def W' using fd kept mp by (auto simp: put_member_def)
qed

lemma w_traffic_inv:
  assumes inv: "whole_inv K (fresh U) act l a nm W" and w: "epoll_wait_contract K"
    and m: "member (sets W x) p = Some (g, c)" and o: "state c \<noteq> kConnecting" "traffic U g c g' c'"
  shows "whole_inv K (fresh U) act l a nm (W\<lparr>sets := (sets W)(x := put_member p g' c' (sets W x))\<rparr>)"
proof -
  note f = member_facts [OF inv w m]
  note t = traffic_act [OF f(2) o(2,1)] traffic_state [OF f(2) o(2,1)] traffic_registered [OF f(2) o(2,1)]
  have "life (srv W) x p (state c', ep_registered (poller_of c') p)" using f(1,6) t(2,3) o(1) by (simp add: life_def)
  from whole_act [OF inv w m t(1) whole_invD(1) [OF inv] _ _ this]
  show ?thesis by (simp add: whole_upd_same)
qed

lemma w_close_ok:
  assumes inv: "whole_inv K (fresh U) act l a nm W" and w: "epoll_wait_contract K"
    and m: "member (sets W x) p = Some (g, c)" and o: "open_state (state c)" and cl: "closing U g c f"
  shows "\<exists>W'. whole_close f x p W = Inr W' \<and> whole_inv K (fresh U) act l a nm W' \<and> op_frame W W'"
proof -
  note f = member_facts [OF inv w m]
  let ?s = "(srv W)\<lparr>closed_conns := insert p (closed_conns (srv W))\<rparr>"
  obtain c' where c': "f c = Inr c'" "act g c g c'" "state c' = kDisconnected" "ep_registered (poller_of c') p"
    using closes [OF f(2) o cl] f(1) by blast
  obtain ob where ob: "conn_objs (srv W) p = Some ob" "obj_loop ob = x" using f(5) by auto
  have l: "EstablishTask p \<in> set (ran (srv W) x)" "p \<notin> closed_conns (srv W)" "DestroyTask p \<notin> set (ran (srv W) x)"
    using f(6) open_registered [OF good_conn [OF f(2)] o] f(1) open_life [OF o] by auto
  obtain t where t: "RemoveConnection x p ?s = Inr t" "srv_inv l a nm t"
    using srv_close_step [OF whole_invD(1) [OF inv] ob(1) l(2)] ob(2) by blast
  have e: "conn_objs t = conn_objs ?s" "closed_conns t = closed_conns ?s"
    "ran t = ran ?s \<or> ran t = (ran ?s)(base_loop (pool ?s) := ran ?s (base_loop (pool ?s)) @ [RemoveTask p])"
    using srv_RunInLoop_eff [of x "base_loop (pool ?s)" "RemoveTask p" ?s t] t(1) by (simp_all add: RemoveConnection_def)
  have sl: "same_life (srv W) t q" if "q \<noteq> p" for q
    using e that by (intro same_lifeI [of t q "srv W" "base_loop (pool (srv W))" "RemoveTask p"]) simp_all
  have "same_life ?s t p" using e by (intro same_lifeI [of t p ?s "base_loop (pool ?s)" "RemoveTask p"]) simp_all
  then have "EstablishTask p \<in> set (ran t x)" "DestroyTask p \<notin> set (ran t x)" "p \<in> closed_conns t"
    using l by (simp_all add: same_life_def)
  then have "life t x p (state c', ep_registered (poller_of c') p)" using c'(3,4) by (simp add: life_def)
  from whole_act [OF inv w m c'(2) t(2) sl _ this] show ?thesis
    using m c'(1) t(1) e(1) act_frame [OF inv w m c'(2)] by (simp add: whole_close_def)
qed

text \<open>
  The functor at the head of a queue finds its connection in the state it needs, runs without
  a fault and keeps the invariant.
\<close>

lemma established_facts:
  assumes g: "good g c" and ec: "epoll_contract K" and k: "state c = kConnecting"
  shows "\<exists>c'. ConnectionEstablished (epoll_ops K) (calls U) self c = Inr c' \<and> act g c g c' \<and>
    open_state (state c') \<and> ep_registered (poller_of c') (conn_chan c)"
proof -
  obtain c' where c': "ConnectionEstablished (epoll_ops K) (calls U) self c = Inr c'" "act g c g c'" "open_state (state c')"
    using establish [OF g k] by blast
  have "conn_chan c' = conn_chan c" using act_local [OF ec c'(2)] by (simp add: conn_local_def)
  then have "ep_registered (poller_of c') (conn_chan c)"
    using open_registered [OF good_conn [OF act_good [OF g c'(2)]] c'(3)] by simp
  with c' show ?thesis by blast
qed

lemma w_run_ok:
  assumes inv: "whole_inv K (fresh U) act l a nm W" and w: "epoll_wait_contract K"
  shows "\<exists>W'. whole_run K (calls U) x W = Inr W' \<and> whole_inv K (fresh U) act l a nm W' \<and> op_frame W W'"
proof (cases "queues (srv W) x")
  case Nil
  then show ?thesis using inv by (simp add: whole_run_def op_frame_same)
next
  case (Cons f fs)
  let ?s = "(srv W)\<lparr>queues := (queues (srv W))(x := fs)\<rparr>"
  note s = whole_invD(1) [OF inv]
  obtain t where t: "srv_exec x f ?s = Inr t" "srv_inv l a nm t" using srv_exec_inv [OF s Cons] by blast
  have e: "ran t = (ran (srv W))(x := ran (srv W) x @ [f])" "conn_objs t = conn_objs (srv W)"
    "closed_conns t = closed_conns (srv W)" using srv_exec_eff [OF t(1)] by simp_all
  have sl: "same_life (srv W) t q" if "\<not> about q f" for q
    using e that by (intro same_lifeI [of t q "srv W" x f]) simp_all
  have fin: ?thesis if m: "member (sets W x) p = Some (g, c)" and ab: "\<And>q. q \<noteq> p \<Longrightarrow> \<not> about q f"
      and st: "act g c g c'" "life t x p (state c', ep_registered (poller_of c') p)"
      and ef: "task_effect K (calls U) f (sets W x) = Inr (put_member p g c' (sets W x))" for p g c c'
    using whole_act [OF inv w m st(1) t(2) sl [OF ab] _ st(2)] act_frame [OF inv w m st(1)] Cons t(1) e(2) ef
    by (simp add: whole_run_def)
  show ?thesis
  proof (cases f)
    case (EstablishTask p)
    note h = head_establish [OF s Cons [unfolded EstablishTask]]
    obtain g c where m: "member (sets W x) p = Some (g, c)"
      using whole_invD(5) [OF inv h(1,3)] by (auto simp: seen_def)
    note fc = member_facts [OF inv w m]
    have k: "state c = kConnecting" "p \<notin> closed_conns (srv W)" using fc(6) h(2) by (auto simp: life_def)
    obtain c' where c': "ConnectionEstablished (epoll_ops K) (calls U) p c = Inr c'" "act g c g c'" "open_state (state c')"
      "ep_registered (poller_of c') p" using established_facts [OF fc(2,4) k(1)] fc(1) by blast
    show ?thesis
      by (rule fin [OF m _ c'(2)])
        (use EstablishTask m c' h e k open_life [OF c'(3)] in \<open>simp_all add: about_def\<close>)
  next
    case (DestroyTask p)
    note h = head_destroy [OF s Cons [unfolded DestroyTask]]
    obtain g c where m: "member (sets W x) p = Some (g, c)"
      using whole_invD(5) [OF inv h(1,3)] by (auto simp: seen_def)
    note fc = member_facts [OF inv w m]
    have k: "state c = kDisconnected" "ep_registered (poller_of c) (conn_chan c)"
      using fc(1,6) h(2-4) by (auto simp: life_def)
    obtain c' where c': "ConnectionDestroyed (epoll_ops K) (calls U) c = Inr c'" "act g c g c'" "state c' = kDisconnected"
      "\<not> ep_registered (poller_of c') p" using destroy [OF fc(2) k] fc(1) by blast
    show ?thesis
      by (rule fin [OF m _ c'(2)]) (use DestroyTask m c' h e k(1) in \<open>simp_all add: about_def life_def\<close>)
  next
    case ListenTask
    then show ?thesis using whole_srv [OF inv t(2)] sl Cons t(1) by (simp add: whole_run_def op_frame_same)
  next
    case (RemoveTask p)
    then show ?thesis using whole_srv [OF inv t(2)] sl Cons t(1) by (simp add: whole_run_def op_frame_same)
  qed
qed

text \<open>A connection arrives.\<close>

lemma new_member_ok:
  assumes inv: "whole_inv K (fresh U) act l a nm W" and w: "epoll_wait_contract K"
    and fr: "\<forall>x. ep_chans (shared (sets W x)) p = None" "\<forall>x q d. ep_chans (shared (sets W x)) q = Some d \<longrightarrow> ch_fd d \<noteq> fd"
  shows "\<exists>c. TcpConnection_ctor (epoll_ops K) (Some (shared (sets W x))) p fd = Inr c \<and> state c = kConnecting \<and>
    conn_chan c = p \<and> epoll_contract K \<and> good (fresh U) (c\<lparr>write_complete_set := wc\<rparr>) \<and>
    (\<forall>q. q \<noteq> p \<longrightarrow> ep_chans (poller_of c) q = ep_chans (shared (sets W x)) q) \<and>
    (\<exists>ch. ep_chans (poller_of c) p = Some ch \<and> ch_fd ch = fd) \<and> channel_maps (poller_of c) = channel_maps (shared (sets W x))"
proof -
  let ?s = "shared (sets W x)"
  have ep: "ep_inv K ?s" using conns_reachable_inv [OF whole_invD(2) [OF inv] w] by (simp add: conns_inv_def)
  have "ep_fd_free ?s fd"
    using fr(2) ep_invD(2) [OF ep, of fd] by (cases "channel_maps ?s fd") (auto simp: ep_fd_free_def)
  then obtain c where c: "TcpConnection_ctor (epoll_ops K) (Some ?s) p fd = Inr c" "state c = kConnecting"
    using epoll_conn.ctor_ok [of K ?s p fd] ep fr(1) by auto
  have 1: "conn_chan c = p" "\<forall>q. q \<noteq> p \<longrightarrow> ep_chans (poller_of c) q = ep_chans ?s q"
    "\<exists>ch. ep_chans (poller_of c) p = Some ch \<and> ch_fd ch = fd" "channel_maps (poller_of c) = channel_maps ?s"
    using c(1)
    by (auto simp: TcpConnection_ctor_def CheckLoopNotNull_def epoll_ops_def ep_set_chan_def Channel_ctor_def res_bind_eq_Inr)
  have "conns_inv K good (put_member p (fresh U) (c\<lparr>write_complete_set := wc\<rparr>) (sets W x))"
    using conns_inv_connect [OF conns_reachable_inv [OF whole_invD(2) [OF inv] w] _ _ c(1), of wc] fr by simp
  moreover have "member (put_member p (fresh U) (c\<lparr>write_complete_set := wc\<rparr>) (sets W x)) p =
      Some (fresh U, c\<lparr>write_complete_set := wc\<rparr>)" by simp
  ultimately have "good (fresh U) (c\<lparr>write_complete_set := wc\<rparr>)" unfolding conns_inv_def by blast
  with c 1 ep_invD(1) [OF ep] show ?thesis by blast
qed

lemma w_accept_ok:
  assumes inv: "whole_inv K (fresh U) act l a nm W" and w: "epoll_wait_contract K"
    and fr: "\<forall>x. ep_chans (shared (sets W x)) (next_conn_ptr (srv W)) = None"
      "\<forall>x q d. ep_chans (shared (sets W x)) q = Some d \<longrightarrow> ch_fd d \<noteq> fd"
  shows "\<exists>W'. whole_accept K (fresh U) (calls U) wc fd W = Inr W' \<and>
    whole_inv K (fresh U) act l a nm W' \<and> accept_frame W fd W'"
proof -
  let ?p = "next_conn_ptr (srv W)"
  note s = whole_invD(1) [OF inv]
  obtain t where t: "NewConnection (srv W) = Inr t" "srv_inv l a nm t" using srv_accept_step [OF s] by blast
  obtain ob pl where e: "conn_objs t = (conn_objs (srv W))(?p \<mapsto> ob)" "closed_conns t = closed_conns (srv W)"
    "ran t = ran (srv W) \<or> ran t = (ran (srv W))(obj_loop ob := ran (srv W) (obj_loop ob) @ [EstablishTask ?p])"
    and next': "GetNextLoop (pool (srv W)) = Inr (obj_loop ob, pl)"
    using NewConnection_eff [OF t(1)] by blast
  let ?x = "obj_loop ob"
  have new: "conn_objs (srv W) ?p = None" "?p \<notin> closed_conns (srv W)" using s by (auto simp: srv_inv_def srv_core_def srv_close_def)
  have ran0: "EstablishTask ?p \<notin> set (ran (srv W) ?x)" "DestroyTask ?p \<notin> set (ran (srv W) ?x)"
    using hist_task [OF s, of _ ?x ?p] new(1) by (auto simp: hist_def about_def)
  have sl: "same_life (srv W) t q" if "q \<noteq> ?p" for q
    using e that by (intro same_lifeI [of t q "srv W" ?x "EstablishTask ?p"]) (auto simp: about_def)
  obtain c where c: "TcpConnection_ctor (epoll_ops K) (Some (shared (sets W ?x))) ?p fd = Inr c"
    "state c = kConnecting" "conn_chan c = ?p" "epoll_contract K" "good (fresh U) (c\<lparr>write_complete_set := wc\<rparr>)"
    "\<forall>q. q \<noteq> ?p \<longrightarrow> ep_chans (poller_of c) q = ep_chans (shared (sets W ?x)) q"
    "\<exists>ch. ep_chans (poller_of c) ?p = Some ch \<and> ch_fd ch = fd" "channel_maps (poller_of c) = channel_maps (shared (sets W ?x))"
    using new_member_ok [OF inv w fr] by blast
  let ?c = "c\<lparr>write_complete_set := wc\<rparr>" and ?S = "sets W ?x"
  have r1: "conns_reachable K (fresh U) act (put_member ?p (fresh U) ?c ?S)"
    using conns_reachable.connect [OF whole_invD(2) [OF inv] _ _ c(1)] fr by blast
  have fin: "whole_inv K (fresh U) act l a nm (W\<lparr>srv := t, sets := (sets W)(?x := put_member ?p (fresh U) d ?S)\<rparr>) \<and>
      accept_frame W fd (W\<lparr>srv := t, sets := (sets W)(?x := put_member ?p (fresh U) d ?S)\<rparr>)"
    if d: "conns_reachable K (fresh U) act (put_member ?p (fresh U) d ?S)"
      "\<And>q. q \<noteq> ?p \<Longrightarrow> ep_chans (poller_of d) q = ep_chans (shared ?S) q"
      "life t ?x ?p (state d, ep_registered (poller_of d) ?p)"
      "\<exists>ch. ep_chans (poller_of d) ?p = Some ch \<and> ch_fd ch = fd"
      "\<And>f. f \<noteq> fd \<Longrightarrow> channel_maps (poller_of d) f = channel_maps (shared ?S) f" for d
  proof
    show "whole_inv K (fresh U) act l a nm (W\<lparr>srv := t, sets := (sets W)(?x := put_member ?p (fresh U) d ?S)\<rparr>)"
      by (rule whole_inv_upd [OF inv t(2) d(1), where p = ?p])
        (use new(1) e(1) sl d(2,3) in \<open>simp_all add: seen_put\<close>)
    show "accept_frame W fd (W\<lparr>srv := t, sets := (sets W)(?x := put_member ?p (fresh U) d ?S)\<rparr>)"
      using d(4) accept_frame_put [OF _ _ d(2,5) _ next'] by auto
  qed
  show ?thesis
  proof (cases "EstablishTask ?p \<in> set (ran t ?x)")
    case False
    then have "ran t = ran (srv W)" using e(3) by auto
    moreover have "\<not> ep_registered (poller_of c) ?p" using registered_state [OF good_conn [OF c(5)]] c(2,3) by auto
    ultimately have "life t ?x ?p (state ?c, ep_registered (poller_of ?c) ?p)"
      using ran0 new(2) e(2) c(2) by (simp add: life_def)
    from fin [OF r1 _ this] c(6-8) show ?thesis using False t(1) e(1) c(1) by (simp add: whole_accept_def Let_def)
  next
    case True
    obtain c' where c': "ConnectionEstablished (epoll_ops K) (calls U) ?p ?c = Inr c'" "act (fresh U) ?c (fresh U) c'"
      "open_state (state c')" "ep_registered (poller_of c') ?p" using established_facts [OF c(5,4)] c(2,3) by force
    have twice: "put_member ?p (fresh U) c' (put_member ?p (fresh U) ?c ?S) = put_member ?p (fresh U) c' ?S"
      by (simp add: put_member_def)
    have r2: "conns_reachable K (fresh U) act (put_member ?p (fresh U) c' ?S)"
      using conns_reachable.act [OF r1 _ c'(2), of ?p] twice by simp
    from act_local [OF c(4) c'(2)] c(3,6)
    have o: "q \<noteq> ?p \<Longrightarrow> ep_chans (poller_of c') q = ep_chans (shared ?S) q" for q
      by (simp add: conn_local_def ep_others_def)
    have o2: "\<exists>ch. ep_chans (poller_of c') ?p = Some ch \<and> ch_fd ch = fd"
      "f \<noteq> fd \<Longrightarrow> channel_maps (poller_of c') f = channel_maps (shared ?S) f" for f
      using act_local [OF c(4) c'(2)] c(3,7,8) by (auto simp: conn_local_def ep_others_def)
    have "DestroyTask ?p \<notin> set (ran t ?x)" using ran0 e(3) by auto
    then have "life t ?x ?p (state c', ep_registered (poller_of c') ?p)"
      using True c'(4) new(2) e(2) open_life [OF c'(3)] by simp
    from fin [OF r2 o this o2] show ?thesis using True t(1) e(1) c(1) c'(1) twice by (simp add: whole_accept_def Let_def)
  qed
qed

text \<open>A retired object is freed.\<close>

lemma w_free_inv:
  assumes inv: "whole_inv K (fresh U) act l a nm W" and w: "epoll_wait_contract K"
    and m: "member (sets W x) p = Some (g, c)" and d: "DestroyTask p \<in> set (ran (srv W) x)"
  shows "whole_inv K (fresh U) act l a nm (W\<lparr>sets := (sets W)(x := drop_member p (sets W x))\<rparr>)"
proof -
  note f = member_facts [OF inv w m]
  have k: "state c = kDisconnected" "\<not> ep_registered (shared (sets W x)) p"
    using f(3,6) d destroyed_closed [OF whole_invD(1) [OF inv] d] by (simp_all add: life_def)
  have r: "conns_reachable K (fresh U) act (drop_member p (sets W x))"
    using conns_reachable.delete [OF whole_invD(2) [OF inv] m k] .
  have sn: "seen (drop_member p (sets W x)) q = seen (sets W x) q" if "q \<noteq> p" for q
    using that by (cases "members (sets W x) q") (auto simp: seen_def member_def drop_member_def ep_registered_def)
  have "seen (drop_member p (sets W x)) p = None" by (simp add: seen_def)
  then have "whole_inv K (fresh U) act l a nm (W\<lparr>srv := srv W, sets := (sets W)(x := drop_member p (sets W x))\<rparr>)"
    by (intro whole_inv_upd [OF inv whole_invD(1) [OF inv] r, where p = p]) (use sn f(5) d in simp_all)
  then show ?thesis by (simp add: whole_upd_same)
qed

lemma whole_op_inv:
  assumes st: "whole_op K U W W'" and inv: "whole_inv K (fresh U) act l a nm W" and w: "epoll_wait_contract K"
  shows "whole_inv K (fresh U) act l a nm W' \<and> op_frame W W'"
  using st
proof cases
  case (w_run x)
  then show ?thesis using w_run_ok [OF inv w, of x] by auto
next
  case (w_traffic x p g c g' c')
  note f = member_facts [OF inv w w_traffic(2)]
  show ?thesis
    using w_traffic_inv [OF inv w w_traffic(2-4)] act_frame [OF inv w w_traffic(2) traffic_act [OF f(2) w_traffic(4,3)]] w_traffic(1)
    by simp
next
  case (w_close x p g c f)
  then show ?thesis using w_close_ok [OF inv w w_close(1-3)] by auto
next
  case (w_poll timeout x s active)
  then show ?thesis using w_poll_inv [OF inv w_poll(2)] op_frame_poll [OF w_poll(2), of W'] by simp
qed

lemma whole_step_inv:
  assumes st: "whole_step K U W W'" and inv: "whole_inv K (fresh U) act l a nm W" and w: "epoll_wait_contract K"
  shows "whole_inv K (fresh U) act l a nm W'"
  using st
proof cases
  case w_start
  then show ?thesis using w_start_inv [OF inv] by blast
next
  case (w_accept fd wc)
  then show ?thesis using w_accept_ok [OF inv w, of fd wc] by auto
next
  case w_op
  then show ?thesis using whole_op_inv [OF _ inv w] by blast
next
  case w_free
  then show ?thesis using w_free_inv [OF inv w] by blast
next
  case w_foreign
  then show ?thesis using w_foreign_inv [OF inv] by blast
qed

lemma whole_reachable_inv:
  assumes "whole_reachable K U l a nm W" and w: "epoll_wait_contract K"
  shows "whole_inv K (fresh U) act l a nm W"
  using assms(1)
proof (induction rule: whole_reachable.induct)
  case (w_made s e)
  have s: "srv_inv l a nm s" using srv_reachable_inv [OF srv_made [OF w_made(1)]] .
  have c: "conn_objs s = Map.empty" using w_made(1) by (simp add: TcpServer_ctor_def) auto
  have r: "conns_reachable K (fresh U) act \<lparr>shared = e x, members = Map.empty\<rparr>" for x
    using w_made(2) by (simp add: conns_reachable.none)
  show ?case unfolding whole_inv_def using s r by (simp add: c seen_def member_def)
next
  case (w_more W W')
  then show ?case using whole_step_inv [OF _ _ w] by blast
qed

end

section \<open>Running what is queued\<close>

text \<open>Loop \<open>x\<close> runs the first \<open>n\<close> functors of its queue.\<close>

fun whole_runs :: "'k epoll_kernel \<Rightarrow> 'k epoller callbacks \<Rightarrow> ptr \<Rightarrow> nat \<Rightarrow> ('k, 'g) whole \<Rightarrow> ('k, 'g) whole res" where
  "whole_runs K cb x 0 W = Inr W"
| "whole_runs K cb x (Suc n) W = res_bind (whole_run K cb x W) (whole_runs K cb x n)"

lemma srv_exec_queue: "srv_exec x f s = Inr t \<Longrightarrow> \<exists>ex. queues t x = queues s x @ ex"
  by (cases f) (auto simp: srv_exec_def Let_def RemoveconnectionInLoop_def srv_queue_def split: option.splits)

lemma whole_run_queue:
  assumes "whole_run K cb x W = Inr W'" "queues (srv W) x = f # fs"
  shows "ran (srv W') x = ran (srv W) x @ [f]" "\<exists>ex. queues (srv W') x = fs @ ex"
    "conn_objs (srv W') = conn_objs (srv W)" "closed_conns (srv W') = closed_conns (srv W)"
proof -
  obtain t S where t: "srv_exec x f ((srv W)\<lparr>queues := (queues (srv W))(x := fs)\<rparr>) = Inr t"
    "W' = W\<lparr>srv := t, sets := (sets W)(x := S)\<rparr>" using assms by (auto simp: whole_run_def res_bind_eq_Inr)
  show "ran (srv W') x = ran (srv W) x @ [f]" "conn_objs (srv W') = conn_objs (srv W)"
    "closed_conns (srv W') = closed_conns (srv W)" using srv_exec_eff [OF t(1)] t(2) by simp_all
  show "\<exists>ex. queues (srv W') x = fs @ ex" using srv_exec_queue [OF t(1)] t(2) by simp
qed

context server_conns
begin

lemma whole_runs_ok:
  assumes "whole_inv K (fresh U) act l a nm W" and w: "epoll_wait_contract K"
    and "n \<le> length (queues (srv W) x)"
  shows "\<exists>W'. whole_runs K (calls U) x n W = Inr W' \<and> whole_inv K (fresh U) act l a nm W' \<and>
    ran (srv W') x = ran (srv W) x @ take n (queues (srv W) x) \<and>
    conn_objs (srv W') = conn_objs (srv W) \<and> closed_conns (srv W') = closed_conns (srv W)"
  using assms(1,3)
proof (induction n arbitrary: W)
  case 0
  then show ?case by simp
next
  case (Suc n)
  then obtain f fs where q: "queues (srv W) x = f # fs" "n \<le> length fs" by (cases "queues (srv W) x") auto
  obtain V where V: "whole_run K (calls U) x W = Inr V" "whole_inv K (fresh U) act l a nm V" using w_run_ok [OF Suc.prems(1) w] by blast
  note e = whole_run_queue [OF V(1) q(1)]
  obtain ex where ex: "queues (srv V) x = fs @ ex" using e(2) by blast
  obtain W' where "whole_runs K (calls U) x n V = Inr W'" "whole_inv K (fresh U) act l a nm W'"
    "ran (srv W') x = ran (srv V) x @ take n (queues (srv V) x)"
    "conn_objs (srv W') = conn_objs (srv V)" "closed_conns (srv W') = closed_conns (srv V)"
    using Suc.IH [OF V(2)] q(2) ex by auto
  then show ?case using V(1) e q ex by simp
qed

text \<open>What follows for every service.\<close>

lemma states_agree:
  assumes inv: "whole_inv K (fresh U) act l a nm W" and w: "epoll_wait_contract K"
  shows "case member (sets W x) p of
      None \<Rightarrow> map_option obj_loop (conn_objs (srv W) p) = Some x \<longrightarrow> DestroyTask p \<in> set (ran (srv W) x)
    | Some (_, c) \<Rightarrow> map_option obj_loop (conn_objs (srv W) p) = Some x \<and>
        (state c = kConnecting \<longleftrightarrow> EstablishTask p \<notin> set (ran (srv W) x)) \<and>
        (state c = kDisconnected \<longleftrightarrow> p \<in> closed_conns (srv W)) \<and>
        (ep_registered (shared (sets W x)) p \<longleftrightarrow>
           EstablishTask p \<in> set (ran (srv W) x) \<and> DestroyTask p \<notin> set (ran (srv W) x))"
proof (cases "member (sets W x) p")
  case None
  then have "seen (sets W x) p = None" by (simp add: seen_def)
  then show ?thesis using whole_invD(5) [OF inv, of p x] None by simp blast
next
  case (Some m)
  then obtain g c where m: "member (sets W x) p = Some (g, c)" by (cases m) auto
  note f = member_facts [OF inv w m]
  show ?thesis using m f(3,5,6) by (simp add: life_def)
qed

lemma retires:
  assumes inv: "whole_inv K (fresh U) act l a nm W" and w: "epoll_wait_contract K"
    and p: "map_option obj_loop (conn_objs (srv W) p) = Some x" "p \<in> closed_conns (srv W)"
  shows "\<exists>V W'. whole_runs K (calls U) l (length (queues (srv W) l)) W = Inr V \<and>
    whole_runs K (calls U) x (length (queues (srv V) x)) V = Inr W' \<and> DestroyTask p \<in> set (ran (srv W') x) \<and>
    (case member (sets W' x) p of None \<Rightarrow> True
      | Some (_, c) \<Rightarrow> state c = kDisconnected \<and> \<not> ep_registered (shared (sets W' x)) p)"
proof -
  obtain V where V: "whole_runs K (calls U) l (length (queues (srv W) l)) W = Inr V" "whole_inv K (fresh U) act l a nm V"
    "ran (srv V) l = ran (srv W) l @ queues (srv W) l" "conn_objs (srv V) = conn_objs (srv W)"
    "closed_conns (srv V) = closed_conns (srv W)"
    using whole_runs_ok [OF inv w order_refl, of l] by auto
  have "count_list (hist (srv W) l) (RemoveTask p) = 1"
    using whole_invD(1) [OF inv] p(2) by (simp add: srv_inv_def srv_close_def)
  then have "RemoveTask p \<in> set (hist (srv W) l)" using count_list_0_iff [of "hist (srv W) l" "RemoveTask p"] by auto
  then have rm: "RemoveTask p \<in> set (ran (srv V) l)" using V(3) by (simp add: hist_def)
  have ob: "map_option obj_loop (conn_objs (srv V) p) = Some x" using V(4) p(1) by simp
  have "DestroyTask p \<in> set (filter (about p) (ran (srv V) x) @ filter (about p) (queues (srv V) x))"
    unfolding hist_tasks [OF whole_invD(1) [OF V(2)] ob] using rm by simp
  then have ds: "DestroyTask p \<in> set (ran (srv V) x @ queues (srv V) x)" by auto
  obtain W' where W': "whole_runs K (calls U) x (length (queues (srv V) x)) V = Inr W'" "whole_inv K (fresh U) act l a nm W'"
    "ran (srv W') x = ran (srv V) x @ queues (srv V) x"
    using whole_runs_ok [OF V(2) w order_refl, of x] by auto
  have d: "DestroyTask p \<in> set (ran (srv W') x)" using ds W'(3) by simp
  have "case member (sets W' x) p of None \<Rightarrow> True
      | Some (_, c) \<Rightarrow> state c = kDisconnected \<and> \<not> ep_registered (shared (sets W' x)) p"
    using states_agree [OF W'(2) w, where x = x and p = p] d destroyed_closed [OF whole_invD(1) [OF W'(2)] d]
    by (auto split: option.splits)
  then show ?thesis using V(1) W'(1) d by blast
qed

text \<open>For the witnesses: a server without threads that has accepted its first connection, on descriptor 5.\<close>

lemma first_connection:
  assumes w: "epoll_wait_contract K" and e: "ep_inv K e" "ep_chans e = Map.empty"
  shows "\<exists>W c0 c. whole_reachable K U 1 (InetAddr_port 8000) ''srv'' W \<and> srv W = one_conn_server \<and>
    member (sets W 1) 0 = Some (fresh U, c) \<and> open_state (state c) \<and>
    TcpConnection_ctor (epoll_ops K) (Some e) 0 5 = Inr c0 \<and>
    ConnectionEstablished (epoll_ops K) (calls U) 0 (c0\<lparr>write_complete_set := False\<rparr>) = Inr c"
proof -
  let ?s = "projr (TcpServer_ctor (Some 1) (InetAddr_port 8000) ''srv'')"
  let ?W = "\<lparr>srv = ?s, sets = (\<lambda>x. \<lparr>shared = e, members = Map.empty\<rparr>)\<rparr> :: ('k, 'g) whole"
  have r0: "whole_reachable K U 1 (InetAddr_port 8000) ''srv'' ?W"
    by (rule w_made) (use e(1) in \<open>simp_all add: TcpServer_ctor_def\<close>)
  have p: "next_conn_ptr (srv ?W) = 0" by (simp add: TcpServer_ctor_def)
  have fr: "\<forall>x. ep_chans (shared (sets ?W x)) (next_conn_ptr (srv ?W)) = None"
    "\<forall>x q d. ep_chans (shared (sets ?W x)) q = Some d \<longrightarrow> ch_fd d \<noteq> 5" using e(2) by simp_all
  obtain W where W: "whole_accept K (fresh U) (calls U) False 5 ?W = Inr W" "whole_inv K (fresh U) act 1 (InetAddr_port 8000) ''srv'' W"
    using w_accept_ok [OF whole_reachable_inv [OF r0 w] w fr] by blast
  have r: "whole_reachable K U 1 (InetAddr_port 8000) ''srv'' W" using r0 whole_step.w_accept [OF fr W(1)] by (rule w_more)
  obtain ob where ob: "conn_objs one_conn_server 0 = Some ob" "obj_loop ob = 1" using one_conn_eqs(5) by auto
  have n: "NewConnection (srv ?W) = Inr one_conn_server" using one_conn_eqs(1) by simp
  have rn: "ran one_conn_server (Suc 0) = [EstablishTask 0]" using one_conn_eqs(3) by simp
  obtain c0 c where c: "TcpConnection_ctor (epoll_ops K) (Some e) 0 5 = Inr c0"
    "ConnectionEstablished (epoll_ops K) (calls U) 0 (c0\<lparr>write_complete_set := False\<rparr>) = Inr c"
    "srv W = one_conn_server" "member (sets W 1) 0 = Some (fresh U, c)"
    using W(1) unfolding whole_accept_def Let_def n p by (auto simp: ob rn res_bind_eq_Inr)
  have "state c \<noteq> kConnecting" "state c \<noteq> kDisconnected"
    using member_facts(6) [OF W(2) w c(4)] one_conn_eqs c(3) by (simp_all add: life_def)
  then have "open_state (state c)" by (cases "state c") (simp_all add: open_state_def)
  with r c show ?thesis by blast
qed

end

end
