(* ===== verification/Server_Service.thy ===== *)
theory Server_Service
  imports Server_Run
begin

text \<open>
  The server of a program that only sets callbacks: what \<open>server_cb\<close> asks of them, that its
  connections meet the contract of \<open>server_conns\<close>, and what this gives for the whole server.
\<close>

section \<open>An open connection stays open until it closes\<close>

definition keeps_open :: "'s connection \<Rightarrow> 's connection \<Rightarrow> bool" where
  "keeps_open c c' \<longleftrightarrow> (open_state (state c) \<longrightarrow> open_state (state c'))"

text \<open>
  The callbacks of a server: they cannot close a connection (they may shut it down) or take
  its channel out of the poller, and the close callback is the server's own, whose work is
  the step that follows it.
\<close>

definition server_cb :: "'k epoll_kernel \<Rightarrow> 'k epoller callbacks \<Rightarrow> bool" where
  "server_cb K cb \<longleftrightarrow> cb_ok (epoll_ops K) (epoll_view K) cb \<and> cb_local K cb \<and>
     (\<forall>e c c'. cb e c = Inr c' \<longrightarrow> keeps_open c c' \<and>
        (ep_registered (poller_of c') (conn_chan c) \<longleftrightarrow> ep_registered (poller_of c) (conn_chan c))) \<and>
     (\<forall>c. cb CloseCallback c = Inr c)"

lemma keeps_open_same [simp]: "state c' = state c \<Longrightarrow> keeps_open c c'"
  by (simp add: keeps_open_def)

lemma keeps_open_trans [trans]: "keeps_open c d \<Longrightarrow> keeps_open d e \<Longrightarrow> keeps_open c e"
  by (simp add: keeps_open_def)

lemma keeps_open_from [simp]:
  "keeps_open (c\<lparr>sock_out := x\<rparr>) c' = keeps_open c c'" "keeps_open (c\<lparr>tasks := ts\<rparr>) c' = keeps_open c c'"
  "keeps_open (c\<lparr>input_buffer := b\<rparr>) c' = keeps_open c c'" "keeps_open (c\<lparr>output_buffer := b\<rparr>) c' = keeps_open c c'"
  by (simp_all add: keeps_open_def)

lemma server_cbD:
  assumes "server_cb K cb"
  shows "cb_ok (epoll_ops K) (epoll_view K) cb" "cb_local K cb" "cb e c = Inr c' \<Longrightarrow> keeps_open c c'"
    "cb e c = Inr c' \<Longrightarrow> ep_registered (poller_of c') (conn_chan c) = ep_registered (poller_of c) (conn_chan c)"
    "cb CloseCallback c = Inr c"
  using assms unfolding server_cb_def by blast+

lemma conn_set_state: "conn_set P f c = Inr c' \<Longrightarrow> state c' = state c"
  by (auto simp: conn_set_def res_bind_eq_Inr)

lemma send_direct_open:
  assumes "server_cb K cb" "send_direct cb write fd data c = Inr (n, e, c')"
  shows "keeps_open c c'"
  using assms(2) server_cbD(3) [OF assms(1), of WriteCompleteCallback "c\<lparr>sock_out := x\<rparr>" for x]
  by (auto simp: send_direct_def Let_def res_bind_eq_Inr split: sum.splits if_splits)

lemma send_queue_open: "send_queue P data c = Inr c' \<Longrightarrow> keeps_open c c'"
  by (auto simp: send_queue_def res_bind_eq_Inr split: if_splits dest!: conn_set_state)

lemma SendInLoop_open:
  assumes "server_cb K cb" "SendInLoop P cb write data c = Inr c'"
  shows "keeps_open c c'"
proof (cases "state c = kDisconnected")
  case True
  then show ?thesis using assms(2) by (simp add: SendInLoop_def)
next
  case False
  then obtain ch n e c1 where s:
    "(if \<not> IsWriting ch \<and> ReadableBytes (output_buffer c) = 0
      then send_direct cb write (ch_fd ch) data c else Inr (0, False, c)) = Inr (n, e, c1)"
    "(if \<not> e \<and> 0 < length data - n then send_queue P (drop n data) c1 else Inr c1) = Inr c'"
    using assms(2) unfolding SendInLoop_def by (auto simp: res_bind_eq_Inr)
  have "keeps_open c c1" using s(1) send_direct_open [OF assms(1)] by (auto split: if_splits)
  also have "keeps_open c1 c'" using s(2) send_queue_open by (auto split: if_splits)
  finally show ?thesis .
qed

lemma ShutdownInLoop_state: "ShutdownInLoop P c = Inr c' \<Longrightarrow> state c' = state c \<and> poller_of c' = poller_of c"
  by (auto simp: ShutdownInLoop_def ShutdownWrite_def res_bind_eq_Inr split: if_splits)

lemma ShutDown_open: "ShutDown P in_loop c = Inr c' \<Longrightarrow> keeps_open c c'"
  by (auto simp: ShutDown_def Let_def keeps_open_def open_state_def queue_task_def split: if_splits
      dest!: ShutdownInLoop_state)

lemma run_task_open:
  assumes "server_cb K cb" "run_task P cb write t c = Inr c'"
  shows "keeps_open c c'"
  using assms(2) SendInLoop_open [OF assms(1)] server_cbD(3) [OF assms(1)] ShutdownInLoop_state [of P c c']
  by (cases t) (auto simp: run_task_def res_bind_eq_Inr)

lemma HandleWrite_open:
  assumes "conn_HandleWrite P write c = Inr c'"
  shows "keeps_open c c'"
  using assms
proof (cases rule: HandleWrite_cases)
  case (3 x b c2)
  have "state c2 = state c" using conn_set_state [OF 3(1)] by simp
  then show ?thesis using 3(2)
    by (auto simp: Let_def queue_task_def split: if_splits dest!: ShutdownInLoop_state)
qed simp_all

lemma HandleRead_open:
  assumes cb: "server_cb K cb" and inv: "conn_inv (epoll_ops K) (epoll_view K) c"
    and r: "readv_contract readv" "room 131070 (input_buffer c)" "own_channel (epoll_ops K) c = Inr ch"
    "readv (ch_fd ch) (read_iov (input_buffer c)) \<noteq> Inr []" "conn_HandleRead (epoll_ops K) cb readv so c = Inr c'"
  shows "keeps_open c c'"
proof -
  note R = epoll_conn.HandleRead_ok [OF inv r(3,1) r(2) [unfolded room_def], of cb so]
  show ?thesis
  proof (cases "readv (ch_fd ch) (read_iov (input_buffer c))")
    case (Inl e)
    then show ?thesis using R r(5) by (auto simp: conn_HandleError_def)
  next
    case (Inr bs)
    then obtain b where "cb MessageCallback (c\<lparr>input_buffer := b\<rparr>) = Inr c'" using R r(4,5) by auto
    from server_cbD(3) [OF cb this] show ?thesis by simp
  qed
qed

lemma Send_open:
  assumes "server_cb K cb"
  shows "Send_string (epoll_ops K) cb write in_loop p c = Inr c' \<Longrightarrow> keeps_open c c'"
    "Send_chars (epoll_ops K) cb write in_loop p len c = Inr c' \<Longrightarrow> keeps_open c c'"
    "Send_Buffer (epoll_ops K) cb write in_loop tmp b c = Inr (b', c') \<Longrightarrow> keeps_open c c'"
proof -
  note S = SendInLoop_open [OF assms]
  show "Send_string (epoll_ops K) cb write in_loop p c = Inr c' \<Longrightarrow> keeps_open c c'"
    using S by (auto simp: Send_string_def queue_task_def split: if_splits option.splits)
  show "Send_chars (epoll_ops K) cb write in_loop p len c = Inr c' \<Longrightarrow> keeps_open c c'"
    using S by (auto simp: Send_chars_def queue_task_def Let_def res_bind_eq_Inr split: if_splits)
  show "Send_Buffer (epoll_ops K) cb write in_loop tmp b c = Inr (b', c') \<Longrightarrow> keeps_open c c'"
    using S by (auto simp: Send_Buffer_def queue_task_def Let_def res_bind_eq_Inr split: if_splits)
qed

lemma conn_op_open:
  assumes "server_cb K cb" "conn_inv (epoll_ops K) (epoll_view K) c" "conn_op K cb c c'"
  shows "keeps_open c c'"
  using assms(3)
proof cases
  case (run t ts wr)
  then show ?thesis using run_task_open [OF assms(1), of _ wr t "c\<lparr>tasks := ts\<rparr>"] by simp
next
  case event_read
  then show ?thesis using HandleRead_open [OF assms(1,2)] by blast
next
  case event_write
  then show ?thesis using HandleWrite_open by blast
next
  case shut_down
  then show ?thesis using ShutDown_open by blast
qed (use Send_open [OF assms(1)] in \<open>auto simp: conn_HandleError_def\<close>)

lemma closed_idle:
  assumes "conn_inv (epoll_ops K) (epoll_view K) c" "state c = kDisconnected"
  obtains ch where "own_channel (epoll_ops K) c = Inr ch" "\<not> IsWriting ch"
  using assms by (auto simp: conn_inv_def conn_state_ok_def own_channel_def IsWriting_def IsNoneEvent_def)

text \<open>
  A functor that is left over on a closed connection changes neither its state nor its
  registration.
\<close>

lemma late_task:
  assumes "server_cb K cb" "conn_inv (epoll_ops K) (epoll_view K) c" "state c = kDisconnected"
    "run_task (epoll_ops K) cb write t c = Inr c'"
  shows "state c' = kDisconnected \<and>
    (ep_registered (poller_of c') (conn_chan c) \<longleftrightarrow> ep_registered (poller_of c) (conn_chan c))"
proof (cases t)
  case WriteCompleteTask
  then have cb: "cb WriteCompleteCallback c = Inr c'" using assms(4) by (simp add: run_task_def)
  obtain d where "cb WriteCompleteCallback c = Inr d" "rank (state c) \<le> rank (state d)"
    using cb_okD [OF server_cbD(1) [OF assms(1)] assms(2)] .
  then show ?thesis using cb assms(3) server_cbD(4) [OF assms(1) cb] rank_closed by auto
next
  case ShutdownTask
  then show ?thesis using assms(3,4) ShutdownInLoop_state [of "epoll_ops K" c c'] by (simp add: run_task_def)
next
  case (SendTask p n)
  then show ?thesis using assms(3,4) by (auto simp: run_task_def SendInLoop_def res_bind_eq_Inr)
qed

text \<open>The same holds of everything else that can be done with a closed connection, but closing it again.\<close>

lemma closed_op:
  assumes cb: "server_cb K cb" and inv: "conn_inv (epoll_ops K) (epoll_view K) c" and st: "state c = kDisconnected"
    and op: "conn_op K cb c c'"
  shows "state c' = kDisconnected \<and>
    (ep_registered (poller_of c') (conn_chan c) \<longleftrightarrow> ep_registered (poller_of c) (conn_chan c))"
  using op
proof cases
  case (run t ts wr)
  have "conn_inv (epoll_ops K) (epoll_view K) (c\<lparr>tasks := ts\<rparr>)" using inv by simp
  from late_task [OF cb this _ run(5)] st show ?thesis by simp
next
  case (event_read readv ch so)
  note r = epoll_conn.HandleRead_ok [OF inv event_read(4,2) event_read(3) [unfolded room_def], of cb so]
  show ?thesis
  proof (cases "readv (ch_fd ch) (read_iov (input_buffer c))")
    case (Inl e)
    then show ?thesis using r event_read(6) st by (auto simp: conn_HandleError_def)
  next
    case (Inr bs)
    then obtain b where b: "conn_inv (epoll_ops K) (epoll_view K) (c\<lparr>input_buffer := b\<rparr>)"
      "cb MessageCallback (c\<lparr>input_buffer := b\<rparr>) = Inr c'" using r event_read(5,6) by auto
    obtain d where "cb MessageCallback (c\<lparr>input_buffer := b\<rparr>) = Inr d" "rank (state c) \<le> rank (state d)"
      using cb_okD [OF server_cbD(1) [OF cb] b(1)] by auto
    then show ?thesis using b(2) st server_cbD(4) [OF cb b(2)] rank_closed by auto
  qed
next
  case (event_write wr)
  obtain ch where "own_channel (epoll_ops K) c = Inr ch" "\<not> IsWriting ch" using closed_idle [OF inv st] .
  then show ?thesis using event_write(3) st by (simp add: conn_HandleWrite_def)
qed (use st in \<open>auto simp: Send_string_def Send_chars_def Send_Buffer_def ShutDown_def conn_HandleError_def Let_def
       split: if_splits option.splits\<close>)

text \<open>Closing: the connection's part.\<close>

lemma close_state:
  assumes cb: "server_cb K cb" and inv: "conn_inv (epoll_ops K) (epoll_view K) c"
    and r: "ep_registered (poller_of c) (conn_chan c)" and h: "conn_HandleClose (epoll_ops K) cb c = Inr c'"
  shows "state c' = kDisconnected \<and> ep_registered (poller_of c') (conn_chan c)"
proof -
  obtain s where s: "conn_set (epoll_ops K) disable_all (c\<lparr>state := kDisconnected\<rparr>) = Inr (c\<lparr>state := kDisconnected, poller_of := s\<rparr>)"
    "pv_registered (epoll_view K) s (conn_chan c)"
    using epoll_conn.close_channel [OF inv, of thesis] r by auto
  let ?c1 = "c\<lparr>state := kDisconnected, poller_of := s\<rparr>"
  have cb1: "cb ConnectionCallback ?c1 = Inr c'"
    using h s(1) server_cbD(5) [OF cb] by (auto simp: conn_HandleClose_def res_bind_eq_Inr)
  have "state c' = kDisconnected"
    using epoll_conn.HandleClose_ok [OF inv _ server_cbD(1) [OF cb]] r h by auto
  then show ?thesis using server_cbD(4) [OF cb cb1] s(2) by simp
qed

lemma establish_ok:
  assumes cb: "server_cb K cb" and inv: "conn_inv (epoll_ops K) (epoll_view K) c" "state c = kConnecting"
  shows "\<exists>c'. ConnectionEstablished (epoll_ops K) cb self c = Inr c' \<and> open_state (state c') \<and>
    conn_chan c' = conn_chan c \<and> ep_registered (poller_of c') (conn_chan c)"
proof -
  obtain c1 where c1: "conn_inv (epoll_ops K) (epoll_view K) c1" "state c1 = kConnected"
    "ConnectionEstablished (epoll_ops K) cb self c = cb ConnectionCallback c1"
    using epoll_conn.ConnectionEstablished_ok [OF inv] by blast
  obtain c' where c': "cb ConnectionCallback c1 = Inr c'" "conn_inv (epoll_ops K) (epoll_view K) c'"
    using cb_okD [OF server_cbD(1) [OF cb] c1(1)] .
  have op: "open_state (state c')"
    using server_cbD(3) [OF cb c'(1)] c1(2) by (simp add: keeps_open_def open_state_def)
  have e: "ConnectionEstablished (epoll_ops K) cb self c = Inr c'" using c1(3) c'(1) by simp
  have "epoll_contract K" using inv(1) ep_invD(1) by (auto simp: conn_inv_def)
  then have "conn_chan c' = conn_chan c"
    using Established_local [OF _ server_cbD(2) [OF cb] e] by (simp add: conn_local_def)
  then show ?thesis using e op open_registered [OF c'(2) op] by simp
qed

lemma destroy_ok:
  assumes cb: "server_cb K cb" and inv: "conn_inv (epoll_ops K) (epoll_view K) c" "state c = kDisconnected"
    and r: "ep_registered (poller_of c) (conn_chan c)"
  shows "\<exists>c'. ConnectionDestroyed (epoll_ops K) cb c = Inr c' \<and> state c' = kDisconnected \<and>
    \<not> ep_registered (poller_of c') (conn_chan c)"
proof -
  obtain c' where c': "ConnectionDestroyed (epoll_ops K) cb c = Inr c'" "state c' = kDisconnected"
    "\<not> pv_registered (epoll_view K) (poller_of c') (conn_chan c')"
    using epoll_conn.ConnectionDestroyed_ok [OF inv(1) _ _ server_cbD(1) [OF cb]] inv(2) r by auto
  have "epoll_contract K" using inv(1) ep_invD(1) by (auto simp: conn_inv_def)
  then have "conn_chan c' = conn_chan c"
    using Destroyed_local [OF _ server_cbD(2) [OF cb] c'(1)] by (simp add: conn_local_def)
  then show ?thesis using c' by simp
qed

lemma user_hang_up:
  assumes cb: "server_cb K cb" and inv: "conn_inv (epoll_ops K) (epoll_view K) c" and o: "open_state (state c)"
  shows "\<exists>c'. conn_HandleClose (epoll_ops K) cb c = Inr c' \<and> conn_step K cb c c' \<and>
    state c' = kDisconnected \<and> ep_registered (poller_of c') (conn_chan c)"
proof -
  note r = open_registered [OF inv o]
  obtain c' where "conn_HandleClose (epoll_ops K) cb c = Inr c'"
    using epoll_conn.HandleClose_ok [OF inv _ server_cbD(1) [OF cb]] r by auto
  then show ?thesis using close_state [OF cb inv r] conn_step.event_close [OF r] by blast
qed

lemma user_end:
  assumes cb: "server_cb K cb" and inv: "conn_inv (epoll_ops K) (epoll_view K) c" and o: "open_state (state c)"
    and r: "readv_contract readv" "room 131070 (input_buffer c)" "own_channel (epoll_ops K) c = Inr ch"
      "readv (ch_fd ch) (read_iov (input_buffer c)) = Inr []"
  shows "\<exists>c'. conn_HandleRead (epoll_ops K) cb readv so c = Inr c' \<and> conn_step K cb c c' \<and>
    state c' = kDisconnected \<and> ep_registered (poller_of c') (conn_chan c)"
proof -
  obtain b where b: "conn_inv (epoll_ops K) (epoll_view K) (c\<lparr>input_buffer := b\<rparr>)"
    "conn_HandleRead (epoll_ops K) cb readv so c = conn_HandleClose (epoll_ops K) cb (c\<lparr>input_buffer := b\<rparr>)"
    using epoll_conn.HandleRead_ok [OF inv r(3,1) r(2) [unfolded room_def], of cb so] r(4) by auto
  obtain c' where c': "conn_HandleRead (epoll_ops K) cb readv so c = Inr c'" "state c' = kDisconnected"
    "ep_registered (poller_of c') (conn_chan c)" using user_hang_up [OF cb b(1)] o b(2) by auto
  have "conn_step K cb c c'" using open_registered [OF inv o] r c'(1) by (rule conn_step.event_end)
  with c' show ?thesis by blast
qed

section \<open>The service of a program with callbacks\<close>

text \<open>
  A connection is used by the program and its loop in every way a connection can be, also after it
  has closed: functors left over run, and the event that closed it may have more handlers. It
  closes on a hang-up or when a read finds the end of the stream, once: an event that
  closes it twice is the subject of \<open>hang_up_closes_twice\<close>.
\<close>

inductive user_traffic :: "'k epoll_kernel \<Rightarrow> 'k epoller callbacks \<Rightarrow> unit \<Rightarrow> 'k epoller connection \<Rightarrow> unit \<Rightarrow> 'k epoller connection \<Rightarrow> bool"
  for K cb where
  live: "open_state (state c) \<Longrightarrow> conn_op K cb c c' \<Longrightarrow> user_traffic K cb g c g' c'"
| late: "state c = kDisconnected \<Longrightarrow> conn_op K cb c c' \<Longrightarrow> user_traffic K cb g c g' c'"

inductive user_closing ::
  "'k epoll_kernel \<Rightarrow> 'k epoller callbacks \<Rightarrow> unit \<Rightarrow> 'k epoller connection \<Rightarrow>
   ('k epoller connection \<Rightarrow> 'k epoller connection res) \<Rightarrow> bool" for K cb where
  hang_up: "user_closing K cb g c (conn_HandleClose (epoll_ops K) cb)"
| at_end: "readv_contract readv \<Longrightarrow> room 131070 (input_buffer c) \<Longrightarrow> own_channel (epoll_ops K) c = Inr ch \<Longrightarrow>
    readv (ch_fd ch) (read_iov (input_buffer c)) = Inr [] \<Longrightarrow>
    user_closing K cb g c (conn_HandleRead (epoll_ops K) cb readv so)"

definition user_service :: "'k epoll_kernel \<Rightarrow> 'k epoller callbacks \<Rightarrow> ('k, unit) service" where
  "user_service K cb = \<lparr>fresh = (), calls = cb, traffic = user_traffic K cb, closing = user_closing K cb\<rparr>"

lemma user_service_simps [simp]:
  "fresh (user_service K cb) = ()" "calls (user_service K cb) = cb"
  "traffic (user_service K cb) = user_traffic K cb" "closing (user_service K cb) = user_closing K cb"
  by (simp_all add: user_service_def)

lemma user_traffic_ok:
  assumes cb: "server_cb K cb" and inv: "conn_inv (epoll_ops K) (epoll_view K) c" and t: "user_traffic K cb g c g' c'"
  shows "conn_step K cb c c' \<and> state c' \<noteq> kConnecting \<and> (state c' = kDisconnected \<longleftrightarrow> state c = kDisconnected) \<and>
    (ep_registered (poller_of c') (conn_chan c) \<longleftrightarrow> ep_registered (poller_of c) (conn_chan c))"
  using t
proof cases
  case live
  have c': "conn_inv (epoll_ops K) (epoll_view K) c'" using live(2) inv server_cbD(1) [OF cb] by (rule conn_op_inv)
  have op: "open_state (state c')" using conn_op_open [OF cb inv live(2)] live(1) by (simp add: keeps_open_def)
  have ec: "epoll_contract K" using inv ep_invD(1) by (auto simp: conn_inv_def)
  have "conn_chan c' = conn_chan c" using conn_op_local [OF ec server_cbD(2) [OF cb] live(2)] by (simp add: conn_local_def)
  then have "ep_registered (poller_of c') (conn_chan c)" "ep_registered (poller_of c) (conn_chan c)"
    using open_registered [OF c' op] open_registered [OF inv live(1)] by simp_all
  then show ?thesis using live op conn_step.op [OF live(2)] by (auto simp: open_state_def)
next
  case late
  then show ?thesis using closed_op [OF cb inv late] conn_step.op [OF late(2)] by simp
qed

lemma user_conns:
  assumes cb: "server_cb K cb"
  shows "server_conns K (user_service K cb) (\<lambda>_ c _ c'. conn_step K cb c c') (\<lambda>_. conn_inv (epoll_ops K) (epoll_view K))"
proof -
  let ?inv = "conn_inv (epoll_ops K) (epoll_view K)"
  have "conn_members K (fresh (user_service K cb)) (\<lambda>_ c _ c'. conn_step K cb c c') (\<lambda>_. ?inv)"
    using conn_members_user [OF server_cbD(1,2) [OF cb]] by simp
  moreover have "server_conns_axioms K (user_service K cb) (\<lambda>_ c _ c'. conn_step K cb c c') (\<lambda>_. ?inv)"
  proof
    fix g :: unit and c g' c' self f
    assume i: "?inv c"
    show "conn_step K cb c c'" if "traffic (user_service K cb) g c g' c'" "state c \<noteq> kConnecting"
      using user_traffic_ok [OF cb i] that by simp
    show "state c' \<noteq> kConnecting \<and> (state c' = kDisconnected \<longleftrightarrow> state c = kDisconnected)"
      if "traffic (user_service K cb) g c g' c'" "state c \<noteq> kConnecting"
      using user_traffic_ok [OF cb i] that by simp
    show "ep_registered (poller_of c') (conn_chan c) \<longleftrightarrow> ep_registered (poller_of c) (conn_chan c)"
      if "traffic (user_service K cb) g c g' c'" "state c \<noteq> kConnecting"
      using user_traffic_ok [OF cb i] that by simp
    show "\<exists>c'. ConnectionEstablished (epoll_ops K) (calls (user_service K cb)) self c = Inr c' \<and> conn_step K cb c c' \<and> open_state (state c')"
      if "state c = kConnecting" using establish_ok [OF cb i that, of self] conn_step.established [OF that] by auto
    show "\<exists>c'. ConnectionDestroyed (epoll_ops K) (calls (user_service K cb)) c = Inr c' \<and> conn_step K cb c c' \<and>
        state c' = kDisconnected \<and> \<not> ep_registered (poller_of c') (conn_chan c)"
      if d: "state c = kDisconnected" "ep_registered (poller_of c) (conn_chan c)"
      using destroy_ok [OF cb i d] conn_step.destroyed [OF d(2)] d(1) by auto
    show "\<exists>c'. f c = Inr c' \<and> conn_step K cb c c' \<and> state c' = kDisconnected \<and> ep_registered (poller_of c') (conn_chan c)"
      if o: "open_state (state c)" "closing (user_service K cb) g c f"
      using o(2) [unfolded user_service_simps]
    proof cases
      case hang_up
      then show ?thesis using user_hang_up [OF cb i o(1)] by blast
    next
      case at_end
      then show ?thesis using user_end [OF cb i o(1)] by blast
    qed
  qed
  ultimately show ?thesis by (rule server_conns.intro)
qed

section \<open>Properties of the whole server\<close>

text \<open>
  C6. The server's calls into its connections never go wrong, on any number of loops and in every
  order of accepting, running functors, traffic, closing and freeing: whichever functor a loop
  runs next, its connection object still exists and is in the state the method needs, so
  \<open>ConnectionEstablished\<close> and \<open>ConnectionDestroyed\<close> return; an open connection closes without a
  fault, call of the server included; and a connection that arrives is taken in.
\<close>

theorem server_calls_safe:
  assumes "whole_reachable K (user_service K cb) l a nm W" "server_cb K cb" "epoll_wait_contract K"
  shows "(\<exists>W'. whole_run K cb x W = Inr W') \<and>
    (member (sets W x) p = Some ((), c) \<longrightarrow> open_state (state c) \<longrightarrow>
       (\<exists>W'. whole_close (conn_HandleClose (epoll_ops K) cb) x p W = Inr W')) \<and>
    ((\<forall>x. ep_chans (shared (sets W x)) (next_conn_ptr (srv W)) = None) \<longrightarrow>
     (\<forall>x q d. ep_chans (shared (sets W x)) q = Some d \<longrightarrow> ch_fd d \<noteq> fd) \<longrightarrow>
       (\<exists>W'. whole_accept K () cb wc fd W = Inr W'))"
proof (intro conjI impI)
  note U = user_conns [OF assms(2)]
  note inv = server_conns.whole_reachable_inv [OF U assms(1,3)]
  show "\<exists>W'. whole_run K cb x W = Inr W'" using server_conns.w_run_ok [OF U inv assms(3)] by auto
  show "\<exists>W'. whole_close (conn_HandleClose (epoll_ops K) cb) x p W = Inr W'"
    if m: "member (sets W x) p = Some ((), c)" and o: "open_state (state c)"
    using server_conns.w_close_ok [OF U inv assms(3) m o, of "conn_HandleClose (epoll_ops K) cb"] by (auto intro: hang_up)
  show "\<exists>W'. whole_accept K () cb wc fd W = Inr W'"
    if "\<forall>x. ep_chans (shared (sets W x)) (next_conn_ptr (srv W)) = None"
      "\<forall>x q d. ep_chans (shared (sets W x)) q = Some d \<longrightarrow> ch_fd d \<noteq> fd"
    using server_conns.w_accept_ok [OF U inv assms(3) that, of wc] by auto
qed

text \<open>
  C7. The connections refine the server's account of them: a live connection is on the loop the
  server gave it; it is connecting exactly until that loop has run \<open>ConnectionEstablished\<close>,
  disconnected exactly from the moment it told the server that it closed, and its channel is
  in the poller exactly between \<open>ConnectionEstablished\<close> and \<open>ConnectionDestroyed\<close>; and no connection
  is gone before its \<open>ConnectionDestroyed\<close> has run.
\<close>

theorem server_connection_states:
  assumes "whole_reachable K (user_service K cb) l a nm W" "server_cb K cb" "epoll_wait_contract K"
  shows "case member (sets W x) p of
      None \<Rightarrow> map_option obj_loop (conn_objs (srv W) p) = Some x \<longrightarrow> DestroyTask p \<in> set (ran (srv W) x)
    | Some (_, c) \<Rightarrow> map_option obj_loop (conn_objs (srv W) p) = Some x \<and>
        (state c = kConnecting \<longleftrightarrow> EstablishTask p \<notin> set (ran (srv W) x)) \<and>
        (state c = kDisconnected \<longleftrightarrow> p \<in> closed_conns (srv W)) \<and>
        (ep_registered (shared (sets W x)) p \<longleftrightarrow>
           EstablishTask p \<in> set (ran (srv W) x) \<and> DestroyTask p \<notin> set (ran (srv W) x))"
  using server_conns.states_agree [OF user_conns [OF assms(2)]
      server_conns.whole_reachable_inv [OF user_conns [OF assms(2)] assms(1,3)] assms(3)] .

text \<open>
  C8. A connection that has closed is retired: once the base loop has run the functors it has
  queued now, and then the connection's loop those it has queued, all without a fault,
  \<open>ConnectionDestroyed\<close> has run for the connection, and its object, if it is still there, is
  disconnected and its channel out of the poller.
\<close>

theorem closed_connection_retired:
  assumes "whole_reachable K (user_service K cb) l a nm W" "server_cb K cb" "epoll_wait_contract K"
    "map_option obj_loop (conn_objs (srv W) p) = Some x" "p \<in> closed_conns (srv W)"
  shows "\<exists>V W'. whole_runs K cb l (length (queues (srv W) l)) W = Inr V \<and>
    whole_runs K cb x (length (queues (srv V) x)) V = Inr W' \<and> DestroyTask p \<in> set (ran (srv W') x) \<and>
    (case member (sets W' x) p of None \<Rightarrow> True
      | Some (_, c) \<Rightarrow> state c = kDisconnected \<and> \<not> ep_registered (shared (sets W' x)) p)"
  using server_conns.retires [OF user_conns [OF assms(2)]
      server_conns.whole_reachable_inv [OF user_conns [OF assms(2)] assms(1,3)] assms(3-5)] by simp

text \<open>
  For the witnesses: a server without threads on the sample kernel that has accepted one
  connection, on descriptor 5, which is then open; and the same after it has closed.
\<close>

lemma quiet_server_cb: "server_cb K quiet_cb"
  by (simp add: server_cb_def quiet_cb_ok quiet_cb_local) (simp add: quiet_cb_def)

lemma one_connection:
  "\<exists>W c. whole_reachable map_kernel (user_service map_kernel quiet_cb) 1 (InetAddr_port 8000) ''srv'' W \<and> srv W = one_conn_server \<and>
    member (sets W 1) 0 = Some ((), c) \<and> open_state (state c)"
  using server_conns.first_connection [OF user_conns [OF quiet_server_cb] map_kernel_contract(2) init_epoller_inv]
  by (auto simp: epoller_init_def)

lemma closed_connection:
  "\<exists>W. whole_reachable map_kernel (user_service map_kernel quiet_cb) 1 (InetAddr_port 8000) ''srv'' W \<and>
    map_option obj_loop (conn_objs (srv W) 0) = Some 1 \<and> 0 \<in> closed_conns (srv W)"
proof -
  note U = user_conns [OF quiet_server_cb, of map_kernel]
  let ?cl = "conn_HandleClose (epoll_ops map_kernel) quiet_cb"
  obtain W c where W: "whole_reachable map_kernel (user_service map_kernel quiet_cb) 1 (InetAddr_port 8000) ''srv'' W" "srv W = one_conn_server"
    "member (sets W 1) 0 = Some ((), c)" "open_state (state c)" using one_connection by blast
  note inv = server_conns.whole_reachable_inv [OF U W(1) map_kernel_contract(2)]
  have cl: "closing (user_service map_kernel quiet_cb) () c ?cl" by (simp add: hang_up)
  obtain V where V: "whole_close ?cl 1 0 W = Inr V"
    using server_conns.w_close_ok [OF U inv map_kernel_contract(2) W(3,4) cl] by blast
  obtain t where t: "RemoveConnection 1 0 ((srv W)\<lparr>closed_conns := insert 0 (closed_conns (srv W))\<rparr>) = Inr t" "srv V = t"
    using V W(3) by (auto simp: whole_close_def res_bind_eq_Inr)
  have "conn_objs t = conn_objs (srv W)" "closed_conns t = insert 0 (closed_conns (srv W))"
    using srv_RunInLoop_eff [OF t(1) [unfolded RemoveConnection_def]] by simp_all
  then show ?thesis
    using w_more [OF W(1) whole_step.w_op [OF w_close [OF W(3,4) cl V]]] W(2) t(2) one_conn_eqs(5) by (intro exI [of _ V]) simp
qed

theorem server_calls_safe_witness:
  "\<exists>W c. whole_reachable map_kernel (user_service map_kernel quiet_cb) 1 (InetAddr_port 8000) ''srv'' W \<and>
    member (sets W 1) 0 = Some ((), c) \<and> open_state (state c) \<and>
    (\<exists>W'. whole_close (conn_HandleClose (epoll_ops map_kernel) quiet_cb) 1 0 W = Inr W')"
proof -
  obtain W c where W: "whole_reachable map_kernel (user_service map_kernel quiet_cb) 1 (InetAddr_port 8000) ''srv'' W"
    "member (sets W 1) 0 = Some ((), c)" "open_state (state c)" using one_connection by blast
  from server_calls_safe [OF W(1) quiet_server_cb map_kernel_contract(2)] W show ?thesis by blast
qed

theorem server_connection_states_witness:
  "\<exists>W c. whole_reachable map_kernel (user_service map_kernel quiet_cb) 1 (InetAddr_port 8000) ''srv'' W \<and>
    member (sets W 1) 0 = Some ((), c) \<and> EstablishTask 0 \<in> set (ran (srv W) 1) \<and>
    state c \<noteq> kConnecting \<and> state c \<noteq> kDisconnected \<and> ep_registered (shared (sets W 1)) 0"
proof -
  obtain W c where W: "whole_reachable map_kernel (user_service map_kernel quiet_cb) 1 (InetAddr_port 8000) ''srv'' W" "srv W = one_conn_server"
    "member (sets W 1) 0 = Some ((), c)" "open_state (state c)" using one_connection by blast
  have "state c \<noteq> kConnecting" "state c \<noteq> kDisconnected" "ep_registered (shared (sets W 1)) 0"
    using server_connection_states [OF W(1) quiet_server_cb map_kernel_contract(2), where x = 1 and p = 0] W(2,3) one_conn_eqs by simp_all
  with W one_conn_eqs(3) show ?thesis by auto
qed

theorem closed_connection_retired_witness:
  "\<exists>W V W'. whole_reachable map_kernel (user_service map_kernel quiet_cb) 1 (InetAddr_port 8000) ''srv'' W \<and> 0 \<in> closed_conns (srv W) \<and>
    whole_runs map_kernel quiet_cb 1 (length (queues (srv W) 1)) W = Inr V \<and>
    whole_runs map_kernel quiet_cb 1 (length (queues (srv V) 1)) V = Inr W' \<and> DestroyTask 0 \<in> set (ran (srv W') 1)"
proof -
  obtain W where W: "whole_reachable map_kernel (user_service map_kernel quiet_cb) 1 (InetAddr_port 8000) ''srv'' W"
    "map_option obj_loop (conn_objs (srv W) 0) = Some 1" "0 \<in> closed_conns (srv W)" using closed_connection by blast
  from closed_connection_retired [OF W(1) quiet_server_cb map_kernel_contract(2) W(2,3)] W show ?thesis by blast
qed

end
