(* ===== verification/Echo_Clients.thy ===== *)
theory Echo_Clients
  imports Connection_Set Echo_Server
begin

text \<open>
  The echo server with many clients on one I/O loop: the connections of \<^verbatim>\<open>example/echo_server.cc\<close>
  as members of one loop, each with the bytes received from its own client. Every step of an
  echo connection is local to it, so the contract of \<open>conn_members\<close> holds and each client is
  served as if it were alone.
\<close>

lemma OnMessage_local:
  assumes "epoll_contract K" "OnMessage (epoll_ops K) write p c = Inr c'"
  shows "conn_local K c c'"
proof -
  have quiet: "cb_local K other_callbacks" by (simp add: cb_local_def)
  obtain msg b c1 where s: "Send_string (epoll_ops K) other_callbacks write True p
      (c\<lparr>input_buffer := b, strings := (strings c)(p \<mapsto> msg)\<rparr>) = Inr c1" "c' = c1\<lparr>strings := (strings c1)(p := None)\<rparr>"
    using assms(2) by (auto simp: OnMessage_def res_bind_eq_Inr)
  have "conn_local K (c\<lparr>input_buffer := b, strings := (strings c)(p \<mapsto> msg)\<rparr>) c1"
    using s(1) SendInLoop_local [OF assms(1) quiet] by (auto simp: Send_string_def split: if_splits)
  then show ?thesis using s(2) by (simp add: conn_local_def)
qed

lemma echo_callbacks_local:
  assumes "epoll_contract K"
  shows "cb_local K (echo_callbacks (epoll_ops K) write p)"
  unfolding cb_local_def
proof (intro allI impI)
  fix e c c' assume "echo_callbacks (epoll_ops K) write p e c = Inr c'"
  then show "conn_local K c c'" using OnMessage_local [OF assms] by (cases "e = MessageCallback") auto
qed

lemma echo_op_local:
  assumes "epoll_contract K" "echo_op (epoll_ops K) recv c recv' c'"
  shows "conn_local K c c'"
proof -
  note e = echo_callbacks_local [OF assms(1)]
  show ?thesis using assms(2)
  proof cases
    case (echo_complete t ts wr p)
    then show ?thesis using run_task_local [where c = "c\<lparr>tasks := ts\<rparr>", OF assms(1) e] by fastforce
  next
    case echo_read
    then show ?thesis using HandleRead_local [OF assms(1) e] by blast
  next
    case echo_read_error
    then show ?thesis using HandleRead_local [OF assms(1) e] by blast
  next
    case echo_write
    then show ?thesis using HandleWrite_local [OF assms(1)] by blast
  next
    case (echo_error so)
    then show ?thesis by (simp add: conn_HandleError_def)
  qed
qed

lemma echo_step_local:
  assumes "epoll_contract K" "echo_step (epoll_ops K) V recv c recv' c'"
  shows "conn_local K c c'"
proof -
  note e = echo_callbacks_local [OF assms(1)]
  show ?thesis using assms(2)
  proof cases
    case echo_established
    then show ?thesis using Established_local [OF assms(1) e] by blast
  next
    case echo_traffic
    with assms(1) show ?thesis by (rule echo_op_local)
  next
    case echo_read_end
    then show ?thesis using HandleRead_local [OF assms(1) e] by blast
  next
    case echo_close
    then show ?thesis using HandleClose_local [OF assms(1) e] by blast
  next
    case echo_destroyed
    then show ?thesis using Destroyed_local [OF assms(1) e] by blast
  qed
qed

interpretation echo_clients: conn_members K "[]" "echo_step (epoll_ops K) (epoll_view K)"
    "echo_inv (epoll_ops K) (epoll_view K)" for K :: "'k epoll_kernel"
proof unfold_locales
  show "conn_inv (epoll_ops K) (epoll_view K) c" if "echo_inv (epoll_ops K) (epoll_view K) g c" for g c
    using that by (simp add: echo_inv_def)
  show "echo_inv (epoll_ops K) (epoll_view K) g (c\<lparr>poller_of := t\<rparr>)"
    if "echo_inv (epoll_ops K) (epoll_view K) g c" "conn_inv (epoll_ops K) (epoll_view K) (c\<lparr>poller_of := t\<rparr>)" for g c t
    using that by (simp add: echo_inv_def)
  show "echo_inv (epoll_ops K) (epoll_view K) [] c"
    if "conn_inv (epoll_ops K) (epoll_view K) c" "state c = kConnecting" "stream c = []" "readable (input_buffer c) = []" "tasks c = []" for c
    using that by (simp add: echo_inv_def)
  show "echo_inv (epoll_ops K) (epoll_view K) g' c'"
    if "echo_inv (epoll_ops K) (epoll_view K) g c" "echo_step (epoll_ops K) (epoll_view K) g c g' c'" for g c g' c'
    using epoll_conn.echo_step_inv [OF that(2,1)] .
  show "conn_local K c c'" if "epoll_contract K" "echo_step (epoll_ops K) (epoll_view K) g c g' c'" for g c g' c'
    using that by (rule echo_step_local)
qed

text \<open>
  Every client of an echo server gets its own bytes back: on a loop that serves any number
  of clients, in every order of their events, arrivals and departures, what the socket of a
  client has taken followed by what waits for it is exactly what this client has sent, and
  while its connection is open the kernel reports writability for it exactly as long as
  something waits.
\<close>

theorem echo_clients_served:
  assumes "epoll_wait_contract K" "conns_reachable K [] (echo_step (epoll_ops K) (epoll_view K)) S"
    "member S p = Some (recv, c)"
  shows "sock_out c @ readable (output_buffer c) = recv \<and> readable (input_buffer c) = [] \<and>
    (state c = kConnected \<longrightarrow> (\<exists>ch. ep_chans (shared S) p = Some ch \<and> interest K (kern (shared S)) (ch_fd ch) =
       Some (if sock_out c = recv then kReadEvent else kReadEvent OR kWriteEvent, p)))"
proof -
  have "conns_inv K (echo_inv (epoll_ops K) (epoll_view K)) S" using assms(2,1) by (rule echo_clients.conns_reachable_inv)
  then have e: "sock_out c @ readable (output_buffer c) = recv" "readable (input_buffer c) = []"
    using assms(3) by (auto simp: conns_inv_def echo_inv_def stream_def)
  then have "sock_out c = recv \<longleftrightarrow> readable (output_buffer c) = []" by auto
  then show ?thesis using e echo_clients.member_watched [OF assms(2,1,3)] by (auto simp: open_state_def)
qed

text \<open>For the witness: one client that has sent \<open>ping\<close>, another that has sent nothing yet.\<close>

lemma echo_establish:
  "\<forall>c. conn_inv (epoll_ops map_kernel) (epoll_view map_kernel) c \<longrightarrow> state c = kConnecting \<longrightarrow>
      (\<exists>c'. echo_step (epoll_ops map_kernel) (epoll_view map_kernel) [] c [] c' \<and> state c' = kConnected \<and>
         input_buffer c' = input_buffer c \<and> output_buffer c' = output_buffer c)"
proof (intro allI impI)
  let ?P = "epoll_ops map_kernel" and ?V = "epoll_view map_kernel"
  fix c assume c: "conn_inv ?P ?V c" "state c = kConnecting"
  obtain c' where c': "ConnectionEstablished ?P (echo_callbacks ?P one_byte 9) 1 c = Inr c'" "state c' = kConnected"
    "input_buffer c' = input_buffer c" "output_buffer c' = output_buffer c"
    using epoll_conn.ConnectionEstablished_ok [OF c, of "echo_callbacks ?P one_byte 9" 1] by auto
  show "\<exists>c'. echo_step ?P ?V [] c [] c' \<and> state c' = kConnected \<and> input_buffer c' = input_buffer c \<and> output_buffer c' = output_buffer c"
    using echo_established [OF c(2) c'(1)] c'(2-4) by blast
qed

lemma ping_op:
  assumes e: "echo_inv (epoll_ops map_kernel) (epoll_view map_kernel) [] c" and s: "state c = kConnected"
    and b: "write_index (input_buffer c) = kCheapPrepend" "write_index (output_buffer c) = kCheapPrepend"
  shows "\<exists>c'. echo_op (epoll_ops map_kernel) [] c ''ping'' c' \<and> state c' = kConnected"
proof -
  let ?P = "epoll_ops map_kernel" and ?V = "epoll_view map_kernel"
  have r: "room 131070 (input_buffer c)" "room (length ''ping'') (output_buffer c)"
    using b by (simp_all add: room_def vec_max_size_def kCheapPrepend_def)
  have "conn_inv ?P ?V c" using e by (simp add: echo_inv_def)
  then obtain ch where ch: "own_channel ?P c = Inr ch" using conn_invD by blast
  have wf: "\<not> write_fails ?P one_byte ''ping'' c" by (simp add: write_fails_def one_byte_def)
  obtain c' where c': "conn_HandleRead ?P (echo_callbacks ?P one_byte 9) text_arrives (Inr 0) c = Inr c'" "state c' = kConnected"
    using epoll_conn.echo_read_ok [OF e s ch text_arrives_facts(1) one_byte_contract r(1)
        text_arrives_facts(2) _ r(2) wf, of 9 "Inr 0"] by auto
  have "echo_op ?P [] c ([] @ ''ping'') c'"
    by (rule echo_read [OF s ch text_arrives_facts(1) one_byte_contract r(1) text_arrives_facts(2) _ r(2) wf c'(1)]) simp
  with c'(2) show ?thesis by auto
qed

lemma ping_member:
  assumes r: "conns_reachable map_kernel [] (echo_step (epoll_ops map_kernel) (epoll_view map_kernel)) S"
    and a: "accepted T p fd [] S c"
  shows "\<exists>S' c'. conns_reachable map_kernel [] (echo_step (epoll_ops map_kernel) (epoll_view map_kernel)) S' \<and>
    member S' p = Some (''ping'', c') \<and> state c' = kConnected \<and> (\<forall>q. q \<noteq> p \<longrightarrow>
      map_option (\<lambda>(g, c). (g, state c)) (member S' q) = map_option (\<lambda>(g, c). (g, state c)) (member S q))"
proof -
  let ?P = "epoll_ops map_kernel" and ?V = "epoll_view map_kernel"
  have c: "member S p = Some ([], c)" "state c = kConnected"
    "write_index (input_buffer c) = kCheapPrepend" "write_index (output_buffer c) = kCheapPrepend"
    using a by (simp_all add: accepted_def)
  have "conns_inv map_kernel (echo_inv ?P ?V) S"
    using r map_kernel_contract(2) by (rule echo_clients.conns_reachable_inv)
  then have "echo_inv ?P ?V [] c" using c(1) by (simp add: conns_inv_def)
  then obtain c' where c': "echo_step ?P ?V [] c ''ping'' c'" "state c' = kConnected"
    using ping_op [OF _ c(2-4)] echo_traffic by blast
  with r c(1) have s: "conns_reachable map_kernel [] (echo_step ?P ?V) (put_member p ''ping'' c' S)"
    by (blast intro: conns_reachable.act)
  have "map_option (\<lambda>(g, c). (g, state c)) (member (put_member p ''ping'' c' S) q) = map_option (\<lambda>(g, c). (g, state c)) (member S q)"
    if "q \<noteq> p" for q
    using that by (cases "members S q") (auto simp: member_def put_member_def)
  with s show ?thesis using c'(2) by (intro exI [of _ "put_member p ''ping'' c' S"] exI [of _ c']) simp
qed

lemma ping_pair:
  "\<exists>S c d. conns_reachable map_kernel [] (echo_step (epoll_ops map_kernel) (epoll_view map_kernel)) S \<and>
    member S 1 = Some (''ping'', c) \<and> state c = kConnected \<and> member S 0 = Some ([], d)"
proof -
  let ?act = "echo_step (epoll_ops map_kernel) (epoll_view map_kernel)"
  obtain S c where S: "conns_reachable map_kernel [] ?act S" "accepted empty_set 0 5 [] S c"
    using echo_clients.accept_one [OF empty_set_reachable map_kernel_contract(2) _ _ echo_establish, of 0 5] by auto
  obtain T d where T: "conns_reachable map_kernel [] ?act T" "accepted S 1 6 [] T d"
    using echo_clients.accept_one [OF S(1) map_kernel_contract(2) accepted_next [OF S(2)] echo_establish] by blast
  obtain U e where U: "conns_reachable map_kernel [] ?act U" "member U 1 = Some (''ping'', e)" "state e = kConnected"
    "\<forall>q. q \<noteq> 1 \<longrightarrow> map_option (\<lambda>(g, c). (g, state c)) (member U q) = map_option (\<lambda>(g, c). (g, state c)) (member T q)"
    using ping_member [OF T] by blast
  have "map_option (\<lambda>(g, c). (g, state c)) (member U 0) = map_option (\<lambda>(g, c). (g, state c)) (member S 0)"
    using U(4) T(2) by (simp add: accepted_def)
  moreover have "member S 0 = Some ([], c)" using S(2) by (simp add: accepted_def)
  ultimately have "\<exists>x. member U 0 = Some ([], x)" by (cases "member U 0") auto
  then show ?thesis using U(1-3) by blast
qed

theorem echo_clients_served_witness:
  "\<exists>S c d. conns_reachable map_kernel [] (echo_step (epoll_ops map_kernel) (epoll_view map_kernel)) S \<and>
    member S 1 = Some (''ping'', c) \<and> sock_out c @ readable (output_buffer c) = ''ping'' \<and>
    member S 0 = Some ([], d) \<and> sock_out d @ readable (output_buffer d) = []"
proof -
  obtain S c d where S: "conns_reachable map_kernel [] (echo_step (epoll_ops map_kernel) (epoll_view map_kernel)) S"
    "member S 1 = Some (''ping'', c)" "member S 0 = Some ([], d)" using ping_pair by blast
  note E = echo_clients_served [OF map_kernel_contract(2) S(1)]
  have "sock_out c @ readable (output_buffer c) = ''ping''" using E [OF S(2)] by blast
  moreover have "sock_out d @ readable (output_buffer d) = []" using E [OF S(3)] by blast
  ultimately show ?thesis using S by (intro exI [of _ S] exI [of _ c] exI [of _ d] conjI) simp_all
qed

end
