(* ===== verification/Echo_Service.thy ===== *)
theory Echo_Service
  imports Server_Service Echo_Clients
begin

text \<open>
  The echo server as a whole: \<open>EchoServer\<close> of \<^verbatim>\<open>example/echo_server.cc\<close> on a \<open>TcpServer\<close> with any
  number of I/O loops. Its connections meet the contract of \<open>server_conns\<close>, so that every
  client is served on whichever loop the server gave it.
\<close>

section \<open>The echo service\<close>

inductive echo_closing ::
  "'k epoll_kernel \<Rightarrow> bytes \<Rightarrow> 'k epoller connection \<Rightarrow> ('k epoller connection \<Rightarrow> 'k epoller connection res) \<Rightarrow> bool" for K where
  echo_hang_up: "echo_closing K recv c (conn_HandleClose (epoll_ops K) (echo_callbacks (epoll_ops K) write p))"
| echo_at_end: "readv_contract readv \<Longrightarrow> room 131070 (input_buffer c) \<Longrightarrow> own_channel (epoll_ops K) c = Inr ch \<Longrightarrow>
    readv (ch_fd ch) (read_iov (input_buffer c)) = Inr [] \<Longrightarrow>
    echo_closing K recv c (conn_HandleRead (epoll_ops K) (echo_callbacks (epoll_ops K) write p) readv so)"

definition echo_service :: "'k epoll_kernel \<Rightarrow> write_call \<Rightarrow> ptr \<Rightarrow> ('k, bytes) service" where
  "echo_service K write p = \<lparr>fresh = [], calls = echo_callbacks (epoll_ops K) write p,
     traffic = echo_op (epoll_ops K), closing = echo_closing K\<rparr>"

lemma echo_service_simps [simp]:
  "fresh (echo_service K write p) = []" "calls (echo_service K write p) = echo_callbacks (epoll_ops K) write p"
  "traffic (echo_service K write p) = echo_op (epoll_ops K)" "closing (echo_service K write p) = echo_closing K"
  by (simp_all add: echo_service_def)

text \<open>Where the server calls them, the callbacks of the echo server are as good as none.\<close>

lemma echo_as_quiet:
  "conn_HandleClose P (echo_callbacks P write p) c = conn_HandleClose P quiet_cb c"
  "ConnectionEstablished P (echo_callbacks P write p) self c = ConnectionEstablished P quiet_cb self c"
  "ConnectionDestroyed P (echo_callbacks P write p) c = ConnectionDestroyed P quiet_cb c"
proof -
  have c: "echo_callbacks P write p e = quiet_cb e" if "e \<noteq> MessageCallback" for e
    using that by (intro ext) (simp add: quiet_cb_def)
  show "conn_HandleClose P (echo_callbacks P write p) c = conn_HandleClose P quiet_cb c"
    "ConnectionEstablished P (echo_callbacks P write p) self c = ConnectionEstablished P quiet_cb self c"
    "ConnectionDestroyed P (echo_callbacks P write p) c = ConnectionDestroyed P quiet_cb c"
    by (simp_all add: conn_HandleClose_def ConnectionEstablished_def ConnectionDestroyed_def c)
qed

lemma echo_open: "echo_inv P V recv c \<Longrightarrow> open_state (state c) \<longleftrightarrow> state c = kConnected"
  by (auto simp: echo_inv_def open_state_def)

lemma echo_op_registered:
  assumes inv: "echo_inv (epoll_ops K) (epoll_view K) recv c" and t: "echo_op (epoll_ops K) recv c recv' c'"
    and k: "state c \<noteq> kConnecting"
  shows "ep_registered (poller_of c') (conn_chan c) \<longleftrightarrow> ep_registered (poller_of c) (conn_chan c)"
proof (cases "state c = kConnected")
  case True
  have i: "conn_inv (epoll_ops K) (epoll_view K) c" using inv by (simp add: echo_inv_def)
  have i': "conn_inv (epoll_ops K) (epoll_view K) c'" "state c' = kConnected"
    using epoll_conn.echo_op_inv [OF t inv] True by (simp_all add: echo_inv_def)
  have "epoll_contract K" using i ep_invD(1) by (auto simp: conn_inv_def)
  from echo_op_local [OF this t] have "conn_chan c' = conn_chan c" by (simp add: conn_local_def)
  then show ?thesis using open_registered [OF i] open_registered [OF i'(1)] True i'(2) by (simp add: open_state_def)
next
  case False
  from t show ?thesis
  proof cases
    case (echo_complete tk ts wr q)
    have "tk = WriteCompleteTask" using echo_complete(2) inv by (auto simp: echo_inv_def)
    then show ?thesis using echo_complete(3) by (auto simp: run_task_def)
  next
    case (echo_error so)
    then show ?thesis by (simp add: conn_HandleError_def)
  qed (use False in simp_all)
qed

lemma echo_close_state:
  assumes inv: "echo_inv (epoll_ops K) (epoll_view K) recv c" and o: "state c = kConnected"
  shows "\<exists>c'. conn_HandleClose (epoll_ops K) (echo_callbacks (epoll_ops K) write p) c = Inr c' \<and>
    state c' = kDisconnected \<and> ep_registered (poller_of c') (conn_chan c)"
  using user_hang_up [OF quiet_server_cb, of K c] inv o by (auto simp: echo_as_quiet echo_inv_def open_state_def)

lemma echo_closes:
  assumes inv: "echo_inv (epoll_ops K) (epoll_view K) recv c" and o: "state c = kConnected" and f: "echo_closing K recv c f"
  shows "\<exists>c'. f c = Inr c' \<and> echo_step (epoll_ops K) (epoll_view K) recv c recv c' \<and> state c' = kDisconnected \<and>
    ep_registered (poller_of c') (conn_chan c)"
  using f
proof cases
  case (echo_hang_up wr q)
  then show ?thesis using echo_close_state [OF inv o, of wr q] echo_close [OF o] by blast
next
  case (echo_at_end readv ch wr q so)
  let ?cb = "echo_callbacks (epoll_ops K) wr q"
  have i: "conn_inv (epoll_ops K) (epoll_view K) c" "readable (input_buffer c) = []" using inv by (simp_all add: echo_inv_def)
  obtain b where b: "conn_inv (epoll_ops K) (epoll_view K) (c\<lparr>input_buffer := b\<rparr>)" "readable b = []"
    "conn_HandleRead (epoll_ops K) ?cb readv so c = conn_HandleClose (epoll_ops K) ?cb (c\<lparr>input_buffer := b\<rparr>)"
    using epoll_conn.HandleRead_ok [OF i(1) echo_at_end(4,2) echo_at_end(3) [unfolded room_def], of ?cb so] echo_at_end(5) i(2)
    by auto
  have "echo_inv (epoll_ops K) (epoll_view K) recv (c\<lparr>input_buffer := b\<rparr>)" using inv b(1,2) by (simp add: echo_inv_def stream_def)
  from echo_close_state [OF this, of wr q] o obtain c' where
    c': "conn_HandleRead (epoll_ops K) ?cb readv so c = Inr c'" "state c' = kDisconnected" "ep_registered (poller_of c') (conn_chan c)"
    unfolding b(3) by auto
  then show ?thesis using echo_read_end [OF o echo_at_end(4,2,3,5)] echo_at_end(1) by blast
qed

interpretation echo_conns: server_conns K "echo_service K wr p" "echo_step (epoll_ops K) (epoll_view K)"
    "echo_inv (epoll_ops K) (epoll_view K)" for K :: "'k epoll_kernel" and wr :: write_call and p :: ptr
proof -
  let ?P = "epoll_ops K" and ?V = "epoll_view K"
  have "conn_members K (fresh (echo_service K wr p)) (echo_step ?P ?V) (echo_inv ?P ?V)"
    using echo_clients.conn_members_axioms by simp
  moreover have "server_conns_axioms K (echo_service K wr p) (echo_step ?P ?V) (echo_inv ?P ?V)"
  proof
    fix g c g' c' self f
    assume i: "echo_inv ?P ?V g c"
    then have ci: "conn_inv ?P ?V c" by (simp add: echo_inv_def)
    show "echo_step ?P ?V g c g' c'" if "traffic (echo_service K wr p) g c g' c'" "state c \<noteq> kConnecting"
      using that by (simp add: echo_traffic)
    show "state c' \<noteq> kConnecting \<and> (state c' = kDisconnected \<longleftrightarrow> state c = kDisconnected)"
      if "traffic (echo_service K wr p) g c g' c'" "state c \<noteq> kConnecting"
      using epoll_conn.echo_op_inv [OF _ i] that by auto
    show "ep_registered (poller_of c') (conn_chan c) \<longleftrightarrow> ep_registered (poller_of c) (conn_chan c)"
      if "traffic (echo_service K wr p) g c g' c'" "state c \<noteq> kConnecting"
      using echo_op_registered [OF i] that by simp
    show "\<exists>c'. ConnectionEstablished ?P (calls (echo_service K wr p)) self c = Inr c' \<and> echo_step ?P ?V g c g c' \<and> open_state (state c')"
      if k: "state c = kConnecting"
    proof -
      obtain c' where "ConnectionEstablished ?P (echo_callbacks ?P wr p) self c = Inr c'" "open_state (state c')"
        using establish_ok [OF quiet_server_cb ci k, of self] by (auto simp: echo_as_quiet)
      then show ?thesis using echo_established [OF k] by auto
    qed
    show "\<exists>c'. ConnectionDestroyed ?P (calls (echo_service K wr p)) c = Inr c' \<and> echo_step ?P ?V g c g c' \<and>
        state c' = kDisconnected \<and> \<not> ep_registered (poller_of c') (conn_chan c)"
      if d: "state c = kDisconnected" "ep_registered (poller_of c) (conn_chan c)"
    proof -
      obtain c' where c': "ConnectionDestroyed ?P (echo_callbacks ?P wr p) c = Inr c'" "state c' = kDisconnected"
        "\<not> ep_registered (poller_of c') (conn_chan c)"
        using destroy_ok [OF quiet_server_cb ci d] by (auto simp: echo_as_quiet)
      then show ?thesis using echo_destroyed [OF _ _ c'(1)] d by auto
    qed
    show "\<exists>c'. f c = Inr c' \<and> echo_step ?P ?V g c g c' \<and> state c' = kDisconnected \<and> ep_registered (poller_of c') (conn_chan c)"
      if "open_state (state c)" "closing (echo_service K wr p) g c f"
      using echo_closes [OF i] that echo_open [OF i] by simp
  qed
  ultimately show "server_conns K (echo_service K wr p) (echo_step ?P ?V) (echo_inv ?P ?V)" by (rule server_conns.intro)
qed

section \<open>Every client is served\<close>

text \<open>
  C5. The echo server as a whole, with any number of I/O loops and clients, in every order of
  arrivals, functors, reads, writes, polls, closings and deletions: what the socket of a
  client has taken followed by what waits for it is exactly what this client has sent; nothing
  it sent is left unread; from the moment its loop has run \<open>ConnectionEstablished\<close> until it closes the
  kernel watches its descriptor for input, and for writability exactly while something waits;
  and the next functor of every loop runs without a fault.
\<close>

theorem echo_server_serves:
  assumes "epoll_wait_contract K" "whole_reachable K (echo_service K write q) l a nm W"
    "member (sets W x) p = Some (recv, c)"
  shows "sock_out c @ readable (output_buffer c) = recv \<and> readable (input_buffer c) = [] \<and>
    (EstablishTask p \<in> set (ran (srv W) x) \<and> p \<notin> closed_conns (srv W) \<longrightarrow>
       (\<exists>ch. ep_chans (shared (sets W x)) p = Some ch \<and> interest K (kern (shared (sets W x))) (ch_fd ch) =
          Some (if sock_out c = recv then kReadEvent else kReadEvent OR kWriteEvent, p))) \<and>
    (\<exists>W'. whole_run K (echo_callbacks (epoll_ops K) write q) y W = Inr W')"
proof -
  note inv = echo_conns.whole_reachable_inv [OF assms(2,1)]
  note f = echo_conns.member_facts [OF inv assms(1,3)]
  have r: "conns_reachable K [] (echo_step (epoll_ops K) (epoll_view K)) (sets W x)" using whole_invD(2) [OF inv] by simp
  have e: "sock_out c @ readable (output_buffer c) = recv" "readable (input_buffer c) = []"
    using f(2) by (auto simp: echo_inv_def stream_def)
  then have w: "sock_out c = recv \<longleftrightarrow> readable (output_buffer c) = []" by auto
  have "state c = kConnected" if "EstablishTask p \<in> set (ran (srv W) x)" "p \<notin> closed_conns (srv W)"
    using f(2,6) that by (cases "state c") (auto simp: life_def echo_inv_def)
  then show ?thesis
    using e w echo_clients.member_watched [OF r assms(1,3)] echo_conns.w_run_ok [OF inv assms(1), of y]
    by (auto simp: open_state_def)
qed

text \<open>For the witness: the first client of a server without threads has sent \<open>ping\<close>.\<close>

lemma ping_server:
  "\<exists>W c. whole_reachable map_kernel (echo_service map_kernel one_byte 9) 1 (InetAddr_port 8000) ''srv'' W \<and>
    member (sets W 1) 0 = Some (''ping'', c)"
proof -
  let ?P = "epoll_ops map_kernel" and ?V = "epoll_view map_kernel" and ?U = "echo_service map_kernel one_byte 9"
  let ?e = "epoller_init Map.empty Map.empty :: (cint \<rightharpoonup> cint \<times> ptr) epoller"
  have ch: "ep_chans ?e = Map.empty" by (simp add: epoller_init_def)
  obtain W c0 c where W: "whole_reachable map_kernel ?U 1 (InetAddr_port 8000) ''srv'' W" "member (sets W 1) 0 = Some ([], c)"
    "open_state (state c)" "TcpConnection_ctor ?P (Some ?e) 0 5 = Inr c0"
    "ConnectionEstablished ?P (echo_callbacks ?P one_byte 9) 0 (c0\<lparr>write_complete_set := False\<rparr>) = Inr c"
    using echo_conns.first_connection [OF map_kernel_contract(2) init_epoller_inv ch, of one_byte 9] by auto
  note f = echo_conns.member_facts [OF echo_conns.whole_reachable_inv [OF W(1) map_kernel_contract(2)] map_kernel_contract(2) W(2)]
  have st: "state c = kConnected" using echo_open [OF f(2)] W(3) by simp
  obtain b where b: "Buffer_ctor kInitialSize = Inr b" "input_buffer c0 = b" "output_buffer c0 = b"
    using W(4) by (auto simp: TcpConnection_ctor_def CheckLoopNotNull_def res_bind_eq_Inr)
  have "write_index b = kCheapPrepend"
    using Buffer_ctor_ok [of kInitialSize] b(1) by (auto simp: kInitialSize_def vec_max_size_def)
  moreover have "input_buffer c = b" "output_buffer c = b"
    using W(5) b(2,3) by (auto simp: ConnectionEstablished_def conn_set_def Let_def res_bind_eq_Inr)
  ultimately obtain c' where "echo_op ?P [] c ''ping'' c'" using ping_op [OF f(2) st] by auto
  then have "traffic ?U [] c ''ping'' c'" by simp
  then have s: "whole_step map_kernel ?U W (W\<lparr>sets := (sets W)(1 := put_member 0 ''ping'' c' (sets W 1))\<rparr>)"
    using st by (intro whole_step.w_op w_traffic [OF W(2)]) simp_all
  show ?thesis
    by (intro exI [of _ "W\<lparr>sets := (sets W)(1 := put_member 0 ''ping'' c' (sets W 1))\<rparr>"] exI [of _ c'] conjI)
      (use w_more [OF W(1) s] in simp_all)
qed

theorem echo_server_serves_witness:
  "\<exists>W c. whole_reachable map_kernel (echo_service map_kernel one_byte 9) 1 (InetAddr_port 8000) ''srv'' W \<and>
    member (sets W 1) 0 = Some (''ping'', c) \<and> sock_out c @ readable (output_buffer c) = ''ping''"
proof -
  obtain W c where W: "whole_reachable map_kernel (echo_service map_kernel one_byte 9) 1 (InetAddr_port 8000) ''srv'' W"
    "member (sets W 1) 0 = Some (''ping'', c)" using ping_server by blast
  from echo_server_serves [OF map_kernel_contract(2) W] W show ?thesis by blast
qed

end
