(* ===== verification/Server_Front.thy ===== *)
theory Server_Front
  imports Server_Service
begin

text \<open>
  The server with its acceptor (\<^verbatim>\<open>src/acceptor.cc\<close>, \<^verbatim>\<open>src/tcp_server.cc\<close>): the constructor of
  \<open>TcpServer\<close> makes the listening socket and its channel on the base loop, \<open>Start\<close> makes it listen, and
  \<open>Acceptor::HandleRead\<close> hands each accepted descriptor to \<open>NewConnection\<close>. The kernel's table of
  open descriptors is part of the state: \<open>accept4\<close> returns a number that is not open, and the
  destructor of \<open>Socket\<close> closes it.
\<close>

section \<open>The state and the operations\<close>

datatype srv_option = kNoReusePort | kReusePort

record ('k, 'g) front =
  inner :: "('k, 'g) whole"
  acc :: "'k epoller acceptor"
  opened :: "cint set"

definition front_base :: "('k, 'g) front \<Rightarrow> ptr" where
  "front_base F = base_loop (pool (srv (inner F)))"

text \<open>The acceptor's channel is in the poller of the base loop.\<close>

definition at_base :: "('k, 'g) front \<Rightarrow> 'k epoller acceptor" where
  "at_base F = (acc F)\<lparr>acc_poller := shared (sets (inner F) (front_base F))\<rparr>"

text \<open>
  The constructor, for the loops' pollers \<open>e\<close>, with the descriptors \<open>os\<close> open before; \<open>created\<close> and
  \<open>bind_ok\<close> are the outcomes of \<open>socket\<close> and \<open>bind\<close>, \<open>q\<close> is where the acceptor's channel lies.
\<close>

definition TcpServer_new ::
  "'k epoll_kernel \<Rightarrow> errno + cint \<Rightarrow> bool \<Rightarrow> ptr \<Rightarrow> cint set \<Rightarrow> (ptr \<Rightarrow> 'k epoller) \<Rightarrow> sockets \<Rightarrow>
   ptr option \<Rightarrow> sockaddr_in \<Rightarrow> string \<Rightarrow> srv_option \<Rightarrow> ('k, 'g) front res" where
  "TcpServer_new K created bind_ok q os e w loop listen_addr name_arg option =
     res_bind (TcpServer_ctor loop listen_addr name_arg) (\<lambda>s.
       let l = base_loop (pool s) in
       res_bind (Acceptor_ctor (epoll_ops K) created bind_ok q (option = kReusePort) (e l) w) (\<lambda>a.
         Inr \<lparr>inner = \<lparr>srv = s, sets = (\<lambda>x. \<lparr>shared = (e(l := acc_poller a)) x, members = Map.empty\<rparr>)\<rparr>,
              acc = a, opened = insert (accept_fd a) os\<rparr>))"

text \<open>\<open>Start\<close>, called in the base loop's thread: \<open>RunInLoop\<close> runs \<open>Acceptor::Listen\<close> at once.\<close>

definition front_Start ::
  "'k epoll_kernel \<Rightarrow> (nat \<Rightarrow> ptr) \<Rightarrow> bool \<Rightarrow> bool \<Rightarrow> ('k, 'g) front \<Rightarrow> ('k, 'g) front res" where
  "front_Start K new_loop has_cb listen_ok F =
     (let l = front_base F; W = inner F in
      res_bind (srv_Start new_loop has_cb l (srv W)) (\<lambda>t.
        if srv_started (srv W) = 0
        then res_bind (acc_Listen (epoll_ops K) listen_ok (at_base F)) (\<lambda>a.
          Inr (F\<lparr>inner := W\<lparr>srv := t, sets := (sets W)(l := (sets W l)\<lparr>shared := acc_poller a\<rparr>)\<rparr>, acc := a\<rparr>))
        else Inr (F\<lparr>inner := W\<lparr>srv := t\<rparr>\<rparr>)))"

text \<open>
  The listening socket is readable (\<open>got\<close> is what \<open>accept4\<close> returns): \<open>Acceptor::HandleRead\<close>, and through its callback
  \<open>NewConnection\<close>, whose \<open>TcpConnection\<close> sets \<open>SO_KEEPALIVE\<close> on the new socket.
\<close>

definition front_accept ::
  "'k epoll_kernel \<Rightarrow> 'g \<Rightarrow> 'k epoller callbacks \<Rightarrow> bool \<Rightarrow> errno + cint \<times> sockaddr_in \<Rightarrow> bool \<Rightarrow>
   ('k, 'g) front \<Rightarrow> ('k, 'g) front res" where
  "front_accept K g0 cb wc got ok F =
     res_bind (acc_HandleRead got ok True (at_base F)) (\<lambda>(r, a).
       case r of
         None \<Rightarrow> Inr (F\<lparr>acc := a\<rparr>)
       | Some (connfd, peer) \<Rightarrow> res_bind (whole_accept K g0 cb wc connfd (inner F)) (\<lambda>W.
           Inr (F\<lparr>inner := W, acc := a\<lparr>acc_sockets := SetKeepAlive connfd True (acc_sockets a)\<rparr>,
                  opened := insert connfd (opened F)\<rparr>)))"

text \<open>The destructor of a connection frees its channel, and its \<open>Socket\<close> closes the descriptor.\<close>

definition front_free :: "ptr \<Rightarrow> ptr \<Rightarrow> ('k, 'g) front \<Rightarrow> ('k, 'g) front res" where
  "front_free x p F =
     (let W = inner F in
      case ep_chans (shared (sets W x)) p of
        None \<Rightarrow> Inl UseAfterFree
      | Some ch \<Rightarrow> Inr (F\<lparr>inner := W\<lparr>sets := (sets W)(x := drop_member p (sets W x))\<rparr>,
          acc := (acc F)\<lparr>acc_sockets := Socket_dtor (ch_fd ch) (acc_sockets (acc F))\<rparr>, opened := opened F - {ch_fd ch}\<rparr>))"

section \<open>Runs\<close>

text \<open>
  The loops' pollers hold their own channels at first, no two of them with the same descriptor.
  New objects lie where no other is.
\<close>

definition fd_at :: "('k, 'g) whole \<Rightarrow> ptr \<Rightarrow> ptr \<Rightarrow> cint option" where
  "fd_at W x q = map_option ch_fd (ep_chans (shared (sets W x)) q)"

inductive front_step :: "'k epoll_kernel \<Rightarrow> ('k, 'g) service \<Rightarrow> ('k, 'g) front \<Rightarrow> ('k, 'g) front \<Rightarrow> bool" for K U where
  f_start: "front_Start K new_loop has_cb listen_ok F = Inr F' \<Longrightarrow> front_step K U F F'"
| f_accept: "listenning (acc F) \<Longrightarrow> fd \<notin> opened F \<Longrightarrow>
    (\<forall>x. ep_chans (shared (sets (inner F) x)) (next_conn_ptr (srv (inner F))) = None) \<Longrightarrow>
    front_accept K (fresh U) (calls U) wc (Inr (fd, peer)) ok F = Inr F' \<Longrightarrow> front_step K U F F'"
| f_op: "whole_op K U (inner F) W \<Longrightarrow> front_step K U F (F\<lparr>inner := W\<rparr>)"
| f_free: "member (sets (inner F) x) p = Some (g, c) \<Longrightarrow> DestroyTask p \<in> set (ran (srv (inner F)) x) \<Longrightarrow>
    front_free x p F = Inr F' \<Longrightarrow> front_step K U F F'"

inductive front_reachable ::
  "'k epoll_kernel \<Rightarrow> ('k, 'g) service \<Rightarrow> ptr \<Rightarrow> sockaddr_in \<Rightarrow> string \<Rightarrow> ('k, 'g) front \<Rightarrow> bool" for K U l a nm where
  f_made: "(\<forall>x. ep_inv K (e x)) \<Longrightarrow> ep_chans (e l) q = None \<Longrightarrow>
    (\<forall>x p c y r d. ep_chans (e x) p = Some c \<longrightarrow> ep_chans (e y) r = Some d \<longrightarrow> ch_fd c = ch_fd d \<longrightarrow> x = y \<and> p = r) \<Longrightarrow>
    os = {fd. \<exists>x p c. ep_chans (e x) p = Some c \<and> ch_fd c = fd} \<Longrightarrow> fd \<notin> os \<Longrightarrow>
    TcpServer_new K (Inr fd) bind_ok q os e w (Some l) a nm option = Inr F \<Longrightarrow> front_reachable K U l a nm F"
| f_more: "front_reachable K U l a nm F \<Longrightarrow> front_step K U F F' \<Longrightarrow> front_reachable K U l a nm F'"

section \<open>Invariant\<close>

definition acceptor_ok :: "'k epoller \<Rightarrow> cint \<Rightarrow> ptr \<Rightarrow> bool" where
  "acceptor_ok s fd q \<longleftrightarrow> (\<exists>ch. ep_chans s q = Some ch \<and> ch_fd ch = fd \<and> events_ok ch \<and>
     (ep_registered s q \<or> index ch = - 1 \<and> ep_fd_free s fd))"

definition front_inv ::
  "'k epoll_kernel \<Rightarrow> ('k, 'g) service \<Rightarrow> ptr \<Rightarrow> sockaddr_in \<Rightarrow> string \<Rightarrow> ('k, 'g) front \<Rightarrow> bool" where
  "front_inv K U l a nm F \<longleftrightarrow> whole_reachable K U l a nm (inner F) \<and>
     opened F = {fd. \<exists>x q. fd_at (inner F) x q = Some fd} \<and>
     (\<forall>x p y r fd. fd_at (inner F) x p = Some fd \<longrightarrow> fd_at (inner F) y r = Some fd \<longrightarrow> x = y \<and> p = r) \<and>
     members (sets (inner F) l) (accept_chan (acc F)) = None \<and>
     acceptor_ok (shared (sets (inner F) l)) (accept_fd (acc F)) (accept_chan (acc F))"

lemma front_invD:
  assumes "front_inv K U l a nm F"
  shows "whole_reachable K U l a nm (inner F)" "opened F = {fd. \<exists>x q. fd_at (inner F) x q = Some fd}"
    "fd_at (inner F) x p = Some fd \<Longrightarrow> fd_at (inner F) y r = Some fd \<Longrightarrow> x = y \<and> p = r"
    "members (sets (inner F) l) (accept_chan (acc F)) = None"
    "acceptor_ok (shared (sets (inner F) l)) (accept_fd (acc F)) (accept_chan (acc F))"
  using assms unfolding front_inv_def by (elim conjE, blast)+

text \<open>The setters of the acceptor's channel.\<close>

lemma acceptor_set:
  assumes inv: "ep_inv K s" and ok: "acceptor_ok s fd q" and t: "channel_set (epoll_ops K) enable_read q s = Inr t"
  shows "ep_inv K t \<and> ep_others K q s t \<and> acceptor_ok t fd q \<and>
    map_option ch_fd (ep_chans t p) = map_option ch_fd (ep_chans s p)"
proof -
  obtain ch where ch: "ep_chans s q = Some ch" "ch_fd ch = fd" "events_ok ch"
    "ep_registered s q \<or> index ch = - 1 \<and> ep_fd_free s (ch_fd ch)" using ok by (auto simp: acceptor_ok_def)
  have u: "ep_UpdateChannel K q (ep_set_chan q (enable_read ch) s) = Inr t"
    using t ch(1) by (simp add: channel_set_def epoll_ops_def)
  have e: "\<exists>v. enable_read ch = ch\<lparr>events := v\<rparr>" by (simp add: channel_setters) blast
  then obtain v where v: "enable_read ch = ch\<lparr>events := v\<rparr>" by blast
  have ev: "events_ok (enable_read ch)" using events_ok_setters [OF ch(3)] by simp
  obtain c where c: "ep_inv K t" "ep_registered t q" "ep_chans t q = Some c" "events c = events (enable_read ch)" "ch_fd c = fd"
    using epoll.set_events_then_update [OF inv ch(1,4) v ev] u ch(2) by auto
  have "ep_others K q s (ep_set_chan q (enable_read ch) s)" using ch(1) v by (intro ep_others_set) simp
  also have "ep_others K q (ep_set_chan q (enable_read ch) s) t" using ep_invD(1) [OF inv] u by (rule ep_others_UpdateChannel)
  finally have o: "ep_others K q s t" .
  moreover have "acceptor_ok t fd q" using c ev by (simp add: acceptor_ok_def events_ok_def)
  moreover have "map_option ch_fd (ep_chans t p) = map_option ch_fd (ep_chans s p)"
    using o c(3,5) ch(1,2) by (cases "p = q") (auto simp: ep_others_def)
  ultimately show ?thesis using c(1) by blast
qed

lemma acceptor_kept:
  assumes "acceptor_ok s fd q" "\<And>ch. ep_chans s q = Some ch \<Longrightarrow> \<exists>r. ep_chans t q = Some (ch\<lparr>revents := r\<rparr>)"
    "channel_maps t fd = channel_maps s fd"
  shows "acceptor_ok t fd q"
proof -
  obtain ch where ch: "ep_chans s q = Some ch" "ch_fd ch = fd" "events_ok ch"
    "ep_registered s q \<or> index ch = - 1 \<and> ep_fd_free s fd" using assms(1) by (auto simp: acceptor_ok_def)
  obtain r where r: "ep_chans t q = Some (ch\<lparr>revents := r\<rparr>)" using assms(2) [OF ch(1)] by blast
  have "ep_registered t q \<longleftrightarrow> ep_registered s q" using ch(1) r by (simp add: ep_registered_def)
  then show ?thesis using ch r assms(3) by (simp add: acceptor_ok_def events_ok_def ep_fd_free_def)
qed

lemma fd_at_Some: "fd_at W x q = Some fd \<longleftrightarrow> (\<exists>ch. ep_chans (shared (sets W x)) q = Some ch \<and> ch_fd ch = fd)"
  by (auto simp: fd_at_def)

text \<open>A channel appears, or goes.\<close>

lemma fds_add:
  assumes "os = {fd. \<exists>x q. m x q = Some fd}" "\<forall>x p y r fd. m x p = Some fd \<longrightarrow> m y r = Some fd \<longrightarrow> x = y \<and> p = r"
    "fd \<notin> os" "m x q = None" "\<And>y r. m' y r = (if y = x \<and> r = q then Some fd else m y r)"
  shows "insert fd os = {fd. \<exists>x q. m' x q = Some fd}"
    "\<forall>x p y r fd. m' x p = Some fd \<longrightarrow> m' y r = Some fd \<longrightarrow> x = y \<and> p = r"
proof -
  have n: "m y r \<noteq> Some fd" for y r using assms(1,3) by blast
  have "(\<exists>y r. m' y r = Some f) \<longleftrightarrow> f = fd \<or> (\<exists>y r. m y r = Some f)" for f
  proof (cases "f = fd")
    case True
    then show ?thesis using assms(5) [of x q] by auto
  next
    case False
    then have "m' y r = Some f \<longleftrightarrow> m y r = Some f" for y r unfolding assms(5) using assms(4) by simp
    then show ?thesis using False by simp
  qed
  then show "insert fd os = {fd. \<exists>x q. m' x q = Some fd}" unfolding assms(1) by blast
  show "\<forall>x p y r fd. m' x p = Some fd \<longrightarrow> m' y r = Some fd \<longrightarrow> x = y \<and> p = r"
    unfolding assms(5) using assms(2) n by (auto split: if_splits)
qed

lemma fds_del:
  assumes "os = {fd. \<exists>x q. m x q = Some fd}" "\<forall>x p y r fd. m x p = Some fd \<longrightarrow> m y r = Some fd \<longrightarrow> x = y \<and> p = r"
    "m x q = Some fd" "\<And>y r. m' y r = (if y = x \<and> r = q then None else m y r)"
  shows "os - {fd} = {fd. \<exists>x q. m' x q = Some fd}"
    "\<forall>x p y r fd. m' x p = Some fd \<longrightarrow> m' y r = Some fd \<longrightarrow> x = y \<and> p = r"
proof -
  have "(\<exists>y r. m' y r = Some f) \<longleftrightarrow> (\<exists>y r. m y r = Some f) \<and> f \<noteq> fd" for f
  proof
    assume "\<exists>y r. m' y r = Some f"
    then obtain y r where "m y r = Some f" "\<not> (y = x \<and> r = q)" unfolding assms(4) by (auto split: if_splits)
    then show "(\<exists>y r. m y r = Some f) \<and> f \<noteq> fd" using assms(2,3) by blast
  next
    assume "(\<exists>y r. m y r = Some f) \<and> f \<noteq> fd"
    then obtain y r where "m y r = Some f" "f \<noteq> fd" by blast
    then have "m' y r = Some f" unfolding assms(4) using assms(3) by auto
    then show "\<exists>y r. m' y r = Some f" by blast
  qed
  then show "os - {fd} = {fd. \<exists>x q. m' x q = Some fd}" unfolding assms(1) by blast
  show "\<forall>x p y r fd. m' x p = Some fd \<longrightarrow> m' y r = Some fd \<longrightarrow> x = y \<and> p = r"
    unfolding assms(4) using assms(2) by (auto split: if_splits)
qed

lemma f_made_inv:
  assumes e: "\<forall>x. ep_inv K (e x)" "ep_chans (e l) q = None"
    "\<forall>x p c y r d. ep_chans (e x) p = Some c \<longrightarrow> ep_chans (e y) r = Some d \<longrightarrow> ch_fd c = ch_fd d \<longrightarrow> x = y \<and> p = r"
    and os: "os = {fd. \<exists>x p c. ep_chans (e x) p = Some c \<and> ch_fd c = fd}" "fd \<notin> os"
    and F: "TcpServer_new K (Inr fd) bind_ok q os e w (Some l) a nm option = Inr F"
  shows "front_inv K U l a nm F"
proof -
  let ?ch = "(Channel_ctor fd)\<lparr>has_read_cb := True\<rparr>" and ?t = "ep_set_chan q ((Channel_ctor fd)\<lparr>has_read_cb := True\<rparr>) (e l)"
  have ch: "index ?ch = - 1" "ch_fd ?ch = fd" "events_ok ?ch" by (simp_all add: Channel_ctor_def events_ok_def)
  obtain s ac where s0: "TcpServer_ctor (Some l) a nm = Inr s"
    "Acceptor_ctor (epoll_ops K) (Inr fd) bind_ok q (option = kReusePort) (e (base_loop (pool s))) w = Inr ac"
    "F = \<lparr>inner = \<lparr>srv = s, sets = (\<lambda>x. \<lparr>shared = (e(base_loop (pool s) := acc_poller ac)) x, members = Map.empty\<rparr>)\<rparr>,
      acc = ac, opened = insert (accept_fd ac) os\<rparr>"
    using F by (auto simp: TcpServer_new_def Let_def res_bind_eq_Inr)
  have b: "base_loop (pool s) = l" using s0(1) by (auto simp: TcpServer_ctor_def EventLoopThreadPool_ctor_def)
  have ac: "accept_fd ac = fd" "accept_chan ac = q" "acc_poller ac = ?t"
    using s0(2) by (auto simp: b Acceptor_ctor_def CreateNonblocking_def Bind_def epoll_ops_def res_bind_eq_Inr split: if_splits)
  have s: "TcpServer_ctor (Some l) a nm = Inr s"
    "inner F = \<lparr>srv = s, sets = (\<lambda>x. \<lparr>shared = (e(l := ?t)) x, members = Map.empty\<rparr>)\<rparr>"
    "accept_fd (acc F) = fd" "accept_chan (acc F) = q" "opened F = insert fd os"
    using s0 ac unfolding b by simp_all
  note law = epoll.new_chan_law [OF e(1) [rule_format] e(2) ch(1)]
  have r: "whole_reachable K U l a nm (inner F)" unfolding s(2) using w_made [OF s(1), of K "e(l := ?t)" U] e(1) law by simp
  let ?m = "\<lambda>x p. map_option ch_fd (ep_chans (e x) p)"
  have m: "fd_at (inner F) y r = (if y = l \<and> r = q then Some fd else ?m y r)" for y r
    using s(2) law ch(2) by (auto simp: fd_at_def)
  have os': "os = {fd. \<exists>x q. ?m x q = Some fd}" using os(1) by auto
  have inj: "\<forall>x p y r fd. ?m x p = Some fd \<longrightarrow> ?m y r = Some fd \<longrightarrow> x = y \<and> p = r" using e(3) by auto
  have q: "?m l q = None" using e(2) by simp
  note A = fds_add [OF os' inj os(2) q m]
  have "channel_maps (e l) fd = None"
  proof (cases "channel_maps (e l) fd")
    case (Some p)
    then obtain c where "ep_chans (e l) p = Some c" "ch_fd c = fd" using ep_invD(2) [OF e(1) [rule_format, of l]] by blast
    then show ?thesis using os by blast
  qed
  then have ok: "acceptor_ok ?t fd q" using law ch by (auto simp: acceptor_ok_def ep_fd_free_def ep_set_chan_def)
  have b2: "members (sets (inner F) l) q = None" "shared (sets (inner F) l) = ?t" unfolding s(2) by simp_all
  show ?thesis unfolding front_inv_def s(3-5) b2(2) using r A b2(1) ok by (intro conjI)
qed

section \<open>Every step keeps the invariant\<close>

lemma whole_base:
  assumes "whole_inv K g0 act l a nm W"
  shows "base_loop (pool (srv W)) = l"
  using whole_invD(1) [OF assms] by (simp add: srv_inv_def srv_core_def)

context server_conns
begin

lemma f_start_inv:
  assumes inv: "front_inv K U l a nm F" and w: "epoll_wait_contract K"
    and F': "front_Start K new_loop has_cb listen_ok F = Inr F'"
  shows "front_inv K U l a nm F'"
proof -
  note f = front_invD [OF inv]
  note wi = whole_reachable_inv [OF f(1) w]
  have b: "front_base F = l" using whole_base [OF wi] by (simp add: front_base_def)
  obtain t where t: "srv_Start new_loop has_cb (base_loop (pool (srv (inner F)))) (srv (inner F)) = Inr t"
    using F' whole_base [OF wi] by (auto simp: front_Start_def b Let_def res_bind_eq_Inr)
  let ?V = "(inner F)\<lparr>srv := t\<rparr>"
  have r: "whole_reachable K U l a nm ?V" using f(1) whole_step.w_start [OF t] by (rule w_more)
  show ?thesis
  proof (cases "srv_started (srv (inner F)) = 0")
    case False
    then have "F' = F\<lparr>inner := ?V\<rparr>" using F' t whole_base [OF wi] by (simp add: front_Start_def b Let_def)
    then show ?thesis using r f inv unfolding front_inv_def by (simp add: fd_at_def)
  next
    case True
    obtain ac where ac: "acc_Listen (epoll_ops K) listen_ok (at_base F) = Inr ac"
      "F' = F\<lparr>inner := (inner F)\<lparr>srv := t, sets := (sets (inner F))(l := (sets (inner F) l)\<lparr>shared := acc_poller ac\<rparr>)\<rparr>, acc := ac\<rparr>"
      using F' t True whole_base [OF wi] by (auto simp: front_Start_def b Let_def res_bind_eq_Inr)
    let ?s = "shared (sets (inner F) l)" and ?q = "accept_chan (acc F)" and ?fd = "accept_fd (acc F)"
    have st: "channel_set (epoll_ops K) enable_read ?q ?s = Inr (acc_poller ac)" "accept_chan ac = ?q" "accept_fd ac = ?fd"
      using ac(1) by (auto simp: acc_Listen_def at_base_def b res_bind_eq_Inr)
    have ep: "ep_inv K ?s" using conns_reachable_inv [OF whole_invD(2) [OF wi] w] by (simp add: conns_inv_def)
    note A = acceptor_set [OF ep f(5) st(1)]
    obtain ch where ch: "ep_chans ?s ?q = Some ch" using f(5) by (auto simp: acceptor_ok_def)
    have "whole_step K U ?V (?V\<lparr>sets := (sets ?V)(l := (sets ?V l)\<lparr>shared := acc_poller ac\<rparr>)\<rparr>)"
      by (rule whole_step.w_foreign [where q = ?q and d = ch]) (use f(4) ch A in simp_all)
    from w_more [OF r this] have r2: "whole_reachable K U l a nm (inner F')" unfolding ac(2) by simp
    have fd: "fd_at (inner F') x p = fd_at (inner F) x p" for x p using A unfolding ac(2) fd_at_def by simp
    have "members (sets (inner F') l) ?q = None" "acceptor_ok (shared (sets (inner F') l)) ?fd ?q" "opened F' = opened F" "acc F' = ac"
      using f(4) A unfolding ac(2) by simp_all
    then show ?thesis unfolding front_inv_def fd using r2 f st(2,3) by simp
  qed
qed

lemma f_op_inv:
  assumes inv: "front_inv K U l a nm F" and w: "epoll_wait_contract K" and op: "whole_op K U (inner F) W"
  shows "front_inv K U l a nm (F\<lparr>inner := W\<rparr>)"
proof -
  note f = front_invD [OF inv]
  have fr: "op_frame (inner F) W" using whole_op_inv [OF op whole_reachable_inv [OF f(1) w] w] by blast
  have fd: "fd_at W x q = fd_at (inner F) x q" for x q using fr by (simp add: op_frame_def fd_at_def)
  have m: "members (sets W l) (accept_chan (acc F)) = None" using fr f(4) by (simp add: op_frame_def)
  have "acceptor_ok (shared (sets W l)) (accept_fd (acc F)) (accept_chan (acc F))"
  proof (rule acceptor_kept [OF f(5)])
    obtain ch where ch: "ep_chans (shared (sets (inner F) l)) (accept_chan (acc F)) = Some ch" "ch_fd ch = accept_fd (acc F)"
      using f(5) by (auto simp: acceptor_ok_def)
    have k: "(\<exists>r. ep_chans (shared (sets W l)) (accept_chan (acc F)) = Some (ch\<lparr>revents := r\<rparr>)) \<and>
        channel_maps (shared (sets W l)) (ch_fd ch) = channel_maps (shared (sets (inner F) l)) (ch_fd ch)"
      using fr f(4) ch(1) unfolding op_frame_def by blast
    then show "channel_maps (shared (sets W l)) (accept_fd (acc F)) = channel_maps (shared (sets (inner F) l)) (accept_fd (acc F))"
      using ch(2) by simp
    show "\<exists>r. ep_chans (shared (sets W l)) (accept_chan (acc F)) = Some (d\<lparr>revents := r\<rparr>)"
      if "ep_chans (shared (sets (inner F) l)) (accept_chan (acc F)) = Some d" for d using that k ch(1) by simp
  qed
  moreover have "whole_reachable K U l a nm W" using f(1) whole_step.w_op [OF op] by (rule w_more)
  ultimately show ?thesis using f m unfolding front_inv_def by (simp add: fd)
qed

lemma f_accept_ok:
  assumes inv: "front_inv K U l a nm F" and w: "epoll_wait_contract K"
    and fr: "fd \<notin> opened F" "\<forall>x. ep_chans (shared (sets (inner F) x)) (next_conn_ptr (srv (inner F))) = None" and pos: "0 < sint fd"
  shows "\<exists>F'. front_accept K (fresh U) (calls U) wc (Inr (fd, peer)) ok F = Inr F' \<and> front_inv K U l a nm F' \<and>
    opened F' = insert fd (opened F) \<and> accept_frame (inner F) fd (inner F') \<and> \<not> nonblock (acc_sockets (acc F')) fd"
proof -
  note f = front_invD [OF inv]
  note wi = whole_reachable_inv [OF f(1) w]
  let ?p = "next_conn_ptr (srv (inner F))"
  have fr2: "\<forall>x q d. ep_chans (shared (sets (inner F) x)) q = Some d \<longrightarrow> ch_fd d \<noteq> fd"
    using fr(1) f(2) by (auto simp: fd_at_Some)
  obtain W where W: "whole_accept K (fresh U) (calls U) wc fd (inner F) = Inr W" "accept_frame (inner F) fd W"
    using w_accept_ok [OF wi w fr(2) fr2] by blast
  have r: "whole_reachable K U l a nm W" using f(1) whole_step.w_accept [OF fr(2) fr2 W(1)] by (rule w_more)
  obtain ch where ch: "ep_chans (shared (sets (inner F) l)) (accept_chan (acc F)) = Some ch" "ch_fd ch = accept_fd (acc F)"
    using f(5) by (auto simp: acceptor_ok_def)
  have ne: "fd \<noteq> accept_fd (acc F)" "accept_chan (acc F) \<noteq> ?p" using ch fr2 fr(2) by auto
  obtain ac where ac: "acc_HandleRead (Inr (fd, peer)) ok True (at_base F) = Inr (Some (fd, peer), ac)"
    "accept_fd ac = accept_fd (acc F)" "accept_chan ac = accept_chan (acc F)" "\<not> nonblock (acc_sockets ac) fd"
    using pos ne(1) by (auto simp: acc_HandleRead_def Accept_def SetNonblocking_def at_base_def Let_def SetReusePort_def
        SetReuseAddr_def setsockopt_def)
  let ?F = "F\<lparr>inner := W, acc := ac\<lparr>acc_sockets := SetKeepAlive fd True (acc_sockets ac)\<rparr>, opened := insert fd (opened F)\<rparr>"
  have e: "front_accept K (fresh U) (calls U) wc (Inr (fd, peer)) ok F = Inr ?F"
    using ac(1) W(1) by (simp add: front_accept_def)
  obtain x c' where x: "ep_chans (shared (sets W x)) ?p = Some c'" "ch_fd c' = fd"
    "\<forall>y q. y \<noteq> x \<or> q \<noteq> ?p \<longrightarrow> ep_chans (shared (sets W y)) q = ep_chans (shared (sets (inner F) y)) q \<and>
        (members (sets W y) q = None \<longleftrightarrow> members (sets (inner F) y) q = None)"
    "\<forall>y f. f \<noteq> fd \<longrightarrow> channel_maps (shared (sets W y)) f = channel_maps (shared (sets (inner F) y)) f"
    using W(2) unfolding accept_frame_def by blast
  have m: "fd_at W y q = (if y = x \<and> q = ?p then Some fd else fd_at (inner F) y q)" for y q
    using x(1-3) by (auto simp: fd_at_def)
  have inj: "\<forall>x p y r fd. fd_at (inner F) x p = Some fd \<longrightarrow> fd_at (inner F) y r = Some fd \<longrightarrow> x = y \<and> p = r"
    using f(3) by blast
  have "fd_at (inner F) x ?p = None" using fr(2) by (simp add: fd_at_def)
  note A = fds_add [OF f(2) inj fr(1) this m]
  have "acceptor_ok (shared (sets W l)) (accept_fd (acc F)) (accept_chan (acc F))"
  proof (rule acceptor_kept [OF f(5)])
    show "channel_maps (shared (sets W l)) (accept_fd (acc F)) = channel_maps (shared (sets (inner F) l)) (accept_fd (acc F))"
      using x(4) ne(1) by simp
    show "\<exists>r. ep_chans (shared (sets W l)) (accept_chan (acc F)) = Some (d\<lparr>revents := r\<rparr>)"
      if "ep_chans (shared (sets (inner F) l)) (accept_chan (acc F)) = Some d" for d
      using that x(3) ne(2) by (intro exI [of _ "revents d"]) simp
  qed
  moreover have "members (sets W l) (accept_chan (acc F)) = None" using x(3) ne(2) f(4) by simp
  ultimately have "front_inv K U l a nm ?F" unfolding front_inv_def using r A ac(2,3) by simp
  then show ?thesis using e W(2) ac(4) by (simp add: SetKeepAlive_def setsockopt_def)
qed

lemma f_free_inv:
  assumes inv: "front_inv K U l a nm F" and w: "epoll_wait_contract K"
    and m: "member (sets (inner F) x) p = Some (g, c)" "DestroyTask p \<in> set (ran (srv (inner F)) x)"
    and F': "front_free x p F = Inr F'"
  shows "front_inv K U l a nm F'"
proof -
  note f = front_invD [OF inv]
  let ?W = "(inner F)\<lparr>sets := (sets (inner F))(x := drop_member p (sets (inner F) x))\<rparr>"
  obtain ch where ch: "ep_chans (shared (sets (inner F) x)) p = Some ch"
    "F' = F\<lparr>inner := ?W, acc := (acc F)\<lparr>acc_sockets := Socket_dtor (ch_fd ch) (acc_sockets (acc F))\<rparr>, opened := opened F - {ch_fd ch}\<rparr>"
    using F' by (auto simp: front_free_def Let_def split: option.splits)
  have r: "whole_reachable K U l a nm ?W" using f(1) whole_step.w_free [OF m] by (rule w_more)
  have s: "sets ?W y = (if y = x then drop_member p (sets (inner F) x) else sets (inner F) y)" for y by simp
  have e: "ep_chans (shared (sets ?W y)) q = (if y = x \<and> q = p then None else ep_chans (shared (sets (inner F) y)) q)" for y q
    unfolding s by simp
  have fd: "fd_at ?W y q = (if y = x \<and> q = p then None else fd_at (inner F) y q)" for y q unfolding fd_at_def e by simp
  have inj: "\<forall>x p y r fd. fd_at (inner F) x p = Some fd \<longrightarrow> fd_at (inner F) y r = Some fd \<longrightarrow> x = y \<and> p = r"
    using f(3) by blast
  have p: "fd_at (inner F) x p = Some (ch_fd ch)" using ch(1) by (simp add: fd_at_def)
  note A = fds_del [OF f(2) inj p fd]
  have ne: "\<not> (l = x \<and> accept_chan (acc F) = p)" using m(1) f(4) by (auto simp: member_def)
  have "acceptor_ok (shared (sets ?W l)) (accept_fd (acc F)) (accept_chan (acc F))"
  proof (rule acceptor_kept [OF f(5)])
    show "channel_maps (shared (sets ?W l)) (accept_fd (acc F)) = channel_maps (shared (sets (inner F) l)) (accept_fd (acc F))"
      unfolding s by simp
    show "\<exists>r. ep_chans (shared (sets ?W l)) (accept_chan (acc F)) = Some (d\<lparr>revents := r\<rparr>)"
      if "ep_chans (shared (sets (inner F) l)) (accept_chan (acc F)) = Some d" for d
      unfolding e using that ne by (intro exI [of _ "revents d"]) auto
  qed
  moreover have "members (sets ?W l) (accept_chan (acc F)) = None" unfolding s using f(4) by (auto simp: drop_member_def)
  ultimately show ?thesis unfolding front_inv_def ch(2) using r A by simp
qed

lemma front_reachable_inv:
  assumes "front_reachable K U l a nm F" and w: "epoll_wait_contract K"
  shows "front_inv K U l a nm F"
  using assms(1)
proof (induction rule: front_reachable.induct)
  case (f_made e q os fd bind_ok v option F)
  then show ?case by (rule f_made_inv)
next
  case (f_more F F')
  from f_more.hyps(2) show ?case
  proof cases
    case f_start
    then show ?thesis using f_start_inv [OF f_more.IH w] by blast
  next
    case (f_accept fd wc peer ok)
    have "0 < sint fd"
      using f_accept(4) by (auto simp: front_accept_def acc_HandleRead_def Accept_def Let_def res_bind_eq_Inr split: if_splits)
    then show ?thesis using f_accept_ok [OF f_more.IH w f_accept(2,3), of wc peer ok] f_accept(4) by auto
  next
    case f_op
    then show ?thesis using f_op_inv [OF f_more.IH w] by blast
  next
    case f_free
    then show ?thesis using f_free_inv [OF f_more.IH w] by blast
  qed
qed

end

text \<open>The first \<open>Start\<close> makes the server listen, if \<open>listen\<close> succeeds.\<close>

context server_conns
begin

lemma f_start_ok:
  assumes inv: "front_inv K U l a nm F" and w: "epoll_wait_contract K" and z: "srv_started (srv (inner F)) = 0"
  shows "\<exists>F'. front_Start K new_loop has_cb True F = Inr F' \<and> listenning (acc F') \<and> opened F' = opened F \<and>
    next_conn_ptr (srv (inner F')) = next_conn_ptr (srv (inner F)) \<and>
    (\<forall>x p. fd_at (inner F') x p = fd_at (inner F) x p)"
proof -
  note f = front_invD [OF inv]
  note wi = whole_reachable_inv [OF f(1) w]
  have b: "front_base F = l" using whole_base [OF wi] by (simp add: front_base_def)
  let ?s = "shared (sets (inner F) l)" and ?q = "accept_chan (acc F)"
  have ep: "ep_inv K ?s" using conns_reachable_inv [OF whole_invD(2) [OF wi] w] by (simp add: conns_inv_def)
  obtain ch where ch: "ep_chans ?s ?q = Some ch" "events_ok ch" "ep_registered ?s ?q \<or> index ch = - 1 \<and> ep_fd_free ?s (ch_fd ch)"
    using f(5) by (auto simp: acceptor_ok_def)
  have "\<exists>v. enable_read ch = ch\<lparr>events := v\<rparr>" by (simp add: channel_setters) blast
  then obtain v where v: "enable_read ch = ch\<lparr>events := v\<rparr>" by blast
  have ev: "events_ok (enable_read ch)" using events_ok_setters [OF ch(2)] by simp
  obtain t where t: "channel_set (epoll_ops K) enable_read ?q ?s = Inr t"
    using epoll.set_events_then_update [OF ep ch(1,3) v ev] ch(1) by (auto simp: channel_set_def epoll_ops_def)
  note A = acceptor_set [OF ep f(5) t]
  show ?thesis using z t A
    by (auto simp: front_Start_def b Let_def srv_Start_def srv_RunInLoop_def srv_exec_def front_base_def [symmetric]
        acc_Listen_def Listen_def at_base_def fd_at_def)
qed

end

section \<open>Properties of the server and its acceptor\<close>

text \<open>
  C9. Descriptors are neither leaked nor shared: in every state that the server with its acceptor
  and any number of loops and connections can reach, when the kernel gives \<open>accept\<close> a descriptor that
  is not open, the open descriptors are exactly those of the live channels (the loops' own, the
  acceptor's and the connections'), each belongs to one channel of one loop, and the run is
  one of the whole server, whose assumption on the descriptors of new connections thus holds.
\<close>

theorem server_descriptors:
  assumes "front_reachable K (user_service K cb) l a nm F" "server_cb K cb" "epoll_wait_contract K"
  shows "opened F = {fd. \<exists>x p ch. ep_chans (shared (sets (inner F) x)) p = Some ch \<and> ch_fd ch = fd} \<and>
    (\<forall>x p c y r d. ep_chans (shared (sets (inner F) x)) p = Some c \<longrightarrow> ep_chans (shared (sets (inner F) y)) r = Some d \<longrightarrow>
       ch_fd c = ch_fd d \<longrightarrow> x = y \<and> p = r) \<and>
    whole_reachable K (user_service K cb) l a nm (inner F)"
proof (intro conjI allI impI)
  note f = front_invD [OF server_conns.front_reachable_inv [OF user_conns [OF assms(2)] assms(1,3)]]
  show "opened F = {fd. \<exists>x p ch. ep_chans (shared (sets (inner F) x)) p = Some ch \<and> ch_fd ch = fd}"
    using f(2) by (simp add: fd_at_Some)
  show "whole_reachable K (user_service K cb) l a nm (inner F)" by (rule f(1))
  fix x p c y r d
  assume "ep_chans (shared (sets (inner F) x)) p = Some c" "ep_chans (shared (sets (inner F) y)) r = Some d" "ch_fd c = ch_fd d"
  then have "fd_at (inner F) x p = Some (ch_fd c)" "fd_at (inner F) y r = Some (ch_fd c)" by (simp_all add: fd_at_def)
  from f(3) [OF this] show "x = y" "p = r" by simp_all
qed

text \<open>
  C10. What becomes of an \<open>accept\<close>. A positive descriptor that is not open yet never leads to a fault:
  the new connection is a member of the loop that \<open>GetNextLoop\<close> gives, on that descriptor, which is
  open from then on (and in blocking mode, although a non-blocking one was asked for). Everything
  else ends the process: an error of \<open>accept4\<close>, whichever it is, and descriptor 0, which the code takes
  for an error.
\<close>

theorem accept_outcome:
  assumes "front_reachable K (user_service K cb) l a nm F" "server_cb K cb" "epoll_wait_contract K"
    "\<forall>x. ep_chans (shared (sets (inner F) x)) (next_conn_ptr (srv (inner F))) = None"
  shows "front_accept K () cb wc (Inl e) ok F = Inl Fatal \<and>
    (fd \<notin> opened F \<longrightarrow>
      (if sint fd \<le> 0 then front_accept K () cb wc (Inr (fd, peer)) ok F = Inl Fatal
       else \<exists>F' x pl c ch. front_accept K () cb wc (Inr (fd, peer)) ok F = Inr F' \<and>
         GetNextLoop (pool (srv (inner F))) = Inr (x, pl) \<and>
         member (sets (inner F') x) (next_conn_ptr (srv (inner F))) = Some ((), c) \<and>
         ep_chans (shared (sets (inner F') x)) (next_conn_ptr (srv (inner F))) = Some ch \<and> ch_fd ch = fd \<and>
         opened F' = insert fd (opened F) \<and> \<not> nonblock (acc_sockets (acc F')) fd))"
proof (intro conjI impI)
  note U = user_conns [OF assms(2)]
  show "front_accept K () cb wc (Inl e) ok F = Inl Fatal"
    by (simp add: front_accept_def acc_HandleRead_def Accept_def Let_def)
  assume new: "fd \<notin> opened F"
  show "if sint fd \<le> 0 then front_accept K () cb wc (Inr (fd, peer)) ok F = Inl Fatal
       else \<exists>F' x pl c ch. front_accept K () cb wc (Inr (fd, peer)) ok F = Inr F' \<and>
         GetNextLoop (pool (srv (inner F))) = Inr (x, pl) \<and>
         member (sets (inner F') x) (next_conn_ptr (srv (inner F))) = Some ((), c) \<and>
         ep_chans (shared (sets (inner F') x)) (next_conn_ptr (srv (inner F))) = Some ch \<and> ch_fd ch = fd \<and>
         opened F' = insert fd (opened F) \<and> \<not> nonblock (acc_sockets (acc F')) fd"
  proof (cases "sint fd \<le> 0")
    case True
    then show ?thesis by (simp add: front_accept_def acc_HandleRead_def Accept_def Let_def)
  next
    case False
    then have pos: "0 < sint fd" by simp
    obtain F' where F': "front_accept K () cb wc (Inr (fd, peer)) ok F = Inr F'" "opened F' = insert fd (opened F)"
      "accept_frame (inner F) fd (inner F')" "\<not> nonblock (acc_sockets (acc F')) fd"
      using server_conns.f_accept_ok [OF U server_conns.front_reachable_inv [OF U assms(1,3)] assms(3) new assms(4) pos, of wc peer ok] by auto
    obtain x pl c ch where "GetNextLoop (pool (srv (inner F))) = Inr (x, pl)"
      "member (sets (inner F') x) (next_conn_ptr (srv (inner F))) = Some ((), c)"
      "ep_chans (shared (sets (inner F') x)) (next_conn_ptr (srv (inner F))) = Some ch" "ch_fd ch = fd"
      using F'(3) unfolding accept_frame_def by (metis (full_types) old.unit.exhaust)
    with F'(1,2,4) False show ?thesis by auto
  qed
qed

text \<open>
  For the witnesses: a server on the sample kernel, its acceptor on descriptor 3, that listens; and
  the same with a connection on descriptor 5.
\<close>

lemma listening_front:
  "\<exists>F. front_reachable map_kernel (user_service map_kernel quiet_cb) 1 (InetAddr_port 8000) ''srv'' F \<and> listenning (acc F) \<and>
    opened F = {3} \<and> (\<forall>x. ep_chans (shared (sets (inner F) x)) (next_conn_ptr (srv (inner F))) = None)"
proof -
  let ?U = "user_service map_kernel quiet_cb" and ?e = "\<lambda>_ :: ptr. epoller_init Map.empty Map.empty :: (cint \<rightharpoonup> cint \<times> ptr) epoller"
  let ?w = "\<lparr>nonblock = (\<lambda>_. False), sockopt = Map.empty, listening = {}, closed = {}\<rparr>"
  note U = user_conns [OF quiet_server_cb, of map_kernel]
  obtain F :: "(cint \<rightharpoonup> cint \<times> ptr, unit) front" where F: "TcpServer_new map_kernel (Inr 3) True 100 {} ?e ?w (Some 1) (InetAddr_port 8000) ''srv'' kReusePort = Inr F"
    "opened F = {3}" "srv_started (srv (inner F)) = 0" "next_conn_ptr (srv (inner F)) = 0"
    "\<forall>x q. fd_at (inner F) x q = (if x = 1 \<and> q = 100 then Some 3 else None)"
    by (simp add: TcpServer_new_def TcpServer_ctor_def EventLoopThreadPool_ctor_def Acceptor_ctor_def CreateNonblocking_def Bind_def
        epoll_ops_def Let_def fd_at_def ep_set_chan_def epoller_init_def Channel_ctor_def)
  have r: "front_reachable map_kernel ?U 1 (InetAddr_port 8000) ''srv'' F"
    by (rule f_made [OF _ _ _ _ _ F(1)]) (use init_epoller_inv in \<open>simp_all add: epoller_init_def\<close>)
  note inv = server_conns.front_reachable_inv [OF U r map_kernel_contract(2)]
  obtain F' where F': "front_Start map_kernel (\<lambda>_. 0) False True F = Inr F'" "listenning (acc F')" "opened F' = {3}"
    "next_conn_ptr (srv (inner F')) = 0" "\<forall>x p. fd_at (inner F') x p = fd_at (inner F) x p"
    using server_conns.f_start_ok [OF U inv map_kernel_contract(2) F(3), of "\<lambda>_. 0" False] F(2,4) by auto
  have "front_reachable map_kernel ?U 1 (InetAddr_port 8000) ''srv'' F'" using r f_start [OF F'(1)] by (rule f_more)
  moreover have "ep_chans (shared (sets (inner F') x)) 0 = None" for x
    using F'(5) [rule_format, of x 0] F(5) [rule_format, of x 0] by (simp add: fd_at_def)
  ultimately show ?thesis using F'(2-4) by auto
qed

theorem accept_outcome_witness:
  "\<exists>F F' x c ch. front_reachable map_kernel (user_service map_kernel quiet_cb) 1 (InetAddr_port 8000) ''srv'' F \<and> opened F = {3} \<and>
    front_accept map_kernel () quiet_cb False (Inr (5, InetAddr_default)) True F = Inr F' \<and>
    member (sets (inner F') x) (next_conn_ptr (srv (inner F))) = Some ((), c) \<and>
    ep_chans (shared (sets (inner F') x)) (next_conn_ptr (srv (inner F))) = Some ch \<and> ch_fd ch = 5 \<and> opened F' = {3, 5}"
proof -
  obtain F where F: "front_reachable map_kernel (user_service map_kernel quiet_cb) 1 (InetAddr_port 8000) ''srv'' F" "opened F = {3}"
    "\<forall>x. ep_chans (shared (sets (inner F) x)) (next_conn_ptr (srv (inner F))) = None" using listening_front by blast
  have "(5 :: cint) \<notin> opened F" "\<not> sint (5 :: cint) \<le> 0" using F(2) by simp_all
  with accept_outcome [OF F(1) quiet_server_cb map_kernel_contract(2) F(3), of False 0 True 5 InetAddr_default]
  obtain F' x pl c ch where F': "front_accept map_kernel () quiet_cb False (Inr (5, InetAddr_default)) True F = Inr F'"
    "GetNextLoop (pool (srv (inner F))) = Inr (x, pl)" "member (sets (inner F') x) (next_conn_ptr (srv (inner F))) = Some ((), c)"
    "ep_chans (shared (sets (inner F') x)) (next_conn_ptr (srv (inner F))) = Some ch" "ch_fd ch = 5" "opened F' = insert 5 (opened F)"
    by auto
  then show ?thesis using F(1,2) by (intro exI [of _ F] exI [of _ F'] exI [of _ x] exI [of _ c] exI [of _ ch]) auto
qed

lemma accepting_front:
  "\<exists>F. front_reachable map_kernel (user_service map_kernel quiet_cb) 1 (InetAddr_port 8000) ''srv'' F \<and> opened F = {3, 5}"
proof -
  note U = user_conns [OF quiet_server_cb, of map_kernel]
  obtain F where F: "front_reachable map_kernel (user_service map_kernel quiet_cb) 1 (InetAddr_port 8000) ''srv'' F"
    "listenning (acc F)" "opened F = {3}" "\<forall>x. ep_chans (shared (sets (inner F) x)) (next_conn_ptr (srv (inner F))) = None"
    using listening_front by blast
  have fd: "(5 :: cint) \<notin> opened F" "0 < sint (5 :: cint)" using F(3) by simp_all
  obtain F' where F': "front_accept map_kernel () quiet_cb False (Inr (5, InetAddr_default)) True F = Inr F'" "opened F' = insert 5 (opened F)"
    using server_conns.f_accept_ok [OF U server_conns.front_reachable_inv [OF U F(1) map_kernel_contract(2)] map_kernel_contract(2)
        fd(1) F(4) fd(2), of False InetAddr_default True] by auto
  have "front_step map_kernel (user_service map_kernel quiet_cb) F F'"
    using f_accept [OF F(2) fd(1) F(4)] F'(1) by simp
  from f_more [OF F(1) this] show ?thesis using F'(2) F(3) by (auto simp: insert_commute)
qed

theorem server_descriptors_witness:
  "\<exists>F. front_reachable map_kernel (user_service map_kernel quiet_cb) 1 (InetAddr_port 8000) ''srv'' F \<and>
    {fd. \<exists>x p ch. ep_chans (shared (sets (inner F) x)) p = Some ch \<and> ch_fd ch = fd} = {3, 5}"
proof -
  obtain F where F: "front_reachable map_kernel (user_service map_kernel quiet_cb) 1 (InetAddr_port 8000) ''srv'' F"
    "opened F = {3, 5}" using accepting_front by blast
  from server_descriptors [OF F(1) quiet_server_cb map_kernel_contract(2)] F show ?thesis by auto
qed

end
