(* ===== verification/Server_Callbacks.thy ===== *)
theory Server_Callbacks
  imports Server_Front
begin

text \<open>
  The callbacks as \<open>std::function\<close> members that may be empty: the setters of \<open>TcpServer\<close>
  (\<^verbatim>\<open>include/tcp_server.h\<close>) and \<open>TcpConnection\<close> (\<^verbatim>\<open>include/tcp_connection.h\<close>), what \<open>NewConnection\<close> hands
  to a connection, and the classes \<open>EchoServer\<close> and \<open>PingpongServer\<close> of the examples, which set
  some of them. Calling an empty one throws \<open>std::bad_function_call\<close>.
\<close>

section \<open>Callback members\<close>

type_synonym 's conn_fun = "'s connection \<Rightarrow> 's connection res"

record 's slots =
  on_connection :: "'s conn_fun option"
  on_message :: "'s conn_fun option"
  on_write_complete :: "'s conn_fun option"
  on_close :: "'s conn_fun option"

definition no_slots :: "'s slots" where
  "no_slots = \<lparr>on_connection = None, on_message = None, on_write_complete = None, on_close = None\<rparr>"

definition conn_SetConnectionCallback :: "'s conn_fun option \<Rightarrow> 's slots \<Rightarrow> 's slots" where
  "conn_SetConnectionCallback cb S = S\<lparr>on_connection := cb\<rparr>"

definition conn_SetMessageCallback :: "'s conn_fun option \<Rightarrow> 's slots \<Rightarrow> 's slots" where
  "conn_SetMessageCallback cb S = S\<lparr>on_message := cb\<rparr>"

definition conn_SetWriteCompleteCallback :: "'s conn_fun option \<Rightarrow> 's slots \<Rightarrow> 's slots" where
  "conn_SetWriteCompleteCallback cb S = S\<lparr>on_write_complete := cb\<rparr>"

definition conn_SetCloseCallback :: "'s conn_fun option \<Rightarrow> 's slots \<Rightarrow> 's slots" where
  "conn_SetCloseCallback cb S = S\<lparr>on_close := cb\<rparr>"

definition call_slot :: "'s conn_fun option \<Rightarrow> 's conn_fun" where
  "call_slot f c = (case f of None \<Rightarrow> Inl BadFunctionCall | Some g \<Rightarrow> g c)"

definition slot_callbacks :: "'s slots \<Rightarrow> 's callbacks" where
  "slot_callbacks S e = call_slot
     (case e of ConnectionCallback \<Rightarrow> on_connection S | MessageCallback \<Rightarrow> on_message S
      | WriteCompleteCallback \<Rightarrow> on_write_complete S | CloseCallback \<Rightarrow> on_close S)"

text \<open>
  The members of the server, set by the program before \<open>Start\<close>. Of the thread-initialisation
  callback only whether it is set matters here.
\<close>

record 's srv_slots =
  connection_callback :: "'s conn_fun option"
  message_callback :: "'s conn_fun option"
  write_complete_callback :: "'s conn_fun option"
  thread_init_callback :: bool

definition no_srv_slots :: "'s srv_slots" where
  "no_srv_slots = \<lparr>connection_callback = None, message_callback = None, write_complete_callback = None,
     thread_init_callback = False\<rparr>"

definition srv_SetThreadInitCallback :: "bool \<Rightarrow> 's srv_slots \<Rightarrow> 's srv_slots" where
  "srv_SetThreadInitCallback cb T = T\<lparr>thread_init_callback := cb\<rparr>"

definition srv_SetConnectionCallback :: "'s conn_fun option \<Rightarrow> 's srv_slots \<Rightarrow> 's srv_slots" where
  "srv_SetConnectionCallback cb T = T\<lparr>connection_callback := cb\<rparr>"

definition srv_SetMessageCallback :: "'s conn_fun option \<Rightarrow> 's srv_slots \<Rightarrow> 's srv_slots" where
  "srv_SetMessageCallback cb T = T\<lparr>message_callback := cb\<rparr>"

definition srv_SetWriteCompleteCallback :: "'s conn_fun option \<Rightarrow> 's srv_slots \<Rightarrow> 's srv_slots" where
  "srv_SetWriteCompleteCallback cb T = T\<lparr>write_complete_callback := cb\<rparr>"

definition srv_SetThreadNum :: "cint \<Rightarrow> server \<Rightarrow> server" where
  "srv_SetThreadNum num s = s\<lparr>pool := SetThreadNum num (pool s)\<rparr>"

text \<open>\<open>NewConnection\<close> copies them to the connection; \<open>remove\<close> is \<open>TcpServer::RemoveConnection\<close>.\<close>

definition hand_over :: "'s srv_slots \<Rightarrow> 's conn_fun \<Rightarrow> 's slots" where
  "hand_over T remove =
     conn_SetCloseCallback (Some remove)
       (conn_SetWriteCompleteCallback (write_complete_callback T)
         (conn_SetMessageCallback (message_callback T)
           (conn_SetConnectionCallback (connection_callback T) no_slots)))"

section \<open>The servers of the examples\<close>

text \<open>
  The constructors: the server with its acceptor, whose socket may fail to be made or bound, the
  callbacks and the number of threads. The member functions that are bound are arguments; they are
  \<open>OnConnection\<close>, \<open>OnMessage\<close>, \<open>OnWriteComplete\<close>, \<open>pingpong_OnConnection\<close> and \<open>pingpong_OnMessage\<close> of \<open>Echo_Server\<close>.
\<close>

definition front_SetThreadNum :: "cint \<Rightarrow> ('k, 'g) front \<Rightarrow> ('k, 'g) front" where
  "front_SetThreadNum num F = F\<lparr>inner := (inner F)\<lparr>srv := srv_SetThreadNum num (srv (inner F))\<rparr>\<rparr>"

definition EchoServer_ctor ::
  "('s conn_fun \<times> 's conn_fun \<times> 's conn_fun) \<Rightarrow> 'k epoll_kernel \<Rightarrow> errno + cint \<Rightarrow> bool \<Rightarrow> ptr \<Rightarrow> cint set \<Rightarrow> (ptr \<Rightarrow> 'k epoller) \<Rightarrow>
   sockets \<Rightarrow> ptr option \<Rightarrow> sockaddr_in \<Rightarrow> string \<Rightarrow> cint \<Rightarrow> (('k, 'g) front \<times> 's srv_slots) res" where
  "EchoServer_ctor funs K created bind_ok q os e w loop addr name thread_num =
     (case funs of (onConnection, onMessage, onWriteComplete) \<Rightarrow>
        res_bind (TcpServer_new K created bind_ok q os e w loop addr name kReusePort) (\<lambda>F.
          let T1 = srv_SetConnectionCallback (Some onConnection) no_srv_slots;
              T2 = srv_SetMessageCallback (Some onMessage) T1;
              T3 = srv_SetThreadInitCallback True T2;
              T4 = srv_SetWriteCompleteCallback (Some onWriteComplete) T3
          in Inr (front_SetThreadNum thread_num F, T4)))"

definition PingpongServer_ctor ::
  "('s conn_fun \<times> 's conn_fun) \<Rightarrow> 'k epoll_kernel \<Rightarrow> errno + cint \<Rightarrow> bool \<Rightarrow> ptr \<Rightarrow> cint set \<Rightarrow> (ptr \<Rightarrow> 'k epoller) \<Rightarrow>
   sockets \<Rightarrow> ptr option \<Rightarrow> sockaddr_in \<Rightarrow> string \<Rightarrow> cint \<Rightarrow> (('k, 'g) front \<times> 's srv_slots) res" where
  "PingpongServer_ctor funs K created bind_ok q os e w loop addr name thread_num =
     (case funs of (onConnection, onMessage) \<Rightarrow>
        res_bind (TcpServer_new K created bind_ok q os e w loop addr name kReusePort) (\<lambda>F.
          let T1 = srv_SetConnectionCallback (Some onConnection) no_srv_slots;
              T2 = srv_SetMessageCallback (Some onMessage) T1
          in Inr (front_SetThreadNum thread_num F, T2)))"

text \<open>\<open>Start\<close> of both classes is that of the server, which passes the initialisation callback on.\<close>

definition program_Start ::
  "'k epoll_kernel \<Rightarrow> (nat \<Rightarrow> ptr) \<Rightarrow> bool \<Rightarrow> ('k, 'g) front \<times> 's srv_slots \<Rightarrow> (('k, 'g) front \<times> 's srv_slots) res" where
  "program_Start K new_loop listen_ok = (\<lambda>(F, T).
     res_bind (front_Start K new_loop (thread_init_callback T) listen_ok F) (\<lambda>F1. Inr (F1, T)))"

lemmas slot_defs = conn_SetConnectionCallback_def conn_SetMessageCallback_def conn_SetWriteCompleteCallback_def
  conn_SetCloseCallback_def srv_SetThreadInitCallback_def srv_SetConnectionCallback_def srv_SetMessageCallback_def
  srv_SetWriteCompleteCallback_def hand_over_def no_slots_def no_srv_slots_def

section \<open>Empty callbacks\<close>

lemma slot_others:
  "e \<noteq> WriteCompleteCallback \<Longrightarrow> slot_callbacks (S\<lparr>on_write_complete := f\<rparr>) e = slot_callbacks S e"
  by (cases e) (simp_all add: slot_callbacks_def)

lemma send_direct_unset:
  assumes "\<not> write_complete_set c"
  shows "send_direct cb write fd data c = send_direct cb' write fd data c"
  using assms by (auto simp: send_direct_def Let_def split: sum.splits)

lemma SendInLoop_unset:
  assumes "\<not> write_complete_set c"
  shows "SendInLoop P cb write data c = SendInLoop P cb' write data c"
  unfolding SendInLoop_def send_direct_unset [OF assms, where cb = cb and cb' = cb'] ..

lemma conn_set_frame: "conn_set P f c = Inr c' \<Longrightarrow> tasks c' = tasks c \<and> write_complete_set c' = write_complete_set c"
  by (auto simp: conn_set_def res_bind_eq_Inr)

lemma HandleWrite_unset:
  assumes "\<not> write_complete_set c" "conn_HandleWrite P write c = Inr c'"
  shows "tasks c' = tasks c"
  using assms(2)
proof (cases rule: HandleWrite_cases)
  case (3 x b c2)
  have "tasks c2 = tasks c" "\<not> write_complete_set c2" using conn_set_frame [OF 3(1)] assms(1) by simp_all
  then show ?thesis using 3(2)
    by (auto simp: ShutdownInLoop_def ShutdownWrite_def res_bind_eq_Inr split: if_splits)
qed simp_all

text \<open>
  C28. Empty callbacks: a connection whose program has set no write-complete callback never calls
  it. Each of its methods has the result, faults included, that it would have with any callback in
  its place, and no functor for it is ever queued. The connection callback is not guarded like
  this: without one the first connection ends the process.
\<close>

theorem empty_callbacks:
  assumes "write_complete_set c = (on_write_complete S \<noteq> None)" "on_write_complete S = None" "cb = slot_callbacks S"
    "cb' = slot_callbacks (S\<lparr>on_write_complete := Some f\<rparr>)"
  shows "SendInLoop P cb wr data c = SendInLoop P cb' wr data c \<and>
    Send_string P cb wr in_loop p c = Send_string P cb' wr in_loop p c \<and>
    conn_HandleRead P cb readv so c = conn_HandleRead P cb' readv so c \<and>
    conn_HandleClose P cb c = conn_HandleClose P cb' c \<and>
    ConnectionEstablished P cb self c = ConnectionEstablished P cb' self c \<and>
    ConnectionDestroyed P cb c = ConnectionDestroyed P cb' c \<and>
    (t \<noteq> WriteCompleteTask \<longrightarrow> run_task P cb wr t c = run_task P cb' wr t c) \<and>
    (\<forall>c'. conn_HandleWrite P wr c = Inr c' \<longrightarrow> tasks c' = tasks c) \<and>
    (on_connection S = None \<longrightarrow> conn_inv (epoll_ops K) (epoll_view K) d \<longrightarrow> state d = kConnecting \<longrightarrow>
       ConnectionEstablished (epoll_ops K) (slot_callbacks S) self d = Inl BadFunctionCall)"
proof (intro conjI impI allI)
  have unset: "\<not> write_complete_set c" using assms(1,2) by simp
  note e = slot_others [where S = S and f = "Some f"]
  note s = SendInLoop_unset [OF unset, where cb = cb and cb' = cb']
  show "SendInLoop P cb wr data c = SendInLoop P cb' wr data c" by (rule s)
  show "Send_string P cb wr in_loop p c = Send_string P cb' wr in_loop p c"
    unfolding Send_string_def by (simp add: s split: option.split)
  have m: "cb MessageCallback = cb' MessageCallback" unfolding assms(3,4) by (simp add: e)
  have cl: "conn_HandleClose P cb = conn_HandleClose P cb'"
    unfolding assms(3,4) by (intro ext) (simp add: conn_HandleClose_def e)
  then show "conn_HandleClose P cb c = conn_HandleClose P cb' c" by simp
  show "conn_HandleRead P cb readv so c = conn_HandleRead P cb' readv so c" unfolding conn_HandleRead_def m cl ..
  show "ConnectionEstablished P cb self c = ConnectionEstablished P cb' self c"
    unfolding assms(3,4) by (simp add: ConnectionEstablished_def e)
  show "ConnectionDestroyed P cb c = ConnectionDestroyed P cb' c" unfolding assms(3,4) by (simp add: ConnectionDestroyed_def e)
  show "run_task P cb wr t c = run_task P cb' wr t c" if "t \<noteq> WriteCompleteTask"
    using that by (cases t) (simp_all add: run_task_def s)
  show "tasks c' = tasks c" if "conn_HandleWrite P wr c = Inr c'" for c'
    using unset that by (rule HandleWrite_unset)
  show "ConnectionEstablished (epoll_ops K) (slot_callbacks S) self d = Inl BadFunctionCall"
    if "on_connection S = None" "conn_inv (epoll_ops K) (epoll_view K) d" "state d = kConnecting"
    using epoll_conn.ConnectionEstablished_ok [OF that(2,3), of "slot_callbacks S" self] that(1)
    by (auto simp: slot_callbacks_def call_slot_def)
qed

theorem empty_callbacks_witness:
  "SendInLoop (epoll_ops map_kernel) (slot_callbacks (hand_over no_srv_slots Inr)) one_byte ''ping'' live_conn =
     SendInLoop (epoll_ops map_kernel) (slot_callbacks ((hand_over no_srv_slots Inr)\<lparr>on_write_complete := Some Inr\<rparr>)) one_byte ''ping'' live_conn \<and>
   ConnectionEstablished (epoll_ops map_kernel) (slot_callbacks (hand_over no_srv_slots Inr)) 1 new_conn = Inl BadFunctionCall"
proof -
  have n: "on_write_complete (hand_over no_srv_slots Inr) = None" "on_connection (hand_over no_srv_slots Inr) = None" by (simp_all add: slot_defs)
  have l: "write_complete_set live_conn = (on_write_complete (hand_over no_srv_slots Inr) \<noteq> None)" using live_conn_simps n(1) by simp
  have inv: "conn_inv (epoll_ops map_kernel) (epoll_view map_kernel) new_conn"
    using conn_reachable_inv [OF new_conn_reachable quiet_cb_ok] .
  from empty_callbacks [OF l n(1) refl refl, where P = "epoll_ops map_kernel" and wr = one_byte and data = "''ping''" and
      f = Inr and K = map_kernel and d = new_conn and self = 1] n(2) inv new_conn_eq(1)
  show ?thesis by blast
qed

section \<open>The example servers\<close>

text \<open>
  A socket that cannot be made or bound ends both programs in the constructor. Otherwise a connection of
  the ping-pong server gets no write-complete callback, so that \<open>empty_callbacks\<close> speaks about it.
\<close>

lemma example_ctor_fails:
  "created = Inl e \<or> \<not> bind_ok \<Longrightarrow> EchoServer_ctor ms K created bind_ok q os po w (Some l) addr name n = Inl Fatal"
  "created = Inl e \<or> \<not> bind_ok \<Longrightarrow> PingpongServer_ctor ps K created bind_ok q os po w (Some l) addr name n = Inl Fatal"
  by (cases created; auto simp: EchoServer_ctor_def PingpongServer_ctor_def TcpServer_new_def TcpServer_ctor_def Acceptor_ctor_def
      CreateNonblocking_def Bind_def Let_def split: prod.split)+

lemma pingpong_slots:
  assumes "PingpongServer_ctor (f, g) K created bind_ok q os po w loop addr name n = Inr (F, T)"
  shows "on_write_complete (hand_over T remove) = None \<and> on_connection (hand_over T remove) = Some f \<and>
    on_message (hand_over T remove) = Some g \<and> num_threads (pool (srv (inner F))) = n"
  using assms by (auto simp: PingpongServer_ctor_def slot_defs res_bind_eq_Inr Let_def front_SetThreadNum_def srv_SetThreadNum_def
      SetThreadNum_def)

end
