(* ===== verification/Pingpong_Client.thy ===== *)
theory Pingpong_Client
  imports Echo_Server
begin

text \<open>
  The load generator \<^verbatim>\<open>example/pingpong_client.cc\<close>. It runs on another library (muduo), of which
  only the calls the program makes appear here: what \<open>connect\<close>, \<open>disconnect\<close>, \<open>quit\<close>, \<open>runAfter\<close> and
  \<open>send\<close> were called with is recorded, and the callbacks the library makes are the events of a
  run. Each callback runs in the thread of its session and touches its own session and the
  atomic counter. The two quotients the program prints at the end are floating point and left
  out, except for the integer divisor of one of them.
\<close>

section \<open>Sessions\<close>

record session =
  sess_name :: string
  bytesRead :: "64 word"
  bytesWritten :: "64 word"
  messagesRead :: "64 word"
  connect_called :: bool
  disconnect_called :: bool

definition Session_ctor :: "string \<Rightarrow> session" where
  "Session_ctor name = \<lparr>sess_name = name, bytesRead = 0, bytesWritten = 0, messagesRead = 0,
     connect_called = False, disconnect_called = False\<rparr>"

definition sess_start :: "session \<Rightarrow> session" where
  "sess_start s = s\<lparr>connect_called := True\<rparr>"

definition sess_stop :: "session \<Rightarrow> session" where
  "sess_stop s = s\<lparr>disconnect_called := True\<rparr>"

text \<open>\<open>content\<close> is the content of the buffer; the second result is what is sent back.\<close>

definition onMessage :: "bytes \<Rightarrow> session \<Rightarrow> session \<times> bytes" where
  "onMessage content s =
     (let s1 = s\<lparr>messagesRead := messagesRead s + 1\<rparr>;
          s2 = s1\<lparr>bytesRead := bytesRead s1 + word_of_nat (length content)\<rparr>
      in (s2\<lparr>bytesWritten := bytesWritten s2 + word_of_nat (length content)\<rparr>, content))"

section \<open>The client\<close>

datatype warning = AllConnected | AllDisconnected "64 word" "64 word" | StopWarning

record pp_client =
  sessionCount :: int
  cl_timeout :: int
  sessions :: "session list"
  cl_message :: bytes
  numConnected :: "32 word"
  pool_threads :: "int option"
  loop_quit :: bool
  warnings :: "warning list"

definition zero_pad :: "nat \<Rightarrow> string \<Rightarrow> string" where
  "zero_pad n s = replicate (n - length s) (CHR ''0'') @ s"

text \<open>\<open>"C%05d"\<close> and the block that is bounced.\<close>

definition sess_label :: "nat \<Rightarrow> string" where
  "sess_label i = ''C'' @ zero_pad 5 (nat_digits i)"

definition block :: "int \<Rightarrow> bytes" where
  "block blockSize = map (\<lambda>i. char_of (i mod 128 :: nat)) [0..<nat blockSize]"

text \<open>\<open>pool_threads\<close> is the argument of \<open>setThreadNum\<close>, if that is called.\<close>

definition Client_ctor :: "int \<Rightarrow> int \<Rightarrow> int \<Rightarrow> int \<Rightarrow> pp_client" where
  "Client_ctor blockSize session_count timeout threadCount =
     \<lparr>sessionCount = session_count, cl_timeout = timeout,
      sessions = map (\<lambda>i. sess_start (Session_ctor (sess_label i))) [0..<nat session_count],
      cl_message = block blockSize, numConnected = 0,
      pool_threads = (if 1 < threadCount then Some threadCount else None), loop_quit = False, warnings = []\<rparr>"

definition onConnect :: "pp_client \<Rightarrow> pp_client" where
  "onConnect c =
     (let c1 = c\<lparr>numConnected := numConnected c + 1\<rparr> in
      if sint (numConnected c1) = sessionCount c then c1\<lparr>warnings := warnings c1 @ [AllConnected]\<rparr> else c1)"

definition onDisconnect :: "pp_client \<Rightarrow> pp_client" where
  "onDisconnect c =
     (let c1 = c\<lparr>numConnected := numConnected c - 1\<rparr> in
      if numConnected c1 = 0
      then let totalBytesRead = foldl (\<lambda>t s. t + bytesRead s) 0 (sessions c1);
               totalMessagesRead = foldl (\<lambda>t s. t + messagesRead s) 0 (sessions c1)
           in c1\<lparr>warnings := warnings c1 @ [AllDisconnected totalBytesRead totalMessagesRead], loop_quit := True\<rparr>
      else c1)"

text \<open>
  The divisor of the throughput is a product of \<open>int\<close>s; \<open>None\<close> if it overflows, which is undefined.
\<close>

definition mib_divisor :: "int \<Rightarrow> int option" where
  "mib_divisor timeout =
     (let d = timeout * 1024 * 1024 in if - (2 ^ 31) \<le> d \<and> d < 2 ^ 31 then Some d else None)"

lemma mib_divisor_overflows: "mib_divisor timeout = None \<longleftrightarrow> timeout < - 2048 \<or> 2048 \<le> timeout"
  by (auto simp: mib_divisor_def Let_def)

definition handleTimeout :: "pp_client \<Rightarrow> pp_client" where
  "handleTimeout c = c\<lparr>warnings := warnings c @ [StopWarning], sessions := map sess_stop (sessions c)\<rparr>"

text \<open>\<open>Session::onConnection\<close>: what the session sends, and the client afterwards.\<close>

definition onConnection :: "bool \<Rightarrow> pp_client \<Rightarrow> bytes \<times> pp_client" where
  "onConnection connected c = (if connected then (cl_message c, onConnect c) else ([], onDisconnect c))"

text \<open>What \<open>main\<close> makes of its six arguments: the server's address and port and the client.\<close>

definition pp_client_main :: "string list \<Rightarrow> (string \<times> 16 word \<times> pp_client) option" where
  "pp_client_main argv =
     (if length argv \<noteq> 7 then None
      else Some (argv ! 1, word_of_int (atoi (argv ! 2)),
                 Client_ctor (atoi (argv ! 4)) (atoi (argv ! 5)) (atoi (argv ! 6)) (atoi (argv ! 3))))"

section \<open>Runs\<close>

text \<open>
  The callbacks in the order in which they happen. \<open>U\<close> is the set of sessions that are connected:
  a session connects when it is not, and has messages and disconnects when it is.
\<close>

inductive pp_run :: "pp_client \<Rightarrow> nat set \<Rightarrow> bytes list \<Rightarrow> pp_client \<Rightarrow> bool" for c0 where
  pp_start: "pp_run c0 {} [] c0"
| pp_up: "pp_run c0 U ms c \<Longrightarrow> i < length (sessions c) \<Longrightarrow> i \<notin> U \<Longrightarrow>
    pp_run c0 (insert i U) ms (snd (onConnection True c))"
| pp_message: "pp_run c0 U ms c \<Longrightarrow> i \<in> U \<Longrightarrow>
    pp_run c0 U (ms @ [m]) (c\<lparr>sessions := (sessions c)[i := fst (onMessage m (sessions c ! i))]\<rparr>)"
| pp_down: "pp_run c0 U ms c \<Longrightarrow> i \<in> U \<Longrightarrow> pp_run c0 (U - {i}) ms (snd (onConnection False c))"
| pp_timeout: "pp_run c0 U ms c \<Longrightarrow> pp_run c0 U ms (handleTimeout c)"

text \<open>The counters add up, and the atomic counter is the number of connected sessions.\<close>

definition ping_inv :: "int \<Rightarrow> nat set \<Rightarrow> bytes list \<Rightarrow> pp_client \<Rightarrow> bool" where
  "ping_inv n U ms c \<longleftrightarrow> sessionCount c = n \<and> length (sessions c) = nat n \<and> U \<subseteq> {..<nat n} \<and>
     numConnected c = word_of_nat (card U) \<and>
     (\<Sum>s\<leftarrow>sessions c. bytesRead s) = word_of_nat (length (concat ms)) \<and>
     (\<Sum>s\<leftarrow>sessions c. messagesRead s) = word_of_nat (length ms) \<and>
     (\<forall>s \<in> set (sessions c). bytesWritten s = bytesRead s)"

lemma sum_list_upd:
  fixes f :: "'a \<Rightarrow> 'b :: ab_group_add"
  shows "i < length xs \<Longrightarrow> sum_list (map f (xs[i := x])) = sum_list (map f xs) + (f x - f (xs ! i))"
  by (induction xs arbitrary: i) (auto simp: algebra_simps split: nat.split)

lemma ping_inv_start: "0 \<le> n \<Longrightarrow> ping_inv n {} [] (Client_ctor bs n t th)"
proof -
  have "(\<Sum>x\<leftarrow>xs. 0 :: 64 word) = 0" for xs :: "nat list" by (induction xs) simp_all
  then show "0 \<le> n \<Longrightarrow> ping_inv n {} [] (Client_ctor bs n t th)"
    by (auto simp: ping_inv_def Client_ctor_def sess_start_def Session_ctor_def comp_def)
qed

lemma card_minus_one:
  assumes "finite U" "i \<in> U"
  shows "word_of_nat (card U) - 1 = (word_of_nat (card (U - {i})) :: 32 word)"
proof -
  have "card U = Suc (card (U - {i}))" using assms by (rule card.remove)
  then show ?thesis by simp
qed

lemma ping_inv_run:
  assumes "pp_run c0 U ms c" "ping_inv n {} [] c0"
  shows "ping_inv n U ms c"
  using assms
proof (induction rule: pp_run.induct)
  case (pp_up U ms c i)
  then have inv: "ping_inv n U ms c" by blast
  then have "finite U" unfolding ping_inv_def by (meson finite_lessThan finite_subset)
  then have "card (insert i U) = Suc (card U)" using pp_up(3) by simp
  then have "numConnected c + 1 = word_of_nat (card (insert i U))" using inv by (simp add: ping_inv_def)
  then show ?case using inv pp_up(2) by (simp add: ping_inv_def onConnection_def onConnect_def Let_def)
next
  case (pp_message U ms c i m)
  then have i: "i < length (sessions c)" by (auto simp: ping_inv_def)
  let ?s = "fst (onMessage m (sessions c ! i))"
  have s: "bytesRead ?s - bytesRead (sessions c ! i) = word_of_nat (length m)"
    "messagesRead ?s - messagesRead (sessions c ! i) = 1"
    by (simp_all add: onMessage_def Let_def)
  have inv: "ping_inv n U ms c" using pp_message by blast
  have "bytesWritten (sessions c ! i) = bytesRead (sessions c ! i)" using inv i by (simp add: ping_inv_def)
  then have "bytesWritten ?s = bytesRead ?s" by (simp add: onMessage_def Let_def)
  then have "\<forall>s \<in> set ((sessions c)[i := ?s]). bytesWritten s = bytesRead s"
    using inv set_update_subset_insert [of "sessions c" i ?s] by (auto simp: ping_inv_def)
  then show ?case using inv sum_list_upd [OF i, of bytesRead ?s] sum_list_upd [OF i, of messagesRead ?s] unfolding s(1,2)
    by (simp add: ping_inv_def algebra_simps)
next
  case (pp_down U ms c i)
  then have inv: "ping_inv n U ms c" by blast
  then have "finite U" unfolding ping_inv_def by (meson finite_lessThan finite_subset)
  then have "numConnected c - 1 = word_of_nat (card (U - {i}))"
    using card_minus_one [of U i] pp_down(2) inv by (simp add: ping_inv_def)
  then show ?case using inv by (auto simp: ping_inv_def onConnection_def onDisconnect_def Let_def)
next
  case (pp_timeout U ms c)
  then show ?case by (simp add: ping_inv_def handleTimeout_def sess_stop_def comp_def)
qed simp

lemma foldl_sum: "foldl (\<lambda>t s. t + f s) (a :: 'b :: comm_monoid_add) xs = a + sum_list (map f xs)"
  by (induction xs arbitrary: a) (simp_all add: algebra_simps)

section \<open>Properties\<close>

text \<open>
  C32. The report of the load generator is right: after every run from the start, with fewer than
  \<open>2^31\<close> sessions, the disconnection of a session makes the client report and quit exactly when it
  was the last connected one, and what it reports is the number of bytes and of messages all
  sessions have received, modulo \<open>2^64\<close>. What was received has been sent back.
\<close>

theorem pingpong_totals:
  assumes "pp_run (Client_ctor bs n t th) U ms c" "i \<in> U" "0 \<le> n" "n < 2 ^ 31"
  shows "(let c' = snd (onConnection False c) in
    (if U = {i} then loop_quit c' \<and> warnings c' = warnings c @ [AllDisconnected (word_of_nat (length (concat ms))) (word_of_nat (length ms))]
     else loop_quit c' = loop_quit c \<and> warnings c' = warnings c)) \<and>
    (\<forall>s \<in> set (sessions c). bytesWritten s = bytesRead s)"
proof -
  have inv: "ping_inv n U ms c" using ping_inv_run [OF assms(1) ping_inv_start [OF assms(3)]] .
  then have "U \<subseteq> {..<nat n}" by (simp add: ping_inv_def)
  then have U: "finite U" "card U \<le> nat n" using finite_subset card_mono [of "{..<nat n}" U] by auto
  have "numConnected c - 1 = word_of_nat (card (U - {i}))"
    using inv card_minus_one [OF U(1) assms(2)] by (simp add: ping_inv_def)
  moreover have "card (U - {i}) < 2 ^ 32" using U assms(4) card_Diff1_le [of U i] by simp
  ultimately have "numConnected c - 1 = 0 \<longleftrightarrow> card (U - {i}) = 0"
    using word_of_nat_eq_0_iff [where 'a = 32, of "card (U - {i})"] by (auto dest: nat_dvd_not_less [rotated 2])
  also have "\<dots> \<longleftrightarrow> U - {i} = {}" using U(1) by (intro card_0_eq) simp
  also have "\<dots> \<longleftrightarrow> U = {i}" using assms(2) by auto
  finally have z: "numConnected c - 1 = 0 \<longleftrightarrow> U = {i}" .
  have sums: "foldl (\<lambda>t s. t + bytesRead s) 0 (sessions c) = word_of_nat (length (concat ms))"
    "foldl (\<lambda>t s. t + messagesRead s) 0 (sessions c) = word_of_nat (length ms)"
    "\<forall>s \<in> set (sessions c). bytesWritten s = bytesRead s"
    using inv by (simp_all add: ping_inv_def foldl_sum)
  show ?thesis
  proof (cases "U = {i}")
    case True
    then show ?thesis using z sums by (simp add: onConnection_def onDisconnect_def Let_def)
  next
    case False
    then show ?thesis using z sums(3) by (simp add: onConnection_def onDisconnect_def Let_def)
  qed
qed

text \<open>Two sessions: the first connects, gets two messages and is about to disconnect.\<close>

theorem pingpong_totals_witness:
  "\<exists>c. pp_run (Client_ctor 4 2 10 1) {0} [''ab'', ''c''] c \<and> loop_quit (snd (onConnection False c)) \<and>
     warnings (snd (onConnection False c)) = warnings c @ [AllDisconnected 3 2]"
proof -
  let ?c = "Client_ctor 4 2 10 1"
  have len: "length (sessions ?c) = 2" by (simp add: Client_ctor_def)
  have "pp_run ?c {0} [] (snd (onConnection True ?c))" using pp_up [OF pp_start, of 0 ?c] len by simp
  from pp_message [OF pp_message [OF this, of 0 "''ab''"], of 0 "''c''"]
  obtain c where c: "pp_run ?c {0} [''ab'', ''c''] c" by auto
  then show ?thesis using pingpong_totals [OF c, of 0] by (auto simp: Let_def)
qed

text \<open>
  The client stops as soon as no session is connected, even if some have not connected yet:
  with two sessions, one that connects and disconnects before the other ends the program.
\<close>

lemma pingpong_stops_early:
  "\<exists>c. pp_run (Client_ctor 4 2 10 1) {} [] c \<and> loop_quit c \<and> AllConnected \<notin> set (warnings c)"
proof -
  let ?c = "Client_ctor 4 2 10 1"
  have len: "length (sessions ?c) = 2" by (simp add: Client_ctor_def)
  have "pp_run ?c {0} [] (snd (onConnection True ?c))" using pp_up [OF pp_start, of 0 ?c] len by simp
  from pp_down [OF this, of 0] have "pp_run ?c {} [] (snd (onConnection False (snd (onConnection True ?c))))" by simp
  moreover have "loop_quit (snd (onConnection False (snd (onConnection True ?c))))"
    "AllConnected \<notin> set (warnings (snd (onConnection False (snd (onConnection True ?c)))))"
    by (simp_all add: onConnection_def onConnect_def onDisconnect_def Client_ctor_def Let_def)
  ultimately show ?thesis by blast
qed

end
