(* ===== verification/Log_Stream.thy ===== *)
theory Log_Stream
  imports Net_Prelude "HOL-Library.Sublist"
begin

text \<open>
  The logging front end: \<open>FixedBuffer\<close> and \<open>LogStream\<close> (\<^verbatim>\<open>include/log_stream.h\<close>,
  \<^verbatim>\<open>src/log_stream.cc\<close>), \<open>TimeStamp\<close> (\<^verbatim>\<open>src/time_stamp.cc\<close>) and \<open>Logger\<close>
  (\<^verbatim>\<open>include/logger.h\<close>, \<^verbatim>\<open>src/logger.cc\<close>): how one log line is put together and handed to the
  output function. Where the source reads memory it does not own (a \<open>char\<close> that is printed as a
  C string, the thread id behind a dangling pointer), what is found there is an argument.
\<close>

section \<open>Fixed buffers\<close>

definition kSmallBufferSize :: nat where "kSmallBufferSize = 4000"
definition kBigBufferSize :: nat where "kBigBufferSize = 4000 * 1000"

text \<open>The bytes before \<open>cur_\<close>, and the template's \<open>SIZE\<close>.\<close>

record fixed_buffer =
  fb_size :: nat
  fb_data :: bytes

definition FixedBuffer_ctor :: "nat \<Rightarrow> fixed_buffer" where
  "FixedBuffer_ctor sz = \<lparr>fb_size = sz, fb_data = []\<rparr>"

definition Avail :: "fixed_buffer \<Rightarrow> int" where
  "Avail b = int (fb_size b) - int (length (fb_data b))"

definition Length :: "fixed_buffer \<Rightarrow> nat" where
  "Length b = length (fb_data b)"

definition Reset :: "fixed_buffer \<Rightarrow> fixed_buffer" where
  "Reset b = b\<lparr>fb_data := []\<rparr>"

definition fb_append :: "bytes \<Rightarrow> fixed_buffer \<Rightarrow> fixed_buffer" where
  "fb_append data b = (if int (length data) < Avail b then b\<lparr>fb_data := fb_data b @ data\<rparr> else b)"

definition fb_inv :: "fixed_buffer \<Rightarrow> bool" where
  "fb_inv b \<longleftrightarrow> length (fb_data b) < fb_size b"

lemma fb_append_inv: "fb_inv b \<Longrightarrow> fb_inv (fb_append data b)"
  by (auto simp: fb_inv_def fb_append_def Avail_def)

lemma fb_append_size [simp]: "fb_size (fb_append data b) = fb_size b"
  by (simp add: fb_append_def)

section \<open>The stream\<close>

definition log_string :: "string \<Rightarrow> fixed_buffer \<Rightarrow> fixed_buffer" where
  "log_string s b = fb_append s b"

definition log_cstr :: "string option \<Rightarrow> fixed_buffer \<Rightarrow> fixed_buffer" where
  "log_cstr s b = (case s of Some t \<Rightarrow> fb_append t b | None \<Rightarrow> fb_append ''(null)'' b)"

definition log_int32 :: "cint \<Rightarrow> fixed_buffer \<Rightarrow> fixed_buffer" where
  "log_int32 t b = fb_append (int_to_string (sint t)) b"

definition log_int64 :: "64 word \<Rightarrow> fixed_buffer \<Rightarrow> fixed_buffer" where
  "log_int64 t b = fb_append (int_to_string (sint t)) b"

text \<open>\<open>to_string\<close> is \<open>std::to_string\<close> on floating-point numbers, whose type is left open.\<close>

definition log_float :: "('f \<Rightarrow> string) \<Rightarrow> 'f \<Rightarrow> fixed_buffer \<Rightarrow> fixed_buffer" where
  "log_float to_string t b = fb_append (to_string t) b"

definition log_double :: "('d \<Rightarrow> string) \<Rightarrow> 'd \<Rightarrow> fixed_buffer \<Rightarrow> fixed_buffer" where
  "log_double to_string t b = fb_append (to_string t) b"

definition log_bool :: "bool \<Rightarrow> fixed_buffer \<Rightarrow> fixed_buffer" where
  "log_bool t b = (if t then fb_append (take 5 ''true '') b else fb_append (take 6 '' false '') b)"

text \<open>
  A \<open>char\<close> is stored in an array of one element without terminator and printed as a C string:
  \<open>tail\<close> is what lies behind the array, up to the next null byte.
\<close>

definition log_char :: "string \<Rightarrow> char \<Rightarrow> fixed_buffer \<Rightarrow> fixed_buffer" where
  "log_char tail t b = log_cstr (Some (if t = CHR 0x00 then [] else t # tail)) b"

definition log_T :: "string \<Rightarrow> nat \<Rightarrow> fixed_buffer \<Rightarrow> fixed_buffer res" where
  "log_T data len b = (if length data = len then Inr (fb_append (take len data) b) else Inl AssertFailed)"

section \<open>Time stamps\<close>

record tm =
  tm_year :: int
  tm_mon :: int
  tm_mday :: int
  tm_hour :: int
  tm_min :: int
  tm_sec :: int

text \<open>A time stamp is its one member, in spite of its name a number of seconds.\<close>

definition TimeStamp_ctor :: int where
  "TimeStamp_ctor = 0"

definition TimeStamp_of :: "int \<Rightarrow> int" where
  "TimeStamp_of t = t"

definition TimeStamp_Now :: "int \<Rightarrow> int" where
  "TimeStamp_Now t = TimeStamp_of t"

definition pad :: "char \<Rightarrow> nat \<Rightarrow> int \<Rightarrow> string" where
  "pad c n i = (let s = int_to_string i in replicate (n - length s) c @ s)"

text \<open>\<open>localtime\<close> turns the stored number of seconds into the broken-down time.\<close>

definition TimeToString :: "(int \<Rightarrow> tm) \<Rightarrow> int \<Rightarrow> string" where
  "TimeToString localtime ts =
     (let t = localtime ts in
      take 127 (pad CHR '' '' 4 (tm_year t + 1900) @ ''/'' @ pad CHR ''0'' 2 (tm_mon t + 1) @ ''/'' @
        pad CHR ''0'' 2 (tm_mday t) @ '' '' @ pad CHR ''0'' 2 (tm_hour t) @ '':'' @
        pad CHR ''0'' 2 (tm_min t) @ '':'' @ pad CHR ''0'' 2 (tm_sec t)))"

section \<open>The logger\<close>

datatype log_level = TRACE | DEBUG | INFO | WARN | ERROR | FATAL

fun LogLevelName :: "log_level \<Rightarrow> string" where
  "LogLevelName TRACE = ''[TRACE]: ''"
| "LogLevelName DEBUG = ''[DEBUG]: ''"
| "LogLevelName INFO = ''[INFO]:  ''"
| "LogLevelName WARN = ''[WARN]:  ''"
| "LogLevelName ERROR = ''[ERROR]: ''"
| "LogLevelName FATAL = ''[FATAL]: ''"

record log_impl =
  impl_stream :: fixed_buffer
  impl_level :: log_level
  impl_line :: cint
  impl_filename :: string

text \<open>\<open>temp\<close> is what the dangling pointer to the thread id's text designates.\<close>

definition Impl_ctor :: "string \<Rightarrow> string \<Rightarrow> log_level \<Rightarrow> string \<Rightarrow> cint \<Rightarrow> log_impl res" where
  "Impl_ctor temp now_text level filename line =
     res_bind (log_T temp (length temp) (FixedBuffer_ctor kSmallBufferSize)) (\<lambda>b.
     res_bind (log_T (LogLevelName level) 9 (log_cstr (Some '' '') (log_string now_text (log_cstr (Some '' '') b)))) (\<lambda>b1.
       Inr \<lparr>impl_stream = log_cstr (Some '' '') b1, impl_level = level, impl_line = line, impl_filename = filename\<rparr>))"

text \<open>The constructor with a function name, used by \<open>LOG_TRACE\<close> and \<open>LOG_DEBUG\<close>.\<close>

definition Logger_func_ctor ::
  "string \<Rightarrow> string \<Rightarrow> string \<Rightarrow> log_level \<Rightarrow> string \<Rightarrow> cint \<Rightarrow> string \<Rightarrow> log_impl res" where
  "Logger_func_ctor tail temp now_text level filename line func =
     res_bind (Impl_ctor temp now_text level filename line) (\<lambda>l.
       Inr (l\<lparr>impl_stream := log_char tail CHR '' '' (log_cstr (Some func) (impl_stream l))\<rparr>))"

definition Finish :: "string \<Rightarrow> log_impl \<Rightarrow> log_impl" where
  "Finish tail l =
     l\<lparr>impl_stream := log_cstr (Some [CHR 0x0A]) (log_int32 22 (log_char tail CHR '':''
        (log_cstr (Some (impl_filename l)) (log_cstr (Some '' - '') (impl_stream l)))))\<rparr>"

text \<open>The destructor: what is given to \<open>g_output\<close>, and whether the process aborts.\<close>

definition Logger_dtor :: "string \<Rightarrow> log_impl \<Rightarrow> bytes \<times> bool" where
  "Logger_dtor tail l = (let l1 = Finish tail l in (fb_data (impl_stream l1), impl_level l1 = FATAL))"

section \<open>Properties\<close>

text \<open>
  Pieces written to a stream are kept whole and in order or dropped whole, and the
  buffer never overflows: one byte always stays free.
\<close>

theorem stream_pieces:
  assumes "fb_inv b"
  shows "\<exists>kept. subseq kept pieces \<and> fb_data (fold fb_append pieces b) = fb_data b @ concat kept \<and>
    length (fb_data (fold fb_append pieces b)) < fb_size b"
  using assms
proof (induction pieces arbitrary: b)
  case Nil
  then show ?case by (auto simp: fb_inv_def)
next
  case (Cons d ds)
  obtain kept where k: "subseq kept ds" "fb_data (fold fb_append ds (fb_append d b)) = fb_data (fb_append d b) @ concat kept"
    "length (fb_data (fold fb_append ds (fb_append d b))) < fb_size b"
    using Cons.IH [of "fb_append d b"] fb_append_inv [OF Cons.prems, of d] by auto
  show ?case
  proof (cases "int (length d) < Avail b")
    case True
    then have e: "fb_append d b = b\<lparr>fb_data := fb_data b @ d\<rparr>" by (simp add: fb_append_def)
    show ?thesis using k unfolding e by (intro exI [of _ "d # kept"]) (simp add: e)
  next
    case False
    then have e: "fb_append d b = b" by (simp add: fb_append_def)
    show ?thesis using k unfolding e by (intro exI [of _ kept]) (auto simp: e)
  qed
qed

theorem stream_pieces_witness:
  "\<exists>kept. subseq kept [''ab'', ''cde'', ''f''] \<and>
    fb_data (fold fb_append [''ab'', ''cde'', ''f''] (FixedBuffer_ctor 5)) = concat kept \<and>
    length (fb_data (fold fb_append [''ab'', ''cde'', ''f''] (FixedBuffer_ctor 5))) < 5"
  using stream_pieces [of "FixedBuffer_ctor 5" "[''ab'', ''cde'', ''f'']"]
  by (simp add: FixedBuffer_ctor_def fb_inv_def)

lemma fb_append_fits:
  "length (fb_data b) + length d < fb_size b \<Longrightarrow> fb_append d b = b\<lparr>fb_data := fb_data b @ d\<rparr>"
  by (simp add: fb_append_def Avail_def)

end
