(* ===== verification/Log_File.thy ===== *)
theory Log_File
  imports Log_Stream
begin

text \<open>
  \<open>AppendFile\<close> and \<open>LogFile\<close> (\<^verbatim>\<open>include/log_file.h\<close>, \<^verbatim>\<open>src/log_file.cc\<close>): the file the log goes
  to, rolled by size and by day. The results of \<open>fwrite_unlocked\<close> with the following \<open>ferror\<close>,
  of \<open>fopen\<close>, of \<open>time\<close> and of \<open>gmtime_r\<close> are arguments. \<open>time_t\<close> and \<open>long\<close> values are \<open>int\<close>; times
  are not negative, so that C++ division is \<open>div\<close>.
\<close>

section \<open>The appending file\<close>

text \<open>
  \<open>af_content\<close> is what was given to the stream \<open>fp_\<close>, \<open>af_synced\<close> how much of it an explicit
  \<open>fflush\<close> or \<open>fclose\<close> pushed out of the stream's buffer.
\<close>

record append_file =
  af_name :: string
  af_content :: bytes
  af_synced :: nat
  written_bytes :: int

definition AppendFile_ctor :: "bool \<Rightarrow> string \<Rightarrow> append_file res" where
  "AppendFile_ctor opened filename =
     (if opened then Inr \<lparr>af_name = filename, af_content = [], af_synced = 0, written_bytes = 0\<rparr>
      else Inl AssertFailed)"

definition AppendFile_dtor :: "append_file \<Rightarrow> append_file" where
  "AppendFile_dtor f = f\<lparr>af_synced := length (af_content f)\<rparr>"

definition af_Flush :: "append_file \<Rightarrow> append_file" where
  "af_Flush f = f\<lparr>af_synced := length (af_content f)\<rparr>"

definition af_Write :: "nat \<Rightarrow> bytes \<Rightarrow> append_file \<Rightarrow> append_file" where
  "af_Write n log_line f = f\<lparr>af_content := af_content f @ take n log_line\<rparr>"

text \<open>
  The loop of \<open>Append\<close> over the results of the calls it makes: the number of bytes taken and
  whether \<open>ferror\<close> reports an error. It has not returned when the results run out.
\<close>

type_synonym fwrite_result = "nat \<times> bool"

fun append_loop :: "fwrite_result list \<Rightarrow> bytes \<Rightarrow> nat \<Rightarrow> append_file \<Rightarrow> (nat \<times> append_file) option" where
  "append_loop ws log_line wr f =
     (if length log_line = wr then Some (wr, f)
      else case ws of
        [] \<Rightarrow> None
      | (n, err) # ws' \<Rightarrow>
          let remain = length log_line - wr; f1 = af_Write n (drop wr log_line) f in
          if n \<noteq> remain \<and> err then Some (wr, f1) else append_loop ws' log_line (wr + n) f1)"

declare append_loop.simps [simp del]

definition af_Append :: "fwrite_result list \<Rightarrow> bytes \<Rightarrow> append_file \<Rightarrow> append_file option" where
  "af_Append ws log_line f =
     (case append_loop ws log_line 0 f of
        None \<Rightarrow> None
      | Some (wr, f1) \<Rightarrow> Some (f1\<lparr>written_bytes := written_bytes f1 + int wr\<rparr>))"

section \<open>The rolled file\<close>

text \<open>\<open>closed\<close> holds the files that \<open>file_.reset\<close> destroyed, oldest first.\<close>

record log_file =
  base_name :: string
  roll_size :: int
  check_every_n :: int
  flush_interval :: int
  lf_count :: int
  start_of_period :: int
  last_flush :: int
  last_roll :: int
  file_ptr :: "append_file option"
  closed :: "append_file list"

definition kRollPerSeconds :: int where
  "kRollPerSeconds = 60 * 60 * 24"

text \<open>What the system answers: \<open>gmtime_r\<close>, \<open>getpid\<close>, the results of \<open>time\<close> and whether \<open>fopen\<close> works.\<close>

record sys =
  gmtime :: "int \<Rightarrow> tm"
  pid :: int
  time_check :: int
  time_roll :: int
  can_open :: bool

definition GetLogFileName :: "sys \<Rightarrow> string \<Rightarrow> string \<times> int" where
  "GetLogFileName y basename =
     (let now = time_roll y; t = gmtime y now;
          timebuf = ''.'' @ int_to_string (tm_year t + 1900) @ pad CHR ''0'' 2 (tm_mon t + 1) @ pad CHR ''0'' 2 (tm_mday t) @
            ''-'' @ pad CHR ''0'' 2 (tm_hour t) @ pad CHR ''0'' 2 (tm_min t) @ pad CHR ''0'' 2 (tm_sec t) @ ''.'';
          pidbuf = ''.'' @ int_to_string (pid y)
      in (basename @ timebuf @ pidbuf @ ''.log'', now))"

definition RollFile :: "sys \<Rightarrow> log_file \<Rightarrow> (bool \<times> log_file) res" where
  "RollFile y l =
     (let (file_name, now) = GetLogFileName y (base_name l);
          start = now div kRollPerSeconds * kRollPerSeconds in
      if last_roll l < now
      then let l1 = l\<lparr>last_roll := now, last_flush := now, start_of_period := start\<rparr> in
           res_bind (AppendFile_ctor (can_open y) file_name) (\<lambda>f.
             Inr (True, l1\<lparr>file_ptr := Some f,
               closed := closed l1 @ (case file_ptr l1 of None \<Rightarrow> [] | Some g \<Rightarrow> [AppendFile_dtor g])\<rparr>))
      else Inr (False, l))"

definition LogFile_ctor :: "sys \<Rightarrow> string \<Rightarrow> int \<Rightarrow> int \<Rightarrow> int \<Rightarrow> log_file res" where
  "LogFile_ctor y basename rs interval every =
     res_bind (RollFile y \<lparr>base_name = basename, roll_size = rs, check_every_n = every, flush_interval = interval,
         lf_count = 0, start_of_period = 0, last_flush = 0, last_roll = 0, file_ptr = None, closed = []\<rparr>)
       (\<lambda>(_, l). Inr l)"

definition lf_Flush :: "log_file \<Rightarrow> log_file res" where
  "lf_Flush l = (case file_ptr l of None \<Rightarrow> Inl NullDeref | Some f \<Rightarrow> Inr (l\<lparr>file_ptr := Some (af_Flush f)\<rparr>))"

text \<open>
  The decision after the bytes are written. The last \<open>else\<close> belongs to the inner \<open>if\<close>, the one on
  the result of \<open>RollFile\<close>.
\<close>

definition roll_or_flush :: "sys \<Rightarrow> append_file \<Rightarrow> log_file \<Rightarrow> log_file res" where
  "roll_or_flush y f l =
     (if roll_size l < written_bytes f then res_bind (RollFile y l) (\<lambda>(_, l1). Inr l1)
      else
        let l1 = l\<lparr>lf_count := lf_count l + 1\<rparr> in
        if check_every_n l1 \<le> lf_count l1
        then
          let l2 = l1\<lparr>lf_count := 0\<rparr>; now = time_check y;
              this_period = now div kRollPerSeconds * kRollPerSeconds in
          if this_period \<noteq> start_of_period l2
          then res_bind (RollFile y l2) (\<lambda>(rolled, l3).
                 if rolled then Inr l3
                 else if flush_interval l3 < now - last_flush l3
                 then lf_Flush (l3\<lparr>last_flush := now\<rparr>)
                 else Inr l3)
          else Inr l2
        else Inr l1)"

definition AppendUnlocked :: "sys \<Rightarrow> fwrite_result list \<Rightarrow> bytes \<Rightarrow> log_file \<Rightarrow> log_file res option" where
  "AppendUnlocked y ws logline l =
     (case file_ptr l of
        None \<Rightarrow> Some (Inl NullDeref)
      | Some f \<Rightarrow>
          (case af_Append ws logline f of
             None \<Rightarrow> None
           | Some f1 \<Rightarrow> Some (roll_or_flush y f1 (l\<lparr>file_ptr := Some f1\<rparr>))))"

section \<open>Runs\<close>

type_synonym log_request = "sys \<times> fwrite_result list \<times> bytes"

fun lf_run :: "log_request list \<Rightarrow> log_file \<Rightarrow> log_file res option" where
  "lf_run [] l = Some (Inr l)"
| "lf_run ((y, ws, line) # rs) l =
     (case AppendUnlocked y ws line l of
        Some (Inr l1) \<Rightarrow> lf_run rs l1
      | r \<Rightarrow> r)"

definition file_content :: "log_file \<Rightarrow> bytes" where
  "file_content l = (case file_ptr l of None \<Rightarrow> [] | Some f \<Rightarrow> af_content f)"

definition all_content :: "log_file \<Rightarrow> bytes" where
  "all_content l = concat (map af_content (closed l)) @ file_content l"

text \<open>\<open>fwrite\<close> takes the whole line in one call.\<close>

definition whole_write :: "log_request \<Rightarrow> bool" where
  "whole_write r = (case r of (y, ws, line) \<Rightarrow> can_open y \<and> ws \<noteq> [] \<and> fst (hd ws) = length line)"

text \<open>The clock does not go back.\<close>

fun clock_from :: "int \<Rightarrow> log_request list \<Rightarrow> bool" where
  "clock_from t [] = True"
| "clock_from t ((y, ws, line) # rs) = (t \<le> time_check y \<and> time_check y \<le> time_roll y \<and> clock_from (time_roll y) rs)"

section \<open>Lemmas\<close>

lemma append_loop_done [simp]: "append_loop ws line (length line) f = Some (length line, f)"
  by (subst append_loop.simps) simp

lemma af_Append_whole:
  assumes "ws \<noteq> []" "fst (hd ws) = length line"
  shows "af_Append ws line f = Some (f\<lparr>af_content := af_content f @ line, written_bytes := written_bytes f + int (length line)\<rparr>)"
proof (cases "line = []")
  case True
  then show ?thesis using append_loop_done [of ws line f] by (simp add: af_Append_def)
next
  case False
  obtain err ws' where ws: "ws = (length line, err) # ws'" using assms by (cases ws) auto
  have "append_loop ws line 0 f = append_loop ws' line (length line) (af_Write (length line) line f)"
    unfolding ws using False by (subst append_loop.simps) (simp add: Let_def)
  then show ?thesis by (simp add: af_Append_def af_Write_def)
qed

lemma append_loop_frame:
  "append_loop ws line wr f = Some (k, f1) \<Longrightarrow> af_synced f1 = af_synced f \<and> af_name f1 = af_name f"
proof (induction ws arbitrary: wr f)
  case Nil
  then show ?case by (subst (asm) append_loop.simps) (simp split: if_splits)
next
  case (Cons w ws)
  from Cons.prems show ?case
    by (subst (asm) append_loop.simps)
      (auto simp: Let_def af_Write_def split: if_splits prod.splits dest!: Cons.IH)
qed

lemma af_Append_synced: "af_Append ws line f = Some f1 \<Longrightarrow> af_synced f1 = af_synced f"
  using append_loop_frame by (fastforce simp: af_Append_def split: option.splits prod.splits)

lemma RollFile_cases:
  assumes "can_open y"
  obtains "last_roll l < time_roll y" "RollFile y l = Inr (True, l\<lparr>last_roll := time_roll y, last_flush := time_roll y,
      start_of_period := time_roll y div kRollPerSeconds * kRollPerSeconds,
      file_ptr := Some \<lparr>af_name = fst (GetLogFileName y (base_name l)), af_content = [], af_synced = 0, written_bytes = 0\<rparr>,
      closed := closed l @ (case file_ptr l of None \<Rightarrow> [] | Some g \<Rightarrow> [AppendFile_dtor g])\<rparr>)"
  | "time_roll y \<le> last_roll l" "RollFile y l = Inr (False, l)"
proof (cases "last_roll l < time_roll y")
  case True
  then show ?thesis using assms by (intro that(1)) (simp_all add: RollFile_def GetLogFileName_def Let_def AppendFile_ctor_def)
next
  case False
  then show ?thesis using that(2) by (simp add: RollFile_def GetLogFileName_def Let_def)
qed

text \<open>Bytes are never lost by rolling or flushing; closed files are flushed.\<close>

definition store_inv :: "log_file \<Rightarrow> bool" where
  "store_inv l \<longleftrightarrow> (\<exists>f. file_ptr l = Some f \<and> written_bytes f = int (length (af_content f))) \<and>
     (\<forall>f \<in> set (closed l). af_synced f = length (af_content f))"

lemma RollFile_store:
  assumes "can_open y" "store_inv l"
  shows "\<exists>b l1. RollFile y l = Inr (b, l1) \<and> store_inv l1 \<and> all_content l1 = all_content l"
  using assms by (cases rule: RollFile_cases [OF assms(1), of l])
    (auto simp: store_inv_def all_content_def file_content_def AppendFile_dtor_def)

lemma store_frame [simp]:
  "store_inv (l\<lparr>lf_count := c\<rparr>) = store_inv l" "all_content (l\<lparr>lf_count := c\<rparr>) = all_content l"
  "store_inv (l\<lparr>last_flush := c\<rparr>) = store_inv l" "all_content (l\<lparr>last_flush := c\<rparr>) = all_content l"
  by (simp_all add: store_inv_def all_content_def file_content_def)

lemma lf_Flush_store: "store_inv l \<Longrightarrow> \<exists>l1. lf_Flush l = Inr l1 \<and> store_inv l1 \<and> all_content l1 = all_content l"
  by (auto simp: store_inv_def lf_Flush_def all_content_def file_content_def af_Flush_def)

lemma roll_or_flush_store:
  assumes "can_open y" "store_inv l"
  shows "\<exists>l1. roll_or_flush y f l = Inr l1 \<and> store_inv l1 \<and> all_content l1 = all_content l"
proof -
  obtain b l1 where r: "RollFile y l = Inr (b, l1)" "store_inv l1" "all_content l1 = all_content l"
    using RollFile_store [OF assms] by blast
  have "store_inv (l\<lparr>lf_count := lf_count l + 1, lf_count := 0\<rparr>)" using assms(2) by simp
  then obtain b2 l2 where r2: "RollFile y (l\<lparr>lf_count := lf_count l + 1, lf_count := 0\<rparr>) = Inr (b2, l2)" "store_inv l2"
    "all_content l2 = all_content l"
    using RollFile_store [OF assms(1)] by (metis store_frame(2))
  obtain l3 where l3: "lf_Flush (l2\<lparr>last_flush := time_check y\<rparr>) = Inr l3" "store_inv l3" "all_content l3 = all_content l"
    using lf_Flush_store [of "l2\<lparr>last_flush := time_check y\<rparr>"] r2 by auto
  show ?thesis using r r2 l3 assms(2) by (simp add: roll_or_flush_def Let_def)
qed

lemma AppendUnlocked_store:
  assumes "whole_write (y, ws, line)" "store_inv l"
  shows "\<exists>l1. AppendUnlocked y ws line l = Some (Inr l1) \<and> store_inv l1 \<and> all_content l1 = all_content l @ line"
proof -
  obtain f where f: "file_ptr l = Some f" "written_bytes f = int (length (af_content f))"
    using assms(2) by (auto simp: store_inv_def)
  define f1 where "f1 = f\<lparr>af_content := af_content f @ line, written_bytes := written_bytes f + int (length line)\<rparr>"
  have w: "af_Append ws line f = Some f1" using assms(1) by (simp add: af_Append_whole whole_write_def f1_def)
  have "store_inv (l\<lparr>file_ptr := Some f1\<rparr>)" "all_content (l\<lparr>file_ptr := Some f1\<rparr>) = all_content l @ line"
    using assms(2) f by (simp_all add: store_inv_def f1_def all_content_def file_content_def)
  moreover have "can_open y" using assms(1) by (simp add: whole_write_def)
  ultimately show ?thesis using roll_or_flush_store [of y "l\<lparr>file_ptr := Some f1\<rparr>" f1] w f(1)
    by (auto simp: AppendUnlocked_def)
qed

lemma lf_run_store:
  "\<forall>r \<in> set rs. whole_write r \<Longrightarrow> store_inv l \<Longrightarrow>
   \<exists>l1. lf_run rs l = Some (Inr l1) \<and> store_inv l1 \<and> all_content l1 = all_content l @ concat (map (\<lambda>(y, ws, line). line) rs)"
proof (induction rs arbitrary: l)
  case (Cons r rs)
  obtain y ws line where r: "r = (y, ws, line)" by (cases r) auto
  have "whole_write (y, ws, line)" using Cons.prems(1) r by simp
  then obtain l1 where l1: "AppendUnlocked y ws line l = Some (Inr l1)" "store_inv l1" "all_content l1 = all_content l @ line"
    using AppendUnlocked_store Cons.prems(2) by blast
  obtain l2 where "lf_run rs l1 = Some (Inr l2)" "store_inv l2"
    "all_content l2 = all_content l1 @ concat (map (\<lambda>(y, ws, line). line) rs)"
    using Cons.IH [OF _ l1(2)] Cons.prems(1) by auto
  then show ?case using l1 r by simp
qed simp

text \<open>The flush time is the roll time, and the period is the one of the last roll.\<close>

definition roll_inv :: "log_file \<Rightarrow> bool" where
  "roll_inv l \<longleftrightarrow> last_flush l = last_roll l \<and> start_of_period l = last_roll l div kRollPerSeconds * kRollPerSeconds \<and>
     (\<exists>f. file_ptr l = Some f \<and> af_synced f = 0)"

lemma roll_inv_frame [simp]: "roll_inv (l\<lparr>lf_count := c\<rparr>) = roll_inv l"
  by (simp add: roll_inv_def)

lemma RollFile_roll_inv:
  "RollFile y l = Inr (b, l1) \<Longrightarrow> roll_inv l \<Longrightarrow> roll_inv l1 \<and> (if b then last_roll l1 = time_roll y else l1 = l \<and> time_roll y \<le> last_roll l)"
  by (auto simp: RollFile_def GetLogFileName_def Let_def roll_inv_def res_bind_eq_Inr AppendFile_ctor_def split: if_splits)

lemma roll_or_flush_roll_inv:
  assumes "roll_or_flush y f l = Inr l1" "roll_inv l" "last_roll l \<le> time_check y" "time_check y \<le> time_roll y"
  shows "roll_inv l1 \<and> last_roll l1 \<le> time_roll y"
proof -
  have dead: "rolled" if "RollFile y (l\<lparr>lf_count := 0\<rparr>) = Inr (rolled, l3)"
    "time_check y div kRollPerSeconds * kRollPerSeconds \<noteq> start_of_period l" for rolled l3
  proof (rule ccontr)
    assume "\<not> rolled"
    then have "time_roll y \<le> last_roll l" using RollFile_roll_inv [OF that(1)] assms(2) by simp
    then have "time_check y = last_roll l" using assms(3,4) by linarith
    then show False using that(2) assms(2) by (simp add: roll_inv_def)
  qed
  show ?thesis using assms dead RollFile_roll_inv [of y l] RollFile_roll_inv [of y "l\<lparr>lf_count := 0\<rparr>"]
    by (fastforce simp: roll_or_flush_def Let_def res_bind_eq_Inr split: if_splits)
qed

lemma lf_run_roll_inv:
  "lf_run rs l = Some (Inr l1) \<Longrightarrow> roll_inv l \<Longrightarrow> clock_from t rs \<Longrightarrow> last_roll l \<le> t \<Longrightarrow> roll_inv l1"
proof (induction rs arbitrary: l t)
  case (Cons r rs)
  obtain y ws line where r: "r = (y, ws, line)" by (cases r) auto
  obtain f where f: "file_ptr l = Some f" "af_synced f = 0" using Cons.prems(2) by (auto simp: roll_inv_def)
  obtain l2 f1 where l2: "af_Append ws line f = Some f1" "roll_or_flush y f1 (l\<lparr>file_ptr := Some f1\<rparr>) = Inr l2"
    "lf_run rs l2 = Some (Inr l1)"
    using Cons.prems(1) r f(1) by (auto simp: AppendUnlocked_def split: option.splits sum.splits)
  have "roll_inv (l\<lparr>file_ptr := Some f1\<rparr>)" using Cons.prems(2) f af_Append_synced [OF l2(1)] by (simp add: roll_inv_def)
  then have "roll_inv l2 \<and> last_roll l2 \<le> time_roll y"
    using roll_or_flush_roll_inv [OF l2(2)] Cons.prems(3,4) r by auto
  then show ?case using Cons.IH [OF l2(3)] Cons.prems(3) r by auto
qed simp

lemma LogFile_ctor_ok:
  assumes "can_open y" "0 < time_roll y"
  shows "\<exists>l. LogFile_ctor y b rs i n = Inr l \<and> store_inv l \<and> roll_inv l \<and> all_content l = [] \<and>
    last_roll l = time_roll y \<and> roll_size l = rs"
  using assms by (simp add: LogFile_ctor_def RollFile_def GetLogFileName_def Let_def AppendFile_ctor_def store_inv_def
      roll_inv_def all_content_def file_content_def)

section \<open>Properties\<close>

text \<open>
  Rolling the log file loses nothing: as long as \<open>fopen\<close> succeeds and \<open>fwrite\<close> takes each
  line, a log file that has been constructed takes any sequence of lines without a fault,
  whatever the clock does, and the files in the order of their creation hold exactly these
  lines; every file but the current one is flushed, and \<open>written_bytes_\<close> is the current file's
  length.
\<close>

theorem log_file_conservation:
  assumes "can_open y" "0 < time_roll y" "\<forall>r \<in> set rs. whole_write r"
  shows "\<exists>l0 l f. LogFile_ctor y base rsize ivl every = Inr l0 \<and> lf_run rs l0 = Some (Inr l) \<and>
    file_ptr l = Some f \<and>
    concat (map af_content (closed l @ [f])) = concat (map (\<lambda>(y, ws, line). line) rs) \<and>
    (\<forall>g \<in> set (closed l). af_synced g = length (af_content g)) \<and>
    written_bytes f = int (length (af_content f))"
proof -
  obtain l0 where l0: "LogFile_ctor y base rsize ivl every = Inr l0" "store_inv l0" "all_content l0 = []"
    using LogFile_ctor_ok [OF assms(1,2)] by blast
  obtain l where l: "lf_run rs l0 = Some (Inr l)" "store_inv l" "all_content l = concat (map (\<lambda>(y, ws, line). line) rs)"
    using lf_run_store [OF assms(3) l0(2)] l0(3) by auto
  then show ?thesis using l0(1) by (fastforce simp: store_inv_def all_content_def file_content_def)
qed

definition sys_at :: "int \<Rightarrow> sys" where
  "sys_at t = \<lparr>gmtime = \<lambda>_. \<lparr>tm_year = 124, tm_mon = 0, tm_mday = 1, tm_hour = 0, tm_min = 0, tm_sec = 0\<rparr>,
     pid = 42, time_check = t, time_roll = t, can_open = True\<rparr>"

definition two_lines :: "log_request list" where
  "two_lines = [(sys_at 100001, [(5, False)], ''first''), (sys_at 200000, [(6, False)], ''second'')]"

theorem log_file_conservation_witness:
  "\<exists>l0 l f. LogFile_ctor (sys_at 100000) ''app'' 1000 3 1 = Inr l0 \<and> lf_run two_lines l0 = Some (Inr l) \<and>
    file_ptr l = Some f \<and> concat (map af_content (closed l @ [f])) = ''firstsecond''"
proof -
  have "can_open (sys_at 100000)" "0 < time_roll (sys_at 100000)" "\<forall>r \<in> set two_lines. whole_write r"
    by (simp_all add: sys_at_def two_lines_def whole_write_def)
  from log_file_conservation [OF this, of "''app''" 1000 3 1] show ?thesis by (fastforce simp: two_lines_def)
qed

text \<open>
  The flush after \<open>flush_interval_\<close> seconds never happens: with a clock that does not go back,
  no sequence of appends, whatever \<open>fwrite\<close> returns, ever flushes the current file, because the
  branch that would is reached only when the day has changed and yet the file was not rolled.
\<close>

theorem interval_flush_dead:
  assumes "can_open y" "0 < time_roll y" "LogFile_ctor y base rsize ivl every = Inr l0"
    "clock_from (time_roll y) rs" "lf_run rs l0 = Some (Inr l)"
  shows "\<exists>f. file_ptr l = Some f \<and> af_synced f = 0 \<and> last_flush l = last_roll l"
proof -
  have "roll_inv l0" "last_roll l0 = time_roll y"
    using LogFile_ctor_ok [OF assms(1,2), of base rsize ivl every] assms(3) by auto
  then have "roll_inv l" using lf_run_roll_inv [OF assms(5) _ assms(4)] by simp
  then show ?thesis by (auto simp: roll_inv_def)
qed

theorem interval_flush_dead_witness:
  "\<exists>l f. lf_run [(sys_at 110000, [(4, False)], ''line'')]
       (projr (LogFile_ctor (sys_at 100000) ''app'' 1000 3 1)) = Some (Inr l) \<and>
     file_ptr l = Some f \<and> af_content f = ''line'' \<and> af_synced f = 0"
proof -
  let ?y = "sys_at 100000" and ?rs = "[(sys_at 110000, [(4, False)], ''line'')]"
  have y: "can_open ?y" "0 < time_roll ?y" "clock_from (time_roll ?y) ?rs" "\<forall>r \<in> set ?rs. whole_write r"
    by (simp_all add: sys_at_def whole_write_def)
  obtain l0 where l0: "LogFile_ctor ?y ''app'' 1000 3 1 = Inr l0" using LogFile_ctor_ok [OF y(1,2)] by blast
  have "\<exists>l. lf_run ?rs l0 = Some (Inr l) \<and> file_content l = ''line''"
  proof -
    have "l0 = projr (LogFile_ctor ?y ''app'' 1000 3 1)" using l0 by simp
    then show ?thesis
      by (simp add: LogFile_ctor_def RollFile_def GetLogFileName_def Let_def AppendFile_ctor_def sys_at_def
          AppendUnlocked_def af_Append_whole roll_or_flush_def kRollPerSeconds_def file_content_def)
  qed
  then obtain l where l: "lf_run ?rs l0 = Some (Inr l)" "file_content l = ''line''" by blast
  show ?thesis using interval_flush_dead [OF y(1,2) l0 y(3) l(1)] l l0 by (auto simp: file_content_def)
qed

end
