(* ===== verification/Async_Logging.thy ===== *)
theory Async_Logging
  imports Log_Stream
begin

text \<open>
  \<open>AsyncLogging\<close> (\<^verbatim>\<open>include/async_logging.h\<close>, \<^verbatim>\<open>src/async_logging.cc\<close>): front-end threads append
  messages to buffers under a mutex; one back-end thread swaps the full buffers out, writes
  them to the log file and gives two of them back. A \<open>unique_ptr\<close> is an \<open>option\<close>; using a null
  one is the fault \<open>NullDeref\<close>, a failing \<open>assert\<close> \<open>AssertFailed\<close>. The mutex makes \<open>Append\<close> and the
  swap atomic; everything else the back-end thread does is interleaved with appends.
\<close>

section \<open>The front end\<close>

record frontend =
  cur_buffer :: "fixed_buffer option"
  next_buffer :: "fixed_buffer option"
  buffer_to_write :: "fixed_buffer option list"
  running :: bool

definition new_big_buffer :: fixed_buffer where
  "new_big_buffer = FixedBuffer_ctor kBigBufferSize"

definition AsyncLogging_ctor :: frontend where
  "AsyncLogging_ctor = \<lparr>cur_buffer = Some new_big_buffer, next_buffer = Some new_big_buffer,
     buffer_to_write = [], running = False\<rparr>"

definition async_Append :: "bytes \<Rightarrow> frontend \<Rightarrow> frontend res" where
  "async_Append msg f =
     (case cur_buffer f of
        None \<Rightarrow> Inl NullDeref
      | Some c \<Rightarrow>
        if int (length msg) < Avail c
        then Inr (f\<lparr>cur_buffer := Some (fb_append msg c)\<rparr>)
        else (let f1 = f\<lparr>buffer_to_write := buffer_to_write f @ [Some c]\<rparr> in
              case next_buffer f1 of
                Some n \<Rightarrow> Inr (f1\<lparr>next_buffer := None, cur_buffer := Some (fb_append msg n)\<rparr>)
              | None \<Rightarrow> Inr (f1\<lparr>cur_buffer := Some (fb_append msg new_big_buffer)\<rparr>)))"

definition async_Start :: "frontend \<Rightarrow> frontend" where
  "async_Start f = f\<lparr>running := True\<rparr>"

definition async_Stop :: "frontend \<Rightarrow> frontend" where
  "async_Stop f = f\<lparr>running := False\<rparr>"

definition AsyncLogging_dtor :: "frontend \<Rightarrow> frontend" where
  "AsyncLogging_dtor f = (if running f then async_Stop f else f)"

section \<open>The back end\<close>

record backend =
  new_buffer1 :: "fixed_buffer option"
  new_buffer2 :: "fixed_buffer option"
  temp_buffer_vec :: "fixed_buffer option list"
  written :: bytes

definition back_init :: backend where
  "back_init = \<lparr>new_buffer1 = Some new_big_buffer, new_buffer2 = Some new_big_buffer,
     temp_buffer_vec = [], written = []\<rparr>"

definition is_empty_buffer :: "fixed_buffer option \<Rightarrow> bool" where
  "is_empty_buffer b = (case b of None \<Rightarrow> False | Some c \<Rightarrow> Length c = 0)"

text \<open>The asserts and the critical section of one turn, after the wait for \<open>cond_\<close>.\<close>

definition async_asserts :: "backend \<Rightarrow> unit res" where
  "async_asserts k =
     (if \<not> is_empty_buffer (new_buffer1 k) \<or> \<not> is_empty_buffer (new_buffer2 k) \<or> temp_buffer_vec k \<noteq> []
      then Inl AssertFailed else Inr ())"

definition async_swap :: "frontend \<Rightarrow> backend \<Rightarrow> frontend \<times> backend" where
  "async_swap f k =
     (let vec = buffer_to_write f @ [cur_buffer f];
          f1 = f\<lparr>buffer_to_write := temp_buffer_vec k, cur_buffer := new_buffer1 k\<rparr>;
          k1 = k\<lparr>temp_buffer_vec := vec, new_buffer1 := None\<rparr>
      in if next_buffer f1 = None
         then (f1\<lparr>next_buffer := new_buffer2 k1\<rparr>, k1\<lparr>new_buffer2 := None\<rparr>)
         else (f1, k1))"

text \<open>
  Writing the buffers out. With more than 25 of them the code erases a range whose end is an
  iterator of another vector.
\<close>

fun write_all :: "fixed_buffer option list \<Rightarrow> bytes \<Rightarrow> bytes res" where
  "write_all [] out = Inr out"
| "write_all (None # bs) out = Inl NullDeref"
| "write_all (Some b # bs) out = write_all bs (out @ fb_data b)"

definition async_write :: "backend \<Rightarrow> backend res" where
  "async_write k =
     (if 25 < length (temp_buffer_vec k) then Inl OutOfBounds
      else res_bind (write_all (temp_buffer_vec k) (written k)) (\<lambda>out. Inr (k\<lparr>written := out\<rparr>)))"

definition vec_back_reset :: "fixed_buffer option list \<Rightarrow> (fixed_buffer option \<times> fixed_buffer option list) res" where
  "vec_back_reset v =
     (if v = [] then Inl OutOfBounds
      else case last v of None \<Rightarrow> Inl NullDeref | Some b \<Rightarrow> Inr (Some (Reset b), butlast v))"

definition vec_resize_ptrs :: "nat \<Rightarrow> 'a option list \<Rightarrow> 'a option list" where
  "vec_resize_ptrs n v = take n v @ replicate (n - length v) None"

text \<open>
  Getting the two spare buffers back. \<open>size_now\<close> is \<open>buffer_to_write_.size()\<close>, read without the
  mutex: the front end may have filled buffers meanwhile.
\<close>

definition async_recycle :: "nat \<Rightarrow> backend \<Rightarrow> backend res" where
  "async_recycle size_now k =
     (let v = (if 2 < size_now then vec_resize_ptrs 2 (temp_buffer_vec k) else temp_buffer_vec k) in
      res_bind (if new_buffer1 k = None then vec_back_reset v else Inr (new_buffer1 k, v)) (\<lambda>(b1, v1).
      res_bind (if new_buffer2 k = None then vec_back_reset v1 else Inr (new_buffer2 k, v1)) (\<lambda>(b2, v2).
        Inr (k\<lparr>new_buffer1 := b1, new_buffer2 := b2, temp_buffer_vec := []\<rparr>))))"

section \<open>Interleaving\<close>

text \<open>
  Where the back end is: at the test of \<open>running_\<close>, in the loop body before the critical section
  (waiting for \<open>cond_\<close> or for the mutex; the wait ends by a notification, after five seconds or
  spuriously, so the swap may follow at any time), between swap and write, between write and
  recycling, or done. \<open>appended\<close> is what the front end was given.
\<close>

datatype back_phase = AtTest | Waiting | Swapped | Written | Stopped

record logging =
  fr :: frontend
  bk :: backend
  bphase :: back_phase
  appended :: bytes

definition logging_init :: logging where
  "logging_init = \<lparr>fr = async_Start AsyncLogging_ctor, bk = back_init, bphase = AtTest, appended = []\<rparr>"

inductive log_step :: "logging \<Rightarrow> logging \<Rightarrow> bool" where
  front_append: "length msg < kBigBufferSize \<Longrightarrow> async_Append msg (fr s) = Inr f \<Longrightarrow>
    log_step s (s\<lparr>fr := f, appended := appended s @ msg\<rparr>)"
| front_stop: "log_step s (s\<lparr>fr := async_Stop (fr s)\<rparr>)"
| front_dtor: "log_step s (s\<lparr>fr := AsyncLogging_dtor (fr s)\<rparr>)"
| back_test: "bphase s = AtTest \<Longrightarrow> running (fr s) \<Longrightarrow> async_asserts (bk s) = Inr () \<Longrightarrow>
    log_step s (s\<lparr>bphase := Waiting\<rparr>)"
| back_swap: "bphase s = Waiting \<Longrightarrow> async_swap (fr s) (bk s) = (f, k) \<Longrightarrow>
    log_step s (s\<lparr>fr := f, bk := k, bphase := Swapped\<rparr>)"
| back_write: "bphase s = Swapped \<Longrightarrow> async_write (bk s) = Inr k \<Longrightarrow>
    log_step s (s\<lparr>bk := k, bphase := Written\<rparr>)"
| back_recycle: "bphase s = Written \<Longrightarrow> async_recycle (length (buffer_to_write (fr s))) (bk s) = Inr k \<Longrightarrow>
    log_step s (s\<lparr>bk := k, bphase := AtTest\<rparr>)"
| back_stop: "bphase s = AtTest \<Longrightarrow> \<not> running (fr s) \<Longrightarrow> log_step s (s\<lparr>bphase := Stopped\<rparr>)"

inductive log_reachable :: "logging \<Rightarrow> bool" where
  log_start: "log_reachable logging_init"
| log_more: "log_reachable s \<Longrightarrow> log_step s t \<Longrightarrow> log_reachable t"

section \<open>Invariant\<close>

definition buf_bytes :: "fixed_buffer option \<Rightarrow> bytes" where
  "buf_bytes b = (case b of None \<Rightarrow> [] | Some c \<Rightarrow> fb_data c)"

definition good_buffer :: "fixed_buffer option \<Rightarrow> bool" where
  "good_buffer b = (case b of None \<Rightarrow> False | Some c \<Rightarrow> fb_size c = kBigBufferSize)"

definition waiting :: "logging \<Rightarrow> bytes" where
  "waiting s = (if bphase s = Swapped then concat (map buf_bytes (temp_buffer_vec (bk s))) else []) @
     concat (map buf_bytes (buffer_to_write (fr s))) @ buf_bytes (cur_buffer (fr s))"

text \<open>
  Every buffer in use exists; spare ones are empty; the second spare of the front end is away
  only after a full buffer was queued, so that the back end finds at least two buffers to
  give back.
\<close>

definition log_inv :: "logging \<Rightarrow> bool" where
  "log_inv s \<longleftrightarrow>
     written (bk s) @ waiting s = appended s \<and>
     good_buffer (cur_buffer (fr s)) \<and> (\<forall>b \<in> set (buffer_to_write (fr s)). good_buffer b) \<and>
     (\<forall>b \<in> set (temp_buffer_vec (bk s)). good_buffer b) \<and>
     (next_buffer (fr s) = None \<and> buffer_to_write (fr s) \<noteq> [] \<or>
      good_buffer (next_buffer (fr s)) \<and> is_empty_buffer (next_buffer (fr s))) \<and>
     (if bphase s = AtTest \<or> bphase s = Waiting \<or> bphase s = Stopped
      then good_buffer (new_buffer1 (bk s)) \<and> is_empty_buffer (new_buffer1 (bk s)) \<and>
           good_buffer (new_buffer2 (bk s)) \<and> is_empty_buffer (new_buffer2 (bk s)) \<and> temp_buffer_vec (bk s) = []
      else new_buffer1 (bk s) = None \<and> temp_buffer_vec (bk s) \<noteq> [] \<and>
           (new_buffer2 (bk s) = None \<and> 2 \<le> length (temp_buffer_vec (bk s)) \<or>
            good_buffer (new_buffer2 (bk s)) \<and> is_empty_buffer (new_buffer2 (bk s))))"

lemma good_bufferD: "good_buffer b \<Longrightarrow> \<exists>c. b = Some c \<and> fb_size c = kBigBufferSize"
  by (cases b) (simp_all add: good_buffer_def)

lemma empty_bufferD: "is_empty_buffer b \<Longrightarrow> \<exists>c. b = Some c \<and> fb_data c = []"
  by (cases b) (simp_all add: is_empty_buffer_def Length_def)

lemma new_big_buffer_simps [simp]: "fb_size new_big_buffer = kBigBufferSize" "fb_data new_big_buffer = []"
  by (simp_all add: new_big_buffer_def FixedBuffer_ctor_def)

lemma append_fresh:
  "fb_data n = [] \<Longrightarrow> fb_size n = kBigBufferSize \<Longrightarrow> length msg < kBigBufferSize \<Longrightarrow>
   fb_data (fb_append msg n) = msg \<and> fb_size (fb_append msg n) = kBigBufferSize"
  by (simp add: fb_append_def Avail_def)

text \<open>\<open>Append\<close> never faults; it adds the message to the front end's bytes and touches nothing else.\<close>

lemma async_Append_ok:
  assumes "good_buffer (cur_buffer f)" "length msg < kBigBufferSize"
    "next_buffer f = None \<and> buffer_to_write f \<noteq> [] \<or> good_buffer (next_buffer f) \<and> is_empty_buffer (next_buffer f)"
  shows "\<exists>f' c v. async_Append msg f = Inr f' \<and> good_buffer (cur_buffer f') \<and>
    cur_buffer f' = Some c \<and> buffer_to_write f' = buffer_to_write f @ v \<and> (\<forall>b \<in> set v. good_buffer b) \<and>
    concat (map buf_bytes v) @ fb_data c = buf_bytes (cur_buffer f) @ msg \<and>
    (next_buffer f' = None \<and> buffer_to_write f' \<noteq> [] \<or> good_buffer (next_buffer f') \<and> is_empty_buffer (next_buffer f')) \<and>
    running f' = running f"
proof -
  obtain c where c: "cur_buffer f = Some c" "fb_size c = kBigBufferSize" using good_bufferD [OF assms(1)] by blast
  show ?thesis
  proof (cases "int (length msg) < Avail c")
    case True
    then show ?thesis using c assms(3)
      by (intro exI [of _ "f\<lparr>cur_buffer := Some (fb_append msg c)\<rparr>"] exI [of _ "fb_append msg c"] exI [of _ "[]"])
        (simp add: async_Append_def good_buffer_def buf_bytes_def fb_append_def)
  next
    case False
    show ?thesis
    proof (cases "next_buffer f")
      case None
      let ?f = "f\<lparr>buffer_to_write := buffer_to_write f @ [Some c], cur_buffer := Some (fb_append msg new_big_buffer)\<rparr>"
      show ?thesis using c None False append_fresh [of new_big_buffer msg] assms(2)
        by (intro exI [of _ ?f] exI [of _ "fb_append msg new_big_buffer"] exI [of _ "[Some c]"])
          (simp add: async_Append_def good_buffer_def buf_bytes_def Let_def)
    next
      case (Some n)
      then have n: "fb_data n = []" "fb_size n = kBigBufferSize"
        using assms(3) by (auto simp: good_buffer_def is_empty_buffer_def Length_def)
      let ?f = "f\<lparr>buffer_to_write := buffer_to_write f @ [Some c], next_buffer := None, cur_buffer := Some (fb_append msg n)\<rparr>"
      show ?thesis using c Some False append_fresh [OF n assms(2)]
        by (intro exI [of _ ?f] exI [of _ "fb_append msg n"] exI [of _ "[Some c]"])
          (simp add: async_Append_def good_buffer_def buf_bytes_def Let_def)
    qed
  qed
qed

lemma log_inv_append:
  assumes "log_inv s" "length msg < kBigBufferSize"
  shows "\<exists>f. async_Append msg (fr s) = Inr f \<and> log_inv (s\<lparr>fr := f, appended := appended s @ msg\<rparr>)"
proof -
  obtain f c v where f: "async_Append msg (fr s) = Inr f" "good_buffer (cur_buffer f)" "cur_buffer f = Some c"
    "buffer_to_write f = buffer_to_write (fr s) @ v" "\<forall>b \<in> set v. good_buffer b"
    "concat (map buf_bytes v) @ fb_data c = buf_bytes (cur_buffer (fr s)) @ msg"
    "next_buffer f = None \<and> buffer_to_write f \<noteq> [] \<or> good_buffer (next_buffer f) \<and> is_empty_buffer (next_buffer f)"
    using async_Append_ok [of "fr s" msg] assms by (auto simp: log_inv_def)
  have "written (bk s) @ waiting (s\<lparr>fr := f, appended := appended s @ msg\<rparr>) = appended s @ msg"
  proof -
    have "waiting (s\<lparr>fr := f, appended := appended s @ msg\<rparr>) = waiting s @ msg"
      using f(3,4,6) by (simp add: waiting_def buf_bytes_def)
    then show ?thesis using assms(1) by (simp add: log_inv_def)
  qed
  then show ?thesis using f assms(1) unfolding log_inv_def by auto
qed

lemma async_asserts_ok: "log_inv s \<Longrightarrow> bphase s = AtTest \<Longrightarrow> async_asserts (bk s) = Inr ()"
  by (simp add: log_inv_def async_asserts_def)

lemma async_swap_ok:
  assumes "log_inv s" "bphase s = Waiting"
  shows "\<exists>f k. async_swap (fr s) (bk s) = (f, k) \<and> log_inv (s\<lparr>fr := f, bk := k, bphase := Swapped\<rparr>)"
proof (cases "next_buffer (fr s) = None")
  case True
  then show ?thesis using assms
    by (auto simp: log_inv_def async_swap_def Let_def waiting_def good_buffer_def is_empty_buffer_def buf_bytes_def
        Length_def Suc_le_eq split: option.splits)
next
  case False
  then show ?thesis using assms
    by (auto simp: log_inv_def async_swap_def Let_def waiting_def good_buffer_def is_empty_buffer_def buf_bytes_def
        Length_def split: option.splits)
qed

lemma write_all_ok: "\<forall>b \<in> set bs. good_buffer b \<Longrightarrow> write_all bs out = Inr (out @ concat (map buf_bytes bs))"
proof (induction bs arbitrary: out)
  case (Cons b bs)
  then show ?case by (cases b) (auto simp: good_buffer_def buf_bytes_def)
qed simp

lemma async_write_ok:
  assumes "log_inv s" "bphase s = Swapped" "length (temp_buffer_vec (bk s)) \<le> 25"
  shows "\<exists>k. async_write (bk s) = Inr k \<and> log_inv (s\<lparr>bk := k, bphase := Written\<rparr>)"
  using assms write_all_ok [of "temp_buffer_vec (bk s)" "written (bk s)"]
  by (simp add: log_inv_def async_write_def waiting_def)

lemma vec_back_reset_ok:
  assumes "v \<noteq> []" "\<forall>b \<in> set v. good_buffer b"
  shows "\<exists>b. vec_back_reset v = Inr (b, butlast v) \<and> good_buffer b \<and> is_empty_buffer b"
proof -
  have "good_buffer (last v)" using assms by simp
  then obtain c where "last v = Some c" "fb_size c = kBigBufferSize" using good_bufferD by blast
  then show ?thesis using assms(1)
    by (simp add: vec_back_reset_def good_buffer_def is_empty_buffer_def Reset_def Length_def)
qed

lemma async_recycle_ok:
  assumes "log_inv s" "bphase s = Written" "n \<le> 2 \<or> 2 \<le> length (temp_buffer_vec (bk s))"
  shows "\<exists>k. async_recycle n (bk s) = Inr k \<and> log_inv (s\<lparr>bk := k, bphase := AtTest\<rparr>)"
proof -
  let ?t = "temp_buffer_vec (bk s)"
  let ?v = "if 2 < n then vec_resize_ptrs 2 ?t else ?t"
  have good: "\<forall>b \<in> set ?v. good_buffer b" "?v \<noteq> []" "new_buffer1 (bk s) = None"
    using assms by (auto simp: log_inv_def vec_resize_ptrs_def dest: in_set_takeD)
  obtain b1 where b1: "vec_back_reset ?v = Inr (b1, butlast ?v)" "good_buffer b1" "is_empty_buffer b1"
    using vec_back_reset_ok [OF good(2,1)] by blast
  have rest: "\<forall>b \<in> set (butlast ?v). good_buffer b" using good(1) by (auto dest: in_set_butlastD)
  have two: "butlast ?v \<noteq> []" if "new_buffer2 (bk s) = None"
  proof -
    have "2 \<le> length ?t" using that assms(1,2) by (auto simp: log_inv_def good_buffer_def)
    then have "2 \<le> length ?v" by (simp add: vec_resize_ptrs_def)
    then have "0 < length (butlast ?v)" by simp
    then show ?thesis by blast
  qed
  have fin: "log_inv (s\<lparr>bk := (bk s)\<lparr>new_buffer1 := b1, new_buffer2 := b2, temp_buffer_vec := []\<rparr>, bphase := AtTest\<rparr>)"
    if "good_buffer b2" "is_empty_buffer b2" for b2
    using that b1 assms(1,2) by (simp add: log_inv_def waiting_def)
  show ?thesis
  proof (cases "new_buffer2 (bk s) = None")
    case True
    obtain b2 where b2: "vec_back_reset (butlast ?v) = Inr (b2, butlast (butlast ?v))" "good_buffer b2" "is_empty_buffer b2"
      using vec_back_reset_ok [OF two [OF True] rest] by blast
    have "async_recycle n (bk s) = Inr ((bk s)\<lparr>new_buffer1 := b1, new_buffer2 := b2, temp_buffer_vec := []\<rparr>)"
      unfolding async_recycle_def Let_def using True good(3) b1(1) b2(1) by simp
    then show ?thesis using fin [OF b2(2,3)] by blast
  next
    case False
    then have g: "good_buffer (new_buffer2 (bk s))" "is_empty_buffer (new_buffer2 (bk s))"
      using assms(1,2) by (auto simp: log_inv_def)
    have "async_recycle n (bk s) =
        Inr ((bk s)\<lparr>new_buffer1 := b1, new_buffer2 := new_buffer2 (bk s), temp_buffer_vec := []\<rparr>)"
      unfolding async_recycle_def Let_def using False good(3) b1(1) by auto
    then show ?thesis using fin [OF g] by blast
  qed
qed

lemma async_recycle_inv:
  assumes "log_inv s" "bphase s = Written" "async_recycle n (bk s) = Inr k"
  shows "log_inv (s\<lparr>bk := k, bphase := AtTest\<rparr>)"
proof (cases "n \<le> 2 \<or> 2 \<le> length (temp_buffer_vec (bk s))")
  case True
  then show ?thesis using async_recycle_ok [OF assms(1,2) True] assms(3) by auto
next
  case False
  then have "length (temp_buffer_vec (bk s)) = 1" "2 < n"
    using assms(1,2) by (auto simp: log_inv_def not_le less_2_cases_iff)
  then obtain b where "temp_buffer_vec (bk s) = [b]" by (auto simp: length_Suc_conv)
  then have "async_recycle n (bk s) = Inl NullDeref"
    using \<open>2 < n\<close> assms(1,2) by (simp add: async_recycle_def vec_resize_ptrs_def vec_back_reset_def log_inv_def numeral_2_eq_2)
  then show ?thesis using assms(3) by simp
qed

lemma log_step_inv: "log_step s t \<Longrightarrow> log_inv s \<Longrightarrow> log_inv t"
proof (induction rule: log_step.induct)
  case (front_append msg s f)
  then show ?case using log_inv_append [of s msg] by auto
next
  case (front_stop s)
  then show ?case by (auto simp: log_inv_def waiting_def async_Stop_def)
next
  case (front_dtor s)
  then show ?case by (auto simp: log_inv_def waiting_def AsyncLogging_dtor_def async_Stop_def)
next
  case (back_test s)
  then show ?case by (auto simp: log_inv_def waiting_def)
next
  case (back_swap s f k)
  then show ?case using async_swap_ok [of s] by auto
next
  case (back_write s k)
  then show ?case using async_write_ok [of s] by (cases "length (temp_buffer_vec (bk s)) \<le> 25") (auto simp: async_write_def)
next
  case (back_recycle s k)
  then show ?case using async_recycle_inv by blast
next
  case (back_stop s)
  then show ?case by (auto simp: log_inv_def waiting_def)
qed

lemma log_reachable_inv: "log_reachable s \<Longrightarrow> log_inv s"
proof (induction rule: log_reachable.induct)
  case log_start
  then show ?case
    by (simp add: log_inv_def logging_init_def async_Start_def AsyncLogging_ctor_def back_init_def waiting_def good_buffer_def
        is_empty_buffer_def buf_bytes_def Length_def)
next
  case (log_more s t)
  then show ?case using log_step_inv by blast
qed

section \<open>Properties\<close>

text \<open>
  C33. Asynchronous logging loses and reorders nothing while it runs: in every reachable
  state, under any interleaving of front-end appends with the back-end thread, what is in the
  file followed by what waits in the buffers is exactly what was appended, in order.
\<close>

theorem async_log_fifo:
  assumes "log_reachable s"
  shows "written (bk s) @ waiting s = appended s"
  using log_reachable_inv [OF assms] by (simp add: log_inv_def)

definition one_message :: logging where
  "one_message = logging_init\<lparr>fr := projr (async_Append ''hello'' (fr logging_init)), appended := ''hello''\<rparr>"

lemma one_message_reachable: "log_reachable one_message"
proof -
  have "length ''hello'' < kBigBufferSize" by (simp add: kBigBufferSize_def)
  moreover obtain f where "async_Append ''hello'' (fr logging_init) = Inr f"
    using log_inv_append [OF log_reachable_inv [OF log_start], of "''hello''"] calculation by auto
  ultimately have "log_step logging_init one_message"
    using log_step.front_append [of "''hello''" logging_init f]
    by (simp add: one_message_def) (simp add: logging_init_def async_Start_def)
  then show ?thesis using log_start log_more by blast
qed

theorem async_log_fifo_witness: "written (bk one_message) @ waiting one_message = ''hello''"
  using async_log_fifo [OF one_message_reachable] by (simp add: one_message_def)

text \<open>
  C34. The logging threads never run into a null buffer or a failed assertion: in every
  reachable state an append of a message below the buffer size succeeds, and so does the next
  action of the back-end thread, as long as at most 25 buffers were swapped out and the front
  end has not filled more than two buffers during the write of a single one.
\<close>

theorem async_log_no_fault:
  assumes "log_reachable s"
  shows "(length msg < kBigBufferSize \<longrightarrow> (\<exists>f. async_Append msg (fr s) = Inr f)) \<and>
    (bphase s = AtTest \<longrightarrow> async_asserts (bk s) = Inr ()) \<and>
    (bphase s = Swapped \<and> length (temp_buffer_vec (bk s)) \<le> 25 \<longrightarrow> (\<exists>k. async_write (bk s) = Inr k)) \<and>
    (bphase s = Written \<and> (length (buffer_to_write (fr s)) \<le> 2 \<or> 2 \<le> length (temp_buffer_vec (bk s))) \<longrightarrow>
       (\<exists>k. async_recycle (length (buffer_to_write (fr s))) (bk s) = Inr k))"
  using log_reachable_inv [OF assms] log_inv_append async_asserts_ok async_write_ok async_recycle_ok by blast

theorem async_log_no_fault_witness:
  "async_asserts (bk one_message) = Inr ()"
  using async_log_no_fault [OF one_message_reachable] by (simp add: one_message_def logging_init_def async_Start_def)

text \<open>A message of the largest size fills a buffer that holds anything.\<close>

lemma big_append:
  assumes "log_inv s" "length m = kBigBufferSize - 1"
  shows "\<exists>f. async_Append m (fr s) = Inr f \<and> buf_bytes (cur_buffer f) \<noteq> [] \<and>
    (buf_bytes (cur_buffer (fr s)) \<noteq> [] \<longrightarrow> length (buffer_to_write f) = Suc (length (buffer_to_write (fr s))))"
proof -
  obtain c where c: "cur_buffer (fr s) = Some c" "fb_size c = kBigBufferSize"
    using assms(1) good_bufferD [of "cur_buffer (fr s)"] unfolding log_inv_def by blast
  have m: "int (length m) < int kBigBufferSize" "m \<noteq> []" using assms(2) by (auto simp: kBigBufferSize_def)
  show ?thesis
  proof (cases "fb_data c = []")
    case True
    then show ?thesis using c m by (simp add: async_Append_def Avail_def fb_append_def buf_bytes_def)
  next
    case False
    then have full: "\<not> int (length m) < Avail c"
      using c(2) assms(2) by (cases "fb_data c") (simp_all add: Avail_def kBigBufferSize_def)
    show ?thesis
    proof (cases "next_buffer (fr s)")
      case None
      then show ?thesis using c full m by (simp add: async_Append_def buf_bytes_def fb_append_def Avail_def)
    next
      case (Some n)
      then have "fb_data n = []" "fb_size n = kBigBufferSize"
        using assms(1) by (auto simp: log_inv_def good_buffer_def is_empty_buffer_def Length_def)
      then show ?thesis using c full m Some by (simp add: async_Append_def buf_bytes_def fb_append_def Avail_def)
    qed
  qed
qed

lemma fill_buffers:
  assumes "log_reachable s"
  shows "\<exists>t. log_reachable t \<and> bphase t = bphase s \<and> bk t = bk s \<and> n \<le> length (buffer_to_write (fr t)) \<and>
    buf_bytes (cur_buffer (fr t)) \<noteq> []"
proof (induction n)
  have len: "length m = kBigBufferSize - 1 \<Longrightarrow> length m < kBigBufferSize" for m :: bytes
    by (simp add: kBigBufferSize_def)
  obtain m :: bytes where m: "length m = kBigBufferSize - 1" using Ex_list_of_length by blast
  have more: "\<exists>u. log_reachable u \<and> bphase u = bphase t \<and> bk u = bk t \<and> buf_bytes (cur_buffer (fr u)) \<noteq> [] \<and>
      (buf_bytes (cur_buffer (fr t)) \<noteq> [] \<longrightarrow> length (buffer_to_write (fr u)) = Suc (length (buffer_to_write (fr t))))"
    if t: "log_reachable t" for t
  proof -
    obtain f where f: "async_Append m (fr t) = Inr f" "buf_bytes (cur_buffer f) \<noteq> []"
      "buf_bytes (cur_buffer (fr t)) \<noteq> [] \<longrightarrow> length (buffer_to_write f) = Suc (length (buffer_to_write (fr t)))"
      using big_append [OF log_reachable_inv [OF t] m] by blast
    have "log_reachable (t\<lparr>fr := f, appended := appended t @ m\<rparr>)"
      using log_more [OF t log_step.front_append [OF len [OF m] f(1)]] .
    then show ?thesis using f(2,3) by (intro exI [of _ "t\<lparr>fr := f, appended := appended t @ m\<rparr>"]) simp
  qed
  { case 0 show ?case using more [OF assms] by auto }
  { case (Suc n)
    then obtain t where "log_reachable t" "bphase t = bphase s" "bk t = bk s" "n \<le> length (buffer_to_write (fr t))"
      "buf_bytes (cur_buffer (fr t)) \<noteq> []" by blast
    then show ?case using more [of t] by (metis Suc_le_mono) }
qed

text \<open>An undisturbed turn of the back end writes everything that has been appended.\<close>

lemma write_turn:
  assumes "log_reachable s" "bphase s = AtTest" "running (fr s)" "length (buffer_to_write (fr s)) < 25"
  shows "\<exists>t. log_reachable t \<and> bphase t = Written \<and> appended t = appended s \<and> written (bk t) = appended s \<and>
    length (temp_buffer_vec (bk t)) = Suc (length (buffer_to_write (fr s))) \<and> new_buffer1 (bk t) = None"
proof -
  define s1 where "s1 = s\<lparr>bphase := Waiting\<rparr>"
  define s2 where "s2 = s1\<lparr>fr := fst (async_swap (fr s1) (bk s1)), bk := snd (async_swap (fr s1) (bk s1)), bphase := Swapped\<rparr>"
  have "log_step s s1" unfolding s1_def
    using assms(2,3) async_asserts_ok [OF log_reachable_inv [OF assms(1)] assms(2)] by (rule log_step.back_test)
  then have r1: "log_reachable s1" using assms(1) log_more by blast
  have "log_step s1 s2" unfolding s2_def by (rule log_step.back_swap) (simp_all add: s1_def)
  then have r2: "log_reachable s2" using r1 log_more by blast
  have v: "length (temp_buffer_vec (bk s2)) = Suc (length (buffer_to_write (fr s)))" "new_buffer1 (bk s2) = None"
    by (auto simp: s2_def s1_def async_swap_def Let_def)
  obtain k where k: "async_write (bk s2) = Inr k"
    using async_write_ok [OF log_reachable_inv [OF r2]] v(1) assms(4) by (auto simp: s2_def)
  define t where "t = s2\<lparr>bk := k, bphase := Written\<rparr>"
  have "log_step s2 t" unfolding t_def using k by (rule log_step.back_write [rotated]) (simp add: s2_def)
  then have r: "log_reachable t" using r2 log_more by blast
  have "bk t = (bk s2)\<lparr>written := written (bk t)\<rparr>" using k by (auto simp: t_def async_write_def res_bind_eq_Inr split: if_splits)
  then have bk: "temp_buffer_vec (bk t) = temp_buffer_vec (bk s2)" "new_buffer1 (bk t) = None"
    using v(2) by (metis backend.select_convs(3) backend.surjective backend.update_convs(4),
        metis backend.select_convs(1) backend.surjective backend.update_convs(4))
  have "log_inv s1" using r1 by (rule log_reachable_inv)
  then have "is_empty_buffer (new_buffer1 (bk s1))" "temp_buffer_vec (bk s1) = []" by (simp_all add: log_inv_def s1_def)
  then have "waiting t = []"
    by (auto simp: waiting_def t_def s2_def async_swap_def Let_def is_empty_buffer_def buf_bytes_def Length_def
        split: option.splits)
  moreover have "appended t = appended s" "bphase t = Written" by (simp_all add: t_def s2_def s1_def)
  ultimately have "written (bk t) = appended s" using log_reachable_inv [OF r] by (simp add: log_inv_def)
  then show ?thesis using r bk v(1) \<open>appended t = appended s\<close> \<open>bphase t = Written\<close> by (intro exI [of _ t]) simp
qed

text \<open>The first turn of the back end, with nothing appended: one empty buffer is swapped out.\<close>

lemma first_turn: "\<exists>s b. log_reachable s \<and> bphase s = Written \<and> temp_buffer_vec (bk s) = [b] \<and> new_buffer1 (bk s) = None"
  using write_turn [OF log_start] by (auto simp: logging_init_def async_Start_def AsyncLogging_ctor_def length_Suc_conv)

text \<open>
  The exception is real: the size test before recycling looks at the wrong vector. A run
  exists in which one buffer was swapped out, the front end fills three more while it is
  written, \<open>temp_buffer_vec.resize(2)\<close> adds a null pointer and the back end dereferences it.
\<close>

theorem async_recycle_null_deref:
  "\<exists>s. log_reachable s \<and> bphase s = Written \<and>
     async_recycle (length (buffer_to_write (fr s))) (bk s) = Inl NullDeref"
proof -
  obtain s b where s: "log_reachable s" "bphase s = Written" "temp_buffer_vec (bk s) = [b]" "new_buffer1 (bk s) = None"
    using first_turn by blast
  obtain t where t: "log_reachable t" "bphase t = bphase s" "bk t = bk s" "3 \<le> length (buffer_to_write (fr t))"
    using fill_buffers [OF s(1), of 3] by blast
  have "async_recycle (length (buffer_to_write (fr t))) (bk t) = Inl NullDeref"
    using t(3,4) s(3,4) by (simp add: async_recycle_def vec_resize_ptrs_def vec_back_reset_def numeral_2_eq_2)
  then show ?thesis using t(1,2) s(2) by (intro exI [of _ t]) simp
qed

text \<open>
  Stopping can lose messages: when a message and then \<open>Stop\<close> come while the back end is
  about to test \<open>running_\<close> and not in its wait, the thread leaves its loop at that test without
  writing the message.
\<close>

theorem async_stop_loses:
  assumes "log_reachable s" "bphase s = AtTest" "msg \<noteq> []" "length msg < kBigBufferSize"
  shows "\<exists>t. log_reachable t \<and> bphase t = Stopped \<and> appended t = appended s @ msg \<and> written (bk t) \<noteq> appended t"
proof -
  have inv: "log_inv s" using assms(1) by (rule log_reachable_inv)
  obtain f where f: "async_Append msg (fr s) = Inr f" using log_inv_append [OF inv assms(4)] by blast
  define s1 where "s1 = s\<lparr>fr := f, appended := appended s @ msg\<rparr>"
  define s2 where "s2 = s1\<lparr>fr := async_Stop (fr s1)\<rparr>"
  define s3 where "s3 = s2\<lparr>bphase := Stopped\<rparr>"
  have "log_step s s1" unfolding s1_def using assms(4) f by (rule log_step.front_append)
  moreover have "log_step s1 s2" unfolding s2_def by (rule log_step.front_stop)
  moreover have "log_step s2 s3" unfolding s3_def
    by (rule log_step.back_stop) (simp_all add: s2_def s1_def async_Stop_def assms(2))
  ultimately have "log_reachable s3" using assms(1) log_more by blast
  moreover have "written (bk s3) \<noteq> appended s3"
  proof -
    have "written (bk s) @ waiting s = appended s" using inv by (simp add: log_inv_def)
    then have "length (written (bk s)) \<le> length (appended s)" by (metis le_add1 length_append)
    moreover have "bk s3 = bk s" "appended s3 = appended s @ msg" by (simp_all add: s3_def s2_def s1_def)
    ultimately show ?thesis using assms(3) by (metis add_le_same_cancel1 le_zero_eq length_0_conv length_append)
  qed
  ultimately show ?thesis by (intro exI [of _ s3]) (simp add: s3_def s2_def s1_def)
qed

theorem async_stop_loses_witness:
  "\<exists>t. log_reachable t \<and> bphase t = Stopped \<and> appended t = ''hello!'' \<and> written (bk t) \<noteq> appended t"
proof -
  have "bphase one_message = AtTest" "length ''!'' < kBigBufferSize" "appended one_message @ ''!'' = ''hello!''"
    by (simp_all add: one_message_def logging_init_def async_Start_def kBigBufferSize_def)
  then show ?thesis using async_stop_loses [OF one_message_reachable, of "''!''"] by simp
qed

end
