(* ===== verification/Log_Output.thy ===== *)
theory Log_Output
  imports Log_File Async_Logging
begin

text \<open>
  The logger and its outputs (\<^verbatim>\<open>include/logger.h\<close>, \<^verbatim>\<open>src/logger.cc\<close>): the level, the output
  and the flush function are globals a program may set; the \<open>LOG_\<close> macros test the level, build
  a line and hand it to the output function when the temporary \<open>Logger\<close> is destroyed. The world
  holds what the output functions of the library and of the programs write to: standard
  output, a \<open>LogFile\<close>, the front end of an \<open>AsyncLogging\<close>.
\<close>

section \<open>Levels\<close>

fun level_num :: "log_level \<Rightarrow> nat" where
  "level_num TRACE = 0" | "level_num DEBUG = 1" | "level_num INFO = 2"
| "level_num WARN = 3" | "level_num ERROR = 4" | "level_num FATAL = 5"

lemma level_num_inject: "level_num a = level_num b \<Longrightarrow> a = b"
  by (cases a; cases b) simp_all

instantiation log_level :: linorder
begin

definition less_eq_log_level :: "log_level \<Rightarrow> log_level \<Rightarrow> bool" where
  "less_eq_log_level a b \<longleftrightarrow> level_num a \<le> level_num b"

definition less_log_level :: "log_level \<Rightarrow> log_level \<Rightarrow> bool" where
  "less_log_level a b \<longleftrightarrow> level_num a < level_num b"

instance
  by standard (auto simp: less_eq_log_level_def less_log_level_def intro: level_num_inject)

end

text \<open>
  \<open>defs\<close> are the macros the build defines (\<^verbatim>\<open>CMakeLists.txt\<close> defines \<open>USE_LOG_WARN\<close>). Without any of
  them the function ends without a \<open>return\<close>.
\<close>

definition InitLogLevel :: "string list \<Rightarrow> log_level option" where
  "InitLogLevel defs =
     (if ''USE_LOG_TRACE'' \<in> set defs then Some TRACE
      else if ''USE_LOG_DEBUG'' \<in> set defs then Some DEBUG
      else if ''USE_LOG_INFO'' \<in> set defs then Some INFO
      else if ''USE_LOG_WARN'' \<in> set defs then Some WARN
      else if ''USE_LOG_ERROR'' \<in> set defs then Some ERROR
      else if ''USE_LOG_FATAL'' \<in> set defs then Some FATAL
      else None)"

section \<open>The globals\<close>

record 'w log_globals =
  g_logLevel :: log_level
  g_output :: "bytes \<Rightarrow> 'w \<Rightarrow> 'w res option"
  g_flush :: "'w \<Rightarrow> 'w res"

definition GetLogLevel :: "'w log_globals \<Rightarrow> log_level" where
  "GetLogLevel G = g_logLevel G"

definition SetLogLevel :: "log_level \<Rightarrow> 'w log_globals \<Rightarrow> 'w log_globals" where
  "SetLogLevel level G = G\<lparr>g_logLevel := level\<rparr>"

definition SetOutputFunc :: "(bytes \<Rightarrow> 'w \<Rightarrow> 'w res option) \<Rightarrow> 'w log_globals \<Rightarrow> 'w log_globals" where
  "SetOutputFunc out G = G\<lparr>g_output := out\<rparr>"

definition SetFlushFunc :: "('w \<Rightarrow> 'w res) \<Rightarrow> 'w log_globals \<Rightarrow> 'w log_globals" where
  "SetFlushFunc flush G = G\<lparr>g_flush := flush\<rparr>"

section \<open>One statement\<close>

text \<open>
  Where a statement stands, and what it finds: the text behind the pointer to the thread id,
  the time as text, and what lies behind the two one-character arrays.
\<close>

record log_site =
  ls_file :: string
  ls_line :: cint
  ls_func :: string
  ls_temp :: string
  ls_now :: string
  ls_tail_func :: string
  ls_tail :: string

definition Logger_ctor :: "log_site \<Rightarrow> log_impl res" where
  "Logger_ctor y = Impl_ctor (ls_temp y) (ls_now y) INFO (ls_file y) (ls_line y)"

definition Logger_level_ctor :: "log_level \<Rightarrow> log_site \<Rightarrow> log_impl res" where
  "Logger_level_ctor level y = Impl_ctor (ls_temp y) (ls_now y) level (ls_file y) (ls_line y)"

definition Logger_abort_ctor :: "bool \<Rightarrow> log_site \<Rightarrow> log_impl res" where
  "Logger_abort_ctor toAbort y =
     Impl_ctor (ls_temp y) (ls_now y) (if toAbort then FATAL else ERROR) (ls_file y) (ls_line y)"

text \<open>The macros: what is constructed, if the level test lets the statement through.\<close>

fun LOG_macro :: "'w log_globals \<Rightarrow> log_level \<Rightarrow> log_site \<Rightarrow> log_impl res option" where
  "LOG_macro G TRACE y = (if GetLogLevel G \<le> TRACE
     then Some (Logger_func_ctor (ls_tail_func y) (ls_temp y) (ls_now y) TRACE (ls_file y) (ls_line y) (ls_func y)) else None)"
| "LOG_macro G DEBUG y = (if GetLogLevel G \<le> DEBUG
     then Some (Logger_func_ctor (ls_tail_func y) (ls_temp y) (ls_now y) DEBUG (ls_file y) (ls_line y) (ls_func y)) else None)"
| "LOG_macro G INFO y = (if GetLogLevel G \<le> INFO then Some (Logger_ctor y) else None)"
| "LOG_macro G WARN y = Some (Logger_level_ctor WARN y)"
| "LOG_macro G ERROR y = Some (Logger_level_ctor ERROR y)"
| "LOG_macro G FATAL y = Some (Logger_level_ctor FATAL y)"

text \<open>The process goes on or has been aborted.\<close>

datatype 'w log_end = Running 'w | Aborted 'w

text \<open>The destructor with its two calls: the output function, and for \<open>FATAL\<close> the flush function and \<open>abort\<close>.\<close>

definition log_emit :: "'w log_globals \<Rightarrow> string \<Rightarrow> log_impl \<Rightarrow> 'w \<Rightarrow> 'w log_end res option" where
  "log_emit G tail l w =
     (let (msg, fatal) = Logger_dtor tail l in
      map_option (\<lambda>r. res_bind r (\<lambda>w1.
        if fatal then res_bind (g_flush G w1) (\<lambda>w2. Inr (Aborted w2)) else Inr (Running w1))) (g_output G msg w))"

text \<open>The arguments of \<open><<\<close>, here all strings.\<close>

definition log_body :: "string list \<Rightarrow> log_impl \<Rightarrow> log_impl" where
  "log_body pieces l = l\<lparr>impl_stream := fold (\<lambda>s. log_cstr (Some s)) pieces (impl_stream l)\<rparr>"

type_synonym log_stmt = "log_level \<times> log_site \<times> string list"

fun LOG :: "'w log_globals \<Rightarrow> log_stmt \<Rightarrow> 'w \<Rightarrow> 'w log_end res option" where
  "LOG G (level, y, pieces) w =
     (case LOG_macro G level y of
        None \<Rightarrow> Some (Inr (Running w))
      | Some (Inl f) \<Rightarrow> Some (Inl f)
      | Some (Inr l) \<Rightarrow> log_emit G (ls_tail y) (log_body pieces l) w)"

text \<open>Statements in sequence.\<close>

fun log_prog :: "'w log_globals \<Rightarrow> log_stmt list \<Rightarrow> 'w \<Rightarrow> 'w log_end res option" where
  "log_prog G [] w = Some (Inr (Running w))"
| "log_prog G (s # ss) w =
     (case LOG G s w of
        Some (Inr (Running w1)) \<Rightarrow> log_prog G ss w1
      | r \<Rightarrow> r)"

section \<open>What a program should print\<close>

text \<open>The statements that are executed, those that are let through, and the line of one.\<close>

fun executed :: "log_stmt list \<Rightarrow> log_stmt list" where
  "executed [] = []"
| "executed (s # ss) = s # (if fst s = FATAL then [] else executed ss)"

definition enabled :: "log_level \<Rightarrow> log_stmt \<Rightarrow> bool" where
  "enabled threshold s \<longleftrightarrow> fst s \<in> {WARN, ERROR, FATAL} \<or> threshold \<le> fst s"

fun log_line :: "log_stmt \<Rightarrow> bytes" where
  "log_line (level, y, pieces) =
     fst (Logger_dtor (ls_tail y) (log_body pieces
       (projr (if level \<in> {TRACE, DEBUG}
          then Logger_func_ctor (ls_tail_func y) (ls_temp y) (ls_now y) level (ls_file y) (ls_line y) (ls_func y)
          else Logger_level_ctor level y))))"

definition stream_ok :: "log_impl \<Rightarrow> bool" where
  "stream_ok l \<longleftrightarrow> fb_inv (impl_stream l) \<and> fb_size (impl_stream l) = kSmallBufferSize"

lemma level_name_length: "length (LogLevelName level) = 9"
  by (cases level) simp_all

lemma fb_small [intro]:
  "fb_inv b \<and> fb_size b = n \<Longrightarrow> fb_inv (fb_append d b) \<and> fb_size (fb_append d b) = n"
  by (simp add: fb_append_inv)

lemma log_pieces_ok [intro]:
  "fb_inv b \<and> fb_size b = n \<Longrightarrow> fb_inv (log_cstr s b) \<and> fb_size (log_cstr s b) = n"
  "fb_inv b \<and> fb_size b = n \<Longrightarrow> fb_inv (log_string t b) \<and> fb_size (log_string t b) = n"
  "fb_inv b \<and> fb_size b = n \<Longrightarrow> fb_inv (log_int32 i b) \<and> fb_size (log_int32 i b) = n"
  "fb_inv b \<and> fb_size b = n \<Longrightarrow> fb_inv (log_char t c b) \<and> fb_size (log_char t c b) = n"
  by (cases s; simp add: log_cstr_def log_string_def log_int32_def log_char_def fb_append_inv)+

lemma Impl_ctor_ok: "\<exists>l. Impl_ctor temp now level f n = Inr l \<and> stream_ok l \<and> impl_level l = level"
proof -
  have "fb_inv (FixedBuffer_ctor kSmallBufferSize) \<and> fb_size (FixedBuffer_ctor kSmallBufferSize) = kSmallBufferSize"
    by (simp add: FixedBuffer_ctor_def fb_inv_def kSmallBufferSize_def)
  then show ?thesis
    by (simp add: Impl_ctor_def log_T_def level_name_length stream_ok_def)
      (intro log_pieces_ok fb_small)
qed

lemma Logger_func_ctor_ok:
  "\<exists>l. Logger_func_ctor tail temp now level f n fn = Inr l \<and> stream_ok l \<and> impl_level l = level"
  using Impl_ctor_ok [of temp now level f n] log_pieces_ok(1,4)
  by (fastforce simp: Logger_func_ctor_def stream_ok_def)

lemma log_body_ok:
  assumes "stream_ok l"
  shows "stream_ok (log_body pieces l) \<and> impl_level (log_body pieces l) = impl_level l"
proof -
  have "fb_inv b \<and> fb_size b = n \<Longrightarrow>
      fb_inv (fold (\<lambda>s. log_cstr (Some s)) pieces b) \<and> fb_size (fold (\<lambda>s. log_cstr (Some s)) pieces b) = n" for b n
    by (induction pieces arbitrary: b) (simp_all add: log_pieces_ok(1))
  then show ?thesis using assms by (simp add: stream_ok_def log_body_def)
qed

lemma Logger_dtor_small:
  assumes "stream_ok l"
  shows "length (fst (Logger_dtor tail l)) < kSmallBufferSize" "snd (Logger_dtor tail l) \<longleftrightarrow> impl_level l = FATAL"
proof -
  have "fb_inv (impl_stream l) \<and> fb_size (impl_stream l) = kSmallBufferSize" using assms by (simp add: stream_ok_def)
  then have "fb_inv (impl_stream (Finish tail l)) \<and> fb_size (impl_stream (Finish tail l)) = kSmallBufferSize"
    unfolding Finish_def by (simp add: log_pieces_ok)
  then show "length (fst (Logger_dtor tail l)) < kSmallBufferSize" by (auto simp: Logger_dtor_def Let_def fb_inv_def)
  show "snd (Logger_dtor tail l) \<longleftrightarrow> impl_level l = FATAL" by (simp add: Logger_dtor_def Let_def Finish_def)
qed

text \<open>A statement that is let through hands its line, whose length is bounded, to the output function.\<close>

lemma LOG_cases:
  "LOG G s w =
    (if enabled (g_logLevel G) s
     then map_option (\<lambda>r. res_bind r (\<lambda>w1. if fst s = FATAL
            then res_bind (g_flush G w1) (\<lambda>w2. Inr (Aborted w2)) else Inr (Running w1))) (g_output G (log_line s) w)
     else Some (Inr (Running w)))"
  "length (log_line s) < kSmallBufferSize"
proof -
  obtain level y pieces where s: "s = (level, y, pieces)" by (cases s) auto
  let ?r = "if level \<in> {TRACE, DEBUG}
          then Logger_func_ctor (ls_tail_func y) (ls_temp y) (ls_now y) level (ls_file y) (ls_line y) (ls_func y)
          else Logger_level_ctor level y"
  obtain l where l: "?r = Inr l" "stream_ok l" "impl_level l = level"
    using Logger_func_ctor_ok Impl_ctor_ok unfolding Logger_level_ctor_def by (metis (full_types))
  have "LOG_macro G level y = (if enabled (g_logLevel G) s then Some ?r else None)"
    by (cases level) (simp_all add: s enabled_def GetLogLevel_def Logger_ctor_def Logger_level_ctor_def)
  then have m: "LOG_macro G level y = (if enabled (g_logLevel G) s then Some (Inr l) else None)" unfolding l(1) .
  have line: "log_line s = fst (Logger_dtor (ls_tail y) (log_body pieces l))" using l(1) by (simp add: s)
  have b: "stream_ok (log_body pieces l)" "impl_level (log_body pieces l) = level" using log_body_ok [OF l(2)] l(3) by simp_all
  show "length (log_line s) < kSmallBufferSize" unfolding line using b(1) by (rule Logger_dtor_small)
  have "Logger_dtor (ls_tail y) (log_body pieces l) = (log_line s, level = FATAL)"
    unfolding line prod_eq_iff using Logger_dtor_small(2) [OF b(1)] b(2) by simp
  with m show "LOG G s w = (if enabled (g_logLevel G) s
     then map_option (\<lambda>r. res_bind r (\<lambda>w1. if fst s = FATAL
            then res_bind (g_flush G w1) (\<lambda>w2. Inr (Aborted w2)) else Inr (Running w1))) (g_output G (log_line s) w)
     else Some (Inr (Running w)))"
    by (cases "enabled (g_logLevel G) s") (simp_all add: s log_emit_def del: log_line.simps)
qed

section \<open>The text of a line\<close>

lemma body_fits:
  "length (fb_data b) + length (concat pieces) < fb_size b \<Longrightarrow>
   fold (\<lambda>s. log_cstr (Some s)) pieces b = b\<lparr>fb_data := fb_data b @ concat pieces\<rparr>"
  by (induction pieces arbitrary: b) (simp_all add: log_cstr_def fb_append_fits)

lemma digits_22: "int_to_string 22 = ''22''"
proof -
  have "digit_char 2 = CHR ''2''" by code_simp
  then show ?thesis by (simp add: int_to_string_def nat_digits.simps)
qed

text \<open>The line of each kind of macro, with and without the name of the function.\<close>

definition line_text :: "log_stmt \<Rightarrow> bytes" where
  "line_text s = (case s of (level, y, pieces) \<Rightarrow>
     ls_temp y @ '' '' @ ls_now y @ '' '' @ LogLevelName level @ '' '' @
     (if level \<in> {TRACE, DEBUG} then ls_func y @ '' '' @ ls_tail_func y else []) @
     concat pieces @ '' - '' @ ls_file y @ '':'' @ ls_tail y @ ''22'' @ [CHR 0x0A])"

lemma Impl_ctor_fits:
  assumes "length temp + length now + 12 < kSmallBufferSize"
  shows "Impl_ctor temp now level file line = Inr \<lparr>impl_stream = (FixedBuffer_ctor kSmallBufferSize)
    \<lparr>fb_data := temp @ '' '' @ now @ '' '' @ LogLevelName level @ '' ''\<rparr>, impl_level = level, impl_line = line, impl_filename = file\<rparr>"
  using assms level_name_length [of level]
  by (simp add: Impl_ctor_def log_T_def log_cstr_def log_string_def FixedBuffer_ctor_def fb_append_fits)

lemma log_line_text:
  assumes "length (line_text s) < kSmallBufferSize"
  shows "log_line s = line_text s"
proof -
  obtain level y pieces where s: "s = (level, y, pieces)" by (cases s) auto
  note n = assms [unfolded s line_text_def, simplified] level_name_length [of level]
  have i: "length (ls_temp y) + length (ls_now y) + 12 < kSmallBufferSize" using n by simp
  show ?thesis
  proof (cases "level \<in> {TRACE, DEBUG}")
    case True
    then show ?thesis using n
      by (simp add: s line_text_def Logger_func_ctor_def Impl_ctor_fits [OF i] Logger_dtor_def Finish_def log_body_def body_fits
          log_cstr_def log_char_def log_int32_def digits_22 fb_append_fits FixedBuffer_ctor_def Let_def)
  next
    case False
    then show ?thesis using n
      by (simp add: s line_text_def Logger_level_ctor_def Impl_ctor_fits [OF i] Logger_dtor_def Finish_def log_body_def body_fits
          log_cstr_def log_char_def log_int32_def digits_22 fb_append_fits FixedBuffer_ctor_def Let_def)
  qed
qed

text \<open>
  C38. What a log statement does, for each of the six macros, when its line fits the 4000 bytes of the
  stream. If the level lets it through, the output function is given one line: thread id, time,
  level, for \<open>LOG_TRACE\<close> and \<open>LOG_DEBUG\<close> the name of the function, the message, the file name and a line number,
  ended by a newline. The number is always 22, whatever line the statement is on, and behind the
  colon, and behind the function's name, comes whatever lies in memory after the one-character
  array. \<open>FATAL\<close>, and only \<open>FATAL\<close>, then flushes and aborts. A statement that is not let through does nothing.
\<close>

theorem log_line_format:
  assumes "length (ls_temp y @ '' '' @ ls_now y @ '' '' @ LogLevelName level @ '' '' @
     (if level \<in> {TRACE, DEBUG} then ls_func y @ '' '' @ ls_tail_func y else []) @
     concat pieces @ '' - '' @ ls_file y @ '':'' @ ls_tail y @ ''22'' @ [CHR 0x0A]) < kSmallBufferSize"
  shows "LOG G (level, y, pieces) w =
    (if level \<in> {WARN, ERROR, FATAL} \<or> g_logLevel G \<le> level
     then map_option (\<lambda>r. res_bind r (\<lambda>w1. if level = FATAL
            then res_bind (g_flush G w1) (\<lambda>w2. Inr (Aborted w2)) else Inr (Running w1)))
       (g_output G (ls_temp y @ '' '' @ ls_now y @ '' '' @ LogLevelName level @ '' '' @
          (if level \<in> {TRACE, DEBUG} then ls_func y @ '' '' @ ls_tail_func y else []) @
          concat pieces @ '' - '' @ ls_file y @ '':'' @ ls_tail y @ ''22'' @ [CHR 0x0A]) w)
     else Some (Inr (Running w)))"
proof -
  have t: "log_line (level, y, pieces) = line_text (level, y, pieces)"
    using assms by (intro log_line_text) (simp only: line_text_def prod.case)
  show ?thesis unfolding LOG_cases(1) t enabled_def fst_conv line_text_def prod.case ..
qed

definition sample_site :: log_site where
  "sample_site = \<lparr>ls_file = ''a.cc'', ls_line = 7, ls_func = ''main'', ls_temp = ''42'', ls_now = ''2024/01/01 00:00:00'',
     ls_tail_func = [], ls_tail = []\<rparr>"

theorem log_line_format_witness:
  "LOG \<lparr>g_logLevel = DEBUG, g_output = \<lambda>m w. Some (Inr (w @ m)), g_flush = Inr\<rparr> (DEBUG, sample_site, [''boom'']) [] =
    Some (Inr (Running (''42 2024/01/01 00:00:00 [DEBUG]:  main boom - a.cc:22'' @ [CHR 0x0A])))"
proof -
  have f: "ls_file sample_site = ''a.cc''" "ls_func sample_site = ''main''" "ls_temp sample_site = ''42''"
    "ls_now sample_site = ''2024/01/01 00:00:00''" "ls_tail_func sample_site = []" "ls_tail sample_site = []"
    by (simp_all add: sample_site_def)
  show ?thesis by (subst log_line_format) (simp_all add: f kSmallBufferSize_def)
qed

section \<open>Outputs\<close>

text \<open>
  What a program may rely on when it sets its output functions: a line is added to what has
  been output, and flushing adds nothing.
\<close>

locale log_sink =
  fixes sink_inv :: "'w \<Rightarrow> bool" and put_line :: "bytes \<Rightarrow> 'w \<Rightarrow> 'w res option" and flush :: "'w \<Rightarrow> 'w res"
    and content :: "'w \<Rightarrow> bytes"
  assumes output_law: "sink_inv w \<Longrightarrow> length msg < kSmallBufferSize \<Longrightarrow>
      \<exists>w'. put_line msg w = Some (Inr w') \<and> sink_inv w' \<and> content w' = content w @ msg"
    and flush_law: "sink_inv w \<Longrightarrow> \<exists>w'. flush w = Inr w' \<and> sink_inv w' \<and> content w' = content w"
begin

lemma LOG_output:
  assumes "sink_inv w" "g_output G = put_line" "g_flush G = flush"
  shows "\<exists>w'. LOG G s w = Some (Inr (if fst s = FATAL then Aborted w' else Running w')) \<and> sink_inv w' \<and>
    content w' = content w @ (if enabled (g_logLevel G) s then log_line s else [])"
proof (cases "enabled (g_logLevel G) s")
  case True
  obtain w1 where w1: "put_line (log_line s) w = Some (Inr w1)" "sink_inv w1" "content w1 = content w @ log_line s"
    using output_law [OF assms(1) LOG_cases(2)] by blast
  obtain w2 where w2: "flush w1 = Inr w2" "sink_inv w2" "content w2 = content w1" using flush_law [OF w1(2)] by blast
  show ?thesis using True w1 w2 assms(2,3) by (cases "fst s = FATAL") (simp_all add: LOG_cases(1))
next
  case False
  then have "fst s \<noteq> FATAL" by (auto simp: enabled_def)
  then show ?thesis using False assms(1) by (simp add: LOG_cases(1))
qed

lemma prog_output:
  assumes "sink_inv w" "g_output G = put_line" "g_flush G = flush"
  shows "\<exists>w'. log_prog G ss w = Some (Inr (if FATAL \<in> fst ` set ss then Aborted w' else Running w')) \<and> sink_inv w' \<and>
    content w' = content w @ concat (map log_line (filter (enabled (g_logLevel G)) (executed ss)))"
  using assms(1)
proof (induction ss arbitrary: w)
  case Nil
  then show ?case by simp
next
  case (Cons s ss)
  obtain w1 where w1: "LOG G s w = Some (Inr (if fst s = FATAL then Aborted w1 else Running w1))" "sink_inv w1"
    "content w1 = content w @ (if enabled (g_logLevel G) s then log_line s else [])"
    using LOG_output [OF Cons.prems assms(2,3)] by blast
  show ?case
  proof (cases "fst s = FATAL")
    case True
    then show ?thesis using w1 by (intro exI [of _ w1]) simp
  next
    case False
    obtain w2 where "log_prog G ss w1 = Some (Inr (if FATAL \<in> fst ` set ss then Aborted w2 else Running w2))" "sink_inv w2"
      "content w2 = content w1 @ concat (map log_line (filter (enabled (g_logLevel G)) (executed ss)))"
      using Cons.IH [OF w1(2)] by blast
    then show ?thesis using False w1 by (intro exI [of _ w2]) auto
  qed
qed

end

text \<open>
  The world: standard output with what has reached the terminal, the calls of the log file so
  far, and the objects the programs' own output functions reach through global pointers.
\<close>

record log_world =
  out_text :: bytes
  out_flushed :: nat
  file_calls :: nat
  logfile :: "log_file option"
  async_logfile :: "frontend option"

text \<open>The defaults; \<open>fw\<close> is the count \<open>fwrite\<close> returns.\<close>

definition DefaultOutput :: "(bytes \<Rightarrow> nat) \<Rightarrow> bytes \<Rightarrow> log_world \<Rightarrow> log_world res option" where
  "DefaultOutput fw msg w =
     (let n = fw msg in
      if n = length msg then Some (Inr (w\<lparr>out_text := out_text w @ take n msg\<rparr>)) else Some (Inl AssertFailed))"

definition DefaultFlush :: "log_world \<Rightarrow> log_world res" where
  "DefaultFlush w = Inr (w\<lparr>out_flushed := length (out_text w)\<rparr>)"

definition default_globals :: "log_level \<Rightarrow> (bytes \<Rightarrow> nat) \<Rightarrow> log_world log_globals" where
  "default_globals level fw = \<lparr>g_logLevel = level, g_output = DefaultOutput fw, g_flush = DefaultFlush\<rparr>"

text \<open>\<open>LogFile::Append\<close>, which takes the lock or not.\<close>

definition lf_Append :: "bool \<Rightarrow> sys \<Rightarrow> fwrite_result list \<Rightarrow> bytes \<Rightarrow> log_file \<Rightarrow> log_file res option" where
  "lf_Append thread_safe y ws line l =
     (if thread_safe then AppendUnlocked y ws line l else AppendUnlocked y ws line l)"

text \<open>
  Output to a log file; \<open>sy\<close> and \<open>wr\<close> are what the system answers at the \<open>n\<close>-th call: the clock and
  the results of \<open>fwrite\<close>.
\<close>

definition file_output ::
  "(nat \<Rightarrow> sys) \<Rightarrow> (nat \<Rightarrow> bytes \<Rightarrow> fwrite_result list) \<Rightarrow> bytes \<Rightarrow> log_world \<Rightarrow> log_world res option" where
  "file_output sy wr msg w =
     (case logfile w of
        None \<Rightarrow> Some (Inl NullDeref)
      | Some l \<Rightarrow> map_option (\<lambda>r. res_bind r (\<lambda>l1. Inr (w\<lparr>logfile := Some l1, file_calls := Suc (file_calls w)\<rparr>)))
          (lf_Append True (sy (file_calls w)) (wr (file_calls w) msg) msg l))"

definition file_flush :: "log_world \<Rightarrow> log_world res" where
  "file_flush w =
     (case logfile w of
        None \<Rightarrow> Inl NullDeref
      | Some l \<Rightarrow> res_bind (lf_Flush l) (\<lambda>l1. Inr (w\<lparr>logfile := Some l1\<rparr>)))"

text \<open>Output to the asynchronous log, whose programs flush nothing.\<close>

definition async_output :: "bytes \<Rightarrow> log_world \<Rightarrow> log_world res option" where
  "async_output msg w =
     (case async_logfile w of
        None \<Rightarrow> Some (Inl NullDeref)
      | Some f \<Rightarrow> Some (res_bind (async_Append msg f) (\<lambda>f1. Inr (w\<lparr>async_logfile := Some f1\<rparr>))))"

definition async_flush :: "log_world \<Rightarrow> log_world res" where
  "async_flush w = Inr w"

interpretation stdout_sink: log_sink "\<lambda>_. True" "DefaultOutput length" DefaultFlush out_text
  by unfold_locales (simp_all add: DefaultOutput_def DefaultFlush_def)

definition file_ok :: "(nat \<Rightarrow> sys) \<Rightarrow> (nat \<Rightarrow> bytes \<Rightarrow> fwrite_result list) \<Rightarrow> log_world \<Rightarrow> bool" where
  "file_ok sy wr w \<longleftrightarrow> (\<exists>l. logfile w = Some l \<and> store_inv l) \<and> (\<forall>n msg. whole_write (sy n, wr n msg, msg))"

definition file_text :: "log_world \<Rightarrow> bytes" where
  "file_text w = (case logfile w of None \<Rightarrow> [] | Some l \<Rightarrow> all_content l)"

interpretation file_sink: log_sink "file_ok sy wr" "file_output sy wr" file_flush file_text for sy wr
proof unfold_locales
  show "\<exists>w'. file_output sy wr msg w = Some (Inr w') \<and> file_ok sy wr w' \<and> file_text w' = file_text w @ msg"
    if w: "file_ok sy wr w" for w msg
  proof -
    obtain l where l: "logfile w = Some l" "store_inv l" using w by (auto simp: file_ok_def)
    have ws: "whole_write (sy (file_calls w), wr (file_calls w) msg, msg)" using w by (simp add: file_ok_def)
    obtain l1 where l1: "AppendUnlocked (sy (file_calls w)) (wr (file_calls w) msg) msg l = Some (Inr l1)" "store_inv l1"
      "all_content l1 = all_content l @ msg" using AppendUnlocked_store [OF ws l(2)] by blast
    then show ?thesis using l(1) w by (simp add: file_output_def lf_Append_def file_ok_def file_text_def)
  qed
  show "\<exists>w'. file_flush w = Inr w' \<and> file_ok sy wr w' \<and> file_text w' = file_text w" if w: "file_ok sy wr w" for w
  proof -
    obtain l where l: "logfile w = Some l" "store_inv l" using w by (auto simp: file_ok_def)
    obtain l1 where "lf_Flush l = Inr l1" "store_inv l1" "all_content l1 = all_content l" using lf_Flush_store [OF l(2)] by blast
    then show ?thesis using l(1) w by (simp add: file_flush_def file_ok_def file_text_def)
  qed
qed

definition front_ok :: "log_world \<Rightarrow> bool" where
  "front_ok w \<longleftrightarrow> (\<exists>f. async_logfile w = Some f \<and> good_buffer (cur_buffer f) \<and>
     (next_buffer f = None \<and> buffer_to_write f \<noteq> [] \<or> good_buffer (next_buffer f) \<and> is_empty_buffer (next_buffer f)))"

definition front_text :: "log_world \<Rightarrow> bytes" where
  "front_text w = (case async_logfile w of None \<Rightarrow> []
     | Some f \<Rightarrow> concat (map buf_bytes (buffer_to_write f)) @ buf_bytes (cur_buffer f))"

interpretation async_sink: log_sink front_ok async_output async_flush front_text
proof unfold_locales
  show "\<exists>w'. async_output msg w = Some (Inr w') \<and> front_ok w' \<and> front_text w' = front_text w @ msg"
    if w: "front_ok w" "length msg < kSmallBufferSize" for w msg
  proof -
    obtain f where f: "async_logfile w = Some f" "good_buffer (cur_buffer f)"
      "next_buffer f = None \<and> buffer_to_write f \<noteq> [] \<or> good_buffer (next_buffer f) \<and> is_empty_buffer (next_buffer f)"
      using w(1) by (auto simp: front_ok_def)
    have "length msg < kBigBufferSize" using w(2) by (simp add: kSmallBufferSize_def kBigBufferSize_def)
    from async_Append_ok [OF f(2) this f(3)] obtain f' c v where f': "async_Append msg f = Inr f'" "good_buffer (cur_buffer f')"
      "cur_buffer f' = Some c" "buffer_to_write f' = buffer_to_write f @ v"
      "concat (map buf_bytes v) @ fb_data c = buf_bytes (cur_buffer f) @ msg"
      "next_buffer f' = None \<and> buffer_to_write f' \<noteq> [] \<or> good_buffer (next_buffer f') \<and> is_empty_buffer (next_buffer f')"
      by blast
    have "front_text (w\<lparr>async_logfile := Some f'\<rparr>) = front_text w @ msg"
      using f(1) f'(3-5) by (simp add: front_text_def buf_bytes_def)
    then show ?thesis using f(1) f'(1,2,6) by (simp add: async_output_def front_ok_def)
  qed
  show "\<exists>w'. async_flush w = Inr w' \<and> front_ok w' \<and> front_text w' = front_text w" if "front_ok w" for w
    using that by (simp add: async_flush_def)
qed

section \<open>Properties\<close>

text \<open>
  C39. A program that logs to a file writes exactly what it should: after setting the output
  functions to a fresh \<open>LogFile\<close>, any sequence of log statements of all levels runs without a fault,
  and the files, oldest first, hold the lines of the statements at or above the level (warnings
  and above always), whole and in order, up to and including the first \<open>FATAL\<close>, which aborts the
  process; nothing else is written, however the file is rolled in between.
\<close>

theorem log_program_files:
  assumes "can_open y" "0 < time_roll y" "\<forall>n msg. whole_write (sy n, wr n msg, msg)"
  shows "\<exists>l0 w' l. LogFile_ctor y base rsize ivl every = Inr l0 \<and>
    log_prog (SetFlushFunc file_flush (SetOutputFunc (file_output sy wr) (SetLogLevel level (default_globals level0 fw)))) ss
        (w\<lparr>logfile := Some l0\<rparr>) =
      Some (Inr (if FATAL \<in> fst ` set ss then Aborted w' else Running w')) \<and>
    logfile w' = Some l \<and> all_content l = concat (map log_line (filter (enabled level) (executed ss)))"
proof -
  let ?G = "SetFlushFunc file_flush (SetOutputFunc (file_output sy wr) (SetLogLevel level (default_globals level0 fw)))"
  have G: "g_output ?G = file_output sy wr" "g_flush ?G = file_flush" "g_logLevel ?G = level"
    by (simp_all add: SetFlushFunc_def SetOutputFunc_def SetLogLevel_def)
  obtain l0 where l0: "LogFile_ctor y base rsize ivl every = Inr l0" "store_inv l0" "all_content l0 = []"
    using LogFile_ctor_ok [OF assms(1,2)] by blast
  let ?w = "w\<lparr>logfile := Some l0\<rparr>"
  have "file_ok sy wr ?w" using l0(2) assms(3) by (simp add: file_ok_def)
  from file_sink.prog_output [OF this G(1,2), of ss] obtain w' where
    w': "log_prog ?G ss ?w = Some (Inr (if FATAL \<in> fst ` set ss then Aborted w' else Running w'))" "file_ok sy wr w'"
    "file_text w' = concat (map log_line (filter (enabled level) (executed ss)))"
    using G(3) l0(3) by (auto simp: file_text_def)
  obtain l where "logfile w' = Some l" using w'(2) by (auto simp: file_ok_def)
  then show ?thesis using l0(1) w'(1,3) by (auto simp: file_text_def)
qed

definition site :: log_site where
  "site = \<lparr>ls_file = ''a.cc'', ls_line = 7, ls_func = ''main'', ls_temp = ''42'', ls_now = ''now'', ls_tail_func = [], ls_tail = []\<rparr>"

definition no_world :: log_world where
  "no_world = \<lparr>out_text = [], out_flushed = 0, file_calls = 0, logfile = None, async_logfile = None\<rparr>"

theorem log_program_files_witness:
  "\<exists>l0 w' l. LogFile_ctor (sys_at 10) ''app'' 1000 3 1 = Inr l0 \<and>
    log_prog (SetFlushFunc file_flush (SetOutputFunc (file_output (\<lambda>_. sys_at 10) (\<lambda>_ msg. [(length msg, False)]))
        (SetLogLevel WARN (default_globals WARN length))))
        [(INFO, site, [''a'']), (WARN, site, [''b'']), (FATAL, site, [''c'']), (ERROR, site, [''d''])] (no_world\<lparr>logfile := Some l0\<rparr>) =
      Some (Inr (Aborted w')) \<and>
    logfile w' = Some l \<and> all_content l = log_line (WARN, site, [''b'']) @ log_line (FATAL, site, [''c''])"
proof -
  have e: "filter (enabled WARN) (executed [(INFO, site, [''a'']), (WARN, site, [''b'']), (FATAL, site, [''c'']), (ERROR, site, [''d''])]) =
      [(WARN, site, [''b'']), (FATAL, site, [''c''])]"
    by (simp add: enabled_def less_eq_log_level_def)
  have "can_open (sys_at 10)" "0 < time_roll (sys_at 10)" "\<forall>n msg. whole_write (sys_at 10, [(length msg, False)], msg)"
    by (simp_all add: sys_at_def whole_write_def)
  from log_program_files [OF this, of "''app''" 1000 3 1 WARN WARN length
      "[(INFO, site, [''a'']), (WARN, site, [''b'']), (FATAL, site, [''c'']), (ERROR, site, [''d''])]" no_world]
  show ?thesis unfolding e by (simp del: log_line.simps)
qed

text \<open>
  The same on standard output, and in the buffers of the asynchronous log. With the level the
  build sets, statements below \<open>WARN\<close> print nothing.
\<close>

lemma log_program_stdout:
  assumes "InitLogLevel [''USE_LOG_WARN''] = Some level"
  shows "\<exists>w'. log_prog (default_globals level length) ss w =
      Some (Inr (if FATAL \<in> fst ` set ss then Aborted w' else Running w')) \<and>
    out_text w' = out_text w @ concat (map log_line (filter (\<lambda>s. fst s \<in> {WARN, ERROR, FATAL}) (executed ss)))"
proof -
  have l: "level = WARN" using assms by (simp add: InitLogLevel_def)
  have e: "enabled WARN = (\<lambda>s. fst s \<in> {WARN, ERROR, FATAL})"
  proof
    fix s :: log_stmt
    show "enabled WARN s \<longleftrightarrow> fst s \<in> {WARN, ERROR, FATAL}"
      by (cases "fst s") (auto simp: enabled_def less_eq_log_level_def)
  qed
  show ?thesis using stdout_sink.prog_output [of "default_globals level length" ss w] l e
    by (simp add: default_globals_def)
qed

lemma log_program_async:
  "\<exists>w'. log_prog \<lparr>g_logLevel = level, g_output = async_output, g_flush = async_flush\<rparr> ss
       (w\<lparr>async_logfile := Some AsyncLogging_ctor\<rparr>) =
      Some (Inr (if FATAL \<in> fst ` set ss then Aborted w' else Running w')) \<and>
    front_text w' = concat (map log_line (filter (enabled level) (executed ss)))"
proof -
  let ?w = "w\<lparr>async_logfile := Some AsyncLogging_ctor\<rparr>"
  have f: "front_ok ?w" "front_text ?w = []"
    by (simp_all add: front_ok_def front_text_def AsyncLogging_ctor_def good_buffer_def is_empty_buffer_def new_big_buffer_def
        FixedBuffer_ctor_def buf_bytes_def Length_def)
  show ?thesis using async_sink.prog_output [OF f(1), of "\<lparr>g_logLevel = level, g_output = async_output, g_flush = async_flush\<rparr>" ss] f(2)
    by (simp split del: if_split) blast
qed

text \<open>A short write to standard output stops the process, if assertions are compiled in.\<close>

lemma short_write_fails:
  "fw (log_line s) \<noteq> length (log_line s) \<Longrightarrow> enabled level s \<Longrightarrow> LOG (default_globals level fw) s w = Some (Inl AssertFailed)"
  by (simp add: LOG_cases(1) default_globals_def DefaultOutput_def)

end
