(* ===== verification/Spec2Isabelle.thy ===== *)
theory Spec2Isabelle
  imports Event_Loop_Thread Echo_Loop Echo_Service Server_Callbacks Pingpong_Client Log_Output
begin

text \<open>
  MyNetLib is a C++ network library in the reactor style: one \<open>EventLoop\<close> per thread, non-blocking
  sockets, an asynchronous log. This development models its core and proves what makes it
  correct. File names below are relative to \<^verbatim>\<open>src/\<close>.

  \<^bold>\<open>Parts and how they interact.\<close>
  A \<open>TcpServer\<close> owns an \<open>Acceptor\<close> and a pool of loops. The acceptor's channel becomes readable, the
  acceptor accepts, the server makes a \<open>TcpConnection\<close> on the next loop of the pool and queues its
  \<open>ConnectionEstablished\<close> there. A connection registers its \<open>Channel\<close> with the loop's \<open>Poller\<close> (epoll or
  poll), reads into and writes from a \<open>Buffer\<close>, and on close has the server erase it from its map
  and queue \<open>ConnectionDestroyed\<close>. The loop alternates timers (\<open>TimerManager\<close>), polling, event handling
  and the functors other threads queued. All parts log through \<open>Logger\<close>, whose lines go to
  \<open>AsyncLogging\<close> and from its thread to \<open>LogFile\<close>.

  \<^bold>\<open>Theories.\<close>
  \<^item> \<open>Net_Prelude\<close>: faults and results (\<open>res\<close>), word facts, block copies, \<open>std::vector\<close> resizing, decimal
    printing.
  \<^item> \<open>Buffer\<close>: \<open>include/buffer.h\<close>, \<open>src/buffer.cc\<close>; a record of the vector and two 64-bit indices, one
    definition per method. The content refines a byte queue (\<open>buffer_stream_integrity\<close>); \<open>Append\<close> and
    \<open>ReadFd\<close> are specified on every branch.
  \<^item> \<open>Prio_Queue\<close>, \<open>Timer_Manager\<close>: \<open>std::priority_queue\<close> as a binary heap behind a locale; \<open>src/timer.cc\<close>,
    \<open>src/timer_manager.cc\<close> over it. Timers live in a store indexed by address, so that use after
    \<open>delete\<close> is a fault. Callbacks are arbitrary functions of the state.
  \<^item> \<open>Channel\<close>, \<open>Poller\<close>: \<open>src/channel.cc\<close>, the interface \<open>include/poller.h\<close> as a record of operations and
    as a locale of the laws a client may use.
  \<^item> \<open>Epoll_Poller\<close>, \<open>Poll_Poller\<close>: the two implementations, each an interpretation of the locale. The
    kernel is an interest list and an oracle for what \<open>epoll_wait\<close> and \<open>poll\<close> report.
  \<^item> \<open>Event_Loop\<close>: \<open>src/event_loop.cc\<close>. The queueing methods are functions; \<open>Loop\<close> with any number of
    other threads is the step relation \<open>step\<close>, in which each access to shared state is one step.
  \<^item> \<open>Event_Loop_Thread\<close>: \<open>src/current_thread.cc\<close>, \<open>src/thread.cc\<close>, \<open>src/event_loop_thread.cc\<close>. Owner and new
    thread are program counters of a step relation that contains the loop's own.
  \<^item> \<open>Reactor\<close>: the rest of \<open>src/event_loop.cc\<close>: constructor, destructor, one turn over timers, poller and
    functors, and \<open>Loop\<close>. Code the loop runs is the argument \<open>U\<close> (\<open>client_ok\<close>), polling the locale
    \<open>loop_polling\<close>, interpreted for both pollers.
  \<^item> \<open>Tcp_Connection\<close>: \<open>src/tcp_connection.cc\<close> over an abstract poller (locale \<open>conn_loop\<close>), interpreted for
    both pollers.
  \<^item> \<open>Connection_Set\<close>: the connections of one loop. Every operation of a connection changes its own
    channel and the entries of its own descriptor only (\<open>conn_step_local\<close>); the locale \<open>conn_members\<close>
    lifts the invariant of a connection to all connections on a shared poller.
  \<^item> \<open>Acceptor\<close>: \<open>src/inet_addr.cc\<close>, \<open>src/socket.cc\<close>, \<open>src/socket_utils.cc\<close>, \<open>src/acceptor.cc\<close>; socket options
    and flags per descriptor.
  \<^item> \<open>Tcp_Server\<close>: \<open>src/event_loop_thread_poll.cc\<close> and \<open>src/tcp_server.cc\<close>; functors given to loops are data
    (\<open>srv_task\<close>), and the server's runs interleave them with new and closing connections.
  \<^item> \<open>Server_Run\<close>: the two together. Running a functor of the server is the method of the connection
    object on the poller of its loop, and a connection that closes calls the server. What a program
    does with its connections is a \<open>service\<close>, its contract the locale \<open>server_conns\<close>; \<open>whole_inv\<close>
    ties the state of every connection to the functors its loop has run.
  \<^item> \<open>Server_Service\<close>: the service of a program that sets callbacks. \<open>Server_Front\<close>: the server with its
    acceptor and the kernel's table of open descriptors.
  \<^item> \<open>Log_Stream\<close>: \<open>include/log_stream.h\<close>, \<open>src/logger.cc\<close>, \<open>src/time_stamp.cc\<close>.
  \<^item> \<open>Log_File\<close>: \<open>src/log_file.cc\<close>, rolling and flushing.
  \<^item> \<open>Async_Logging\<close>: \<open>src/async_logging.cc\<close> as a step relation of front-end appends and the back-end
    thread.
  \<^item> \<open>Log_Output\<close>: the level, the \<open>LOG_\<close> macros and the output functions of \<open>src/logger.cc\<close>. An output is
    an instance of the locale \<open>log_sink\<close>: standard output, a log file, the asynchronous log.
  \<^item> \<open>Config\<close>: \<open>include/config.h\<close>, with the regular expression matched by backtracking.
  \<^item> \<open>Echo_Server\<close>, \<open>Echo_Loop\<close>, \<open>Echo_Clients\<close>, \<open>Echo_Service\<close>: the servers of \<open>example/echo_server.cc\<close> and
    \<open>example/pingpong_server.cc\<close> on a connection, a connection of the echo server on its loop, any
    number of its clients on one loop, and the whole server on any number of loops.
  \<^item> \<open>Server_Callbacks\<close>: the callback members of \<open>TcpServer\<close> and \<open>TcpConnection\<close>, which may be empty, their
    setters, and the constructors of the two example servers.
  \<^item> \<open>Pingpong_Client\<close>: \<open>example/pingpong_client.cc\<close>.

  \<^bold>\<open>What the lemmas show.\<close>
  Buffers are queues of bytes, as long as nobody asks for more than there are. Due timers run once each, in
  order, if their callbacks at most add timers, and a timer with count \<open>n\<close> runs \<open>n + 1\<close> times. A channel's index agrees with the poller's map and the kernel's interest
  list, so that the fatal branches of the poller are not reached by its clients. Functors run
  in order and never twice, one that waits is reached unless the loop is made to quit, and the loop does
  not sleep on a queued functor unless a timer callback queued it. The bytes given to a connection are the bytes its socket took followed by those
  in its output buffer, and writability is watched exactly while that buffer is not empty. This
  holds for every connection of a loop, whatever the others do. The
  server's map holds exactly the connections accepted and not yet removed, each of which is
  established once and destroyed at most once, in this order. These calls never find a connection
  that is gone or in the wrong state, and a closed connection leaves its poller once the queued
  functors have run. The open descriptors are exactly those of the live channels. Connections are spread evenly
  over the loops. A program's log statements reach its log file in order, filtered by the level; the
  lines of the asynchronous log reach the files in order. A turn of the loop never faults if the code
  it runs keeps its contract, and \<open>Loop\<close> returns exactly when a turn leaves \<open>quit_\<close> set. \<open>StartLoop\<close>
  returns unless the loop is made to quit before, and what it returns is the loop of the new thread. The echo server sends back what
  it receives, within the turn that reads it as far as the socket takes it. A write-complete callback
  that is not set is never called. The configuration
  matcher is equal to a direct description of what it extracts, and \<open>PullConfig\<close> stores exactly this.
  Where the code does not do what it means to, the theorem states what it does: an overdue
  timer gives a wrong poll timeout and so does one that is \<open>2^31\<close> milliseconds away, \<open>Send(Buffer*)\<close> from another thread reads freed memory, the
  poll-based poller forgets to reset an index, a hang-up with urgent data closes a connection twice, the log's back end can dereference a null
  buffer and can lose lines at \<open>Stop\<close>, the periodic flush never happens, the destructor of
  \<open>EventLoopThread\<close> can wait for ever, a server without a connection callback ends at its first
  connection.

  \<^bold>\<open>Bounds and fuel.\<close>
  \<open>size_t\<close>, \<open>int\<close> and event masks are words of their width; times in \<open>Log_File\<close> are unbounded. The loop of
  \<open>CheckAndHandle\<close> is a \<open>partial_function\<close> and is proved to return. The write loop of \<open>AppendFile\<close> runs
  over the results of its \<open>fwrite\<close> calls; a call that takes the whole line ends it. \<open>Loop\<close> is a
  \<open>partial_function\<close> too: it may run for ever, and \<open>loop_returns_iff_quit\<close> says when it does not.
  No other definition has fuel.

  \<^bold>\<open>Not modelled.\<close>
  \<open>TestTime\<close> of \<open>utils.h\<close>, which prints a measured time; \<open>callbacks.h\<close> and \<open>noncopyable.h\<close>, which hold type
  names and a deleted copy constructor; the getters and setters that only name a member (those of
  the callbacks of servers and connections apart); the library the
  ping-pong client runs on, which is not part of the repository. User callbacks
  are recorded as events or are parameters. In the runs of the whole server a connection closes once (an event
  that closes it twice is treated on a connection alone), functors bound to the address of a connection
  end with it, timer callbacks do not call the timer manager, and answers of the echo server that find the
  peer gone are left out. Data races on plain variables are interleavings of
  whole accesses, not undefined behaviour.
\<close>

section \<open>The log from the front end to the files\<close>

text \<open>
  C35. The whole logging path keeps every line in order: in every reachable state of the
  asynchronous logger, if the bytes its back end has written went to the log file in any
  division into appends that \<open>fwrite\<close> accepted, then the files, oldest first, followed by the
  bytes still in the logger's buffers, are exactly what the front end was given.
\<close>

theorem log_pipeline:
  assumes "log_reachable s" "concat (map (\<lambda>(y, ws, line). line) rs) = written (bk s)"
    "\<forall>r \<in> set rs. whole_write r" "can_open y" "0 < time_roll y"
  shows "\<exists>l0 l f. LogFile_ctor y base rsize ivl every = Inr l0 \<and> lf_run rs l0 = Some (Inr l) \<and>
    file_ptr l = Some f \<and> concat (map af_content (closed l @ [f])) @ waiting s = appended s"
proof -
  obtain l0 where l0: "LogFile_ctor y base rsize ivl every = Inr l0" "store_inv l0" "all_content l0 = []"
    using LogFile_ctor_ok [OF assms(4,5)] by blast
  obtain l where l: "lf_run rs l0 = Some (Inr l)" "store_inv l" "all_content l = written (bk s)"
    using lf_run_store [OF assms(3) l0(2)] l0(3) assms(2) by auto
  have "all_content l @ waiting s = appended s" using log_reachable_inv [OF assms(1)] l(3) by (simp add: log_inv_def)
  moreover obtain f where "file_ptr l = Some f" using l(2) by (auto simp: store_inv_def)
  ultimately show ?thesis using l(1) l0(1)
    by (intro exI [of _ l0] exI [of _ l] exI [of _ f]) (simp add: all_content_def file_content_def)
qed

theorem log_pipeline_witness:
  "\<exists>s l0 l f. log_reachable s \<and> written (bk s) = ''hello'' \<and> LogFile_ctor (sys_at 10) ''app'' 1000 3 1 = Inr l0 \<and>
     lf_run [(sys_at 10, [(5, False)], ''hello'')] l0 = Some (Inr l) \<and> file_ptr l = Some f \<and>
     concat (map af_content (closed l @ [f])) @ waiting s = ''hello''"
proof -
  have "bphase one_message = AtTest" "running (fr one_message)" "length (buffer_to_write (fr one_message)) < 25"
    "appended one_message = ''hello''"
    by (simp_all add: one_message_def logging_init_def async_Start_def AsyncLogging_ctor_def async_Append_def Avail_def kBigBufferSize_def)
  then obtain s where s: "log_reachable s" "written (bk s) = ''hello''" "appended s = ''hello''"
    using write_turn [OF one_message_reachable] by auto
  let ?rs = "[(sys_at 10, [(5, False)], ''hello'')]"
  have "concat (map (\<lambda>(y, ws, line). line) ?rs) = written (bk s)" "\<forall>r \<in> set ?rs. whole_write r"
    "can_open (sys_at 10)" "0 < time_roll (sys_at 10)"
    by (simp_all add: s(2) whole_write_def sys_at_def)
  from log_pipeline [OF s(1) this, of "''app''" 1000 3 1] show ?thesis using s by (intro exI [of _ s]) simp
qed

end
